(* ===== verification/Rustdv_Prelude.thy ===== *)
theory Rustdv_Prelude
  imports Main
begin

text \<open>
  Shared vocabulary of the rustdv development: task identifiers and wakers, the result of
  polling a future, panics as values, and the few list and string functions of the Rust
  standard library that several components call (\<open>position\<close>, \<open>remove\<close>, \<open>split\<close>,
  \<open>join\<close>, the stable insertion sort). The generic lemmas on them are collected here so
  that the component theories only carry component facts.
\<close>

section \<open>Collections of facts\<close>

named_theorems rust_simps \<open>unfolding rules of the Rust library functions\<close>
named_theorems keeps \<open>an operation keeps an invariant\<close>

section \<open>Wakers, polls, panics\<close>

text \<open>
  A waker is the executor's \<open>TaskWaker\<close>: all it carries is the id of the task that will be
  pushed on the woken queue. The 64-bit ids only count up from 1, so they are naturals here.
  Waking is an effect, so an operation that wakes returns the wakers it woke, in order.
\<close>

type_synonym task_id = nat
type_synonym waker = task_id

datatype 'a poll = Pending | Ready 'a

datatype panic = Panic string

type_synonym 'a may_panic = "panic + 'a"

abbreviation panics :: "string \<Rightarrow> 'a may_panic" where
  "panics msg \<equiv> Inl (Panic msg)"

section \<open>Vectors: position, remove, retain\<close>

fun position :: "('a \<Rightarrow> bool) \<Rightarrow> 'a list \<Rightarrow> nat option" where
  "position P [] = None"
| "position P (x # xs) = (if P x then Some 0 else map_option Suc (position P xs))"

definition remove_at :: "nat \<Rightarrow> 'a list \<Rightarrow> 'a list" where
  "remove_at i xs = take i xs @ drop (Suc i) xs"

lemma remove_at_0 [simp]: "remove_at 0 (x # xs) = xs"
  by (simp add: remove_at_def)

lemma remove_at_Suc [simp]: "remove_at (Suc i) (x # xs) = x # remove_at i xs"
  by (simp add: remove_at_def)

lemma length_remove_at: "i < length xs \<Longrightarrow> length (remove_at i xs) = length xs - 1"
  by (simp add: remove_at_def)

lemma position_None_iff: "position P xs = None \<longleftrightarrow> (\<forall>x \<in> set xs. \<not> P x)"
  by (induction xs) auto

lemma position_SomeD:
  "position P xs = Some i \<Longrightarrow>
     i < length xs \<and> P (xs ! i) \<and> (\<forall>j < i. \<not> P (xs ! j))"
proof (induction xs arbitrary: i)
  case Nil
  then show ?case by simp
next
  case (Cons x xs)
  show ?case
  proof (cases "P x")
    case True
    with Cons.prems show ?thesis by auto
  next
    case False
    with Cons.prems obtain j where j: "position P xs = Some j" and i: "i = Suc j" by auto
    from Cons.IH [OF j] False i show ?thesis
      by (auto simp: nth_Cons split: nat.splits)
  qed
qed

text \<open>Searching and removing the first match is one structural function.\<close>

lemma remove_at_position:
  "position P xs = Some i \<Longrightarrow> \<exists>ys zs. xs = ys @ xs ! i # zs \<and> remove_at i xs = ys @ zs \<and>
     length ys = i \<and> (\<forall>y \<in> set ys. \<not> P y)"
proof -
  assume pos: "position P xs = Some i"
  note i = position_SomeD [OF pos]
  have "xs = take i xs @ xs ! i # drop (Suc i) xs"
    using i by (simp add: id_take_nth_drop)
  moreover have "\<forall>y \<in> set (take i xs). \<not> P y"
    using i by (auto simp: in_set_conv_nth)
  ultimately show ?thesis
    using i by (intro exI [of _ "take i xs"] exI [of _ "drop (Suc i) xs"])
      (auto simp: remove_at_def)
qed

lemma position_eq_remove1:
  "position (\<lambda>y. y = x) xs = Some i \<Longrightarrow> remove_at i xs = remove1 x xs"
  by (induction xs arbitrary: i) auto

lemma set_map_filter_iff: "y \<in> set (List.map_filter f xs) \<longleftrightarrow> (\<exists>x \<in> set xs. f x = Some y)"
  by (induction xs) (auto simp: List.map_filter_simps split: option.splits)

lemma map_filter_filter:
  "List.map_filter f (filter P xs) = List.map_filter (\<lambda>x. if P x then f x else None) xs"
  by (induction xs) (auto simp: List.map_filter_simps split: option.splits)

text \<open>\<open>Iterator::max_by_key\<close>: of several maximal elements the last one is returned.\<close>

fun max_by_key :: "('a \<Rightarrow> nat) \<Rightarrow> 'a list \<Rightarrow> 'a option" where
  "max_by_key key [] = None"
| "max_by_key key (x # xs) = Some (fold (\<lambda>y best. if key y < key best then best else y) xs x)"

lemma fold_max_by_key:
  fixes key :: "'a \<Rightarrow> nat"
  assumes "m = fold (\<lambda>y best. if key y < key best then best else y) xs x"
  shows "m \<in> set (x # xs) \<and> (\<forall>y \<in> set (x # xs). key y \<le> key m)"
  using assms
proof (induction xs arbitrary: x)
  case Nil
  then show ?case by simp
next
  case (Cons y ys)
  then show ?case by (cases "key y < key x") fastforce+
qed

lemma max_by_key_SomeD:
  assumes "max_by_key key xs = Some m"
  shows "m \<in> set xs \<and> (\<forall>y \<in> set xs. key y \<le> key m)"
proof (cases xs)
  case Nil
  with assms show ?thesis by simp
next
  case (Cons x ys)
  with assms fold_max_by_key [of m key ys x] show ?thesis by simp
qed

lemma max_by_key_None [simp]: "max_by_key key xs = None \<longleftrightarrow> xs = []"
  by (cases xs) auto

section \<open>Strings: split on a character and join\<close>

text \<open>\<open>str::split(c)\<close> yields every piece between separators, at least one.\<close>

fun split_on :: "'a \<Rightarrow> 'a list \<Rightarrow> 'a list list" where
  "split_on c [] = [[]]"
| "split_on c (x # xs) =
     (if x = c then [] # split_on c xs
      else (case split_on c xs of [] \<Rightarrow> [[x]] | p # ps \<Rightarrow> (x # p) # ps))"

fun join_with :: "'a \<Rightarrow> 'a list list \<Rightarrow> 'a list" where
  "join_with c [] = []"
| "join_with c [p] = p"
| "join_with c (p # q # ps) = p @ c # join_with c (q # ps)"

lemma split_on_not_Nil [simp]: "split_on c xs \<noteq> []"
  by (induction xs) (auto split: list.splits)

lemma join_split_on [simp]: "join_with c (split_on c xs) = xs"
proof (induction xs)
  case Nil
  then show ?case by simp
next
  case (Cons x xs)
  obtain p ps where s: "split_on c xs = p # ps"
    using split_on_not_Nil [of c xs] by (meson list.exhaust)
  with Cons show ?case by (cases ps) auto
qed

lemma split_on_no_sep: "c \<notin> set xs \<Longrightarrow> split_on c xs = [xs]"
  by (induction xs) auto

lemma split_on_append_sep:
  "c \<notin> set p \<Longrightarrow> split_on c (p @ c # xs) = p # split_on c xs"
  by (induction p) auto

lemma split_join_with:
  "ps \<noteq> [] \<Longrightarrow> (\<And>p. p \<in> set ps \<Longrightarrow> c \<notin> set p) \<Longrightarrow> split_on c (join_with c ps) = ps"
  by (induction c ps rule: join_with.induct) (auto simp: split_on_no_sep split_on_append_sep)

lemma split_on_pieces: "p \<in> set (split_on c xs) \<Longrightarrow> c \<notin> set p"
proof (induction xs arbitrary: p)
  case Nil
  then show ?case by simp
next
  case (Cons x xs)
  obtain q qs where s: "split_on c xs = q # qs"
    using split_on_not_Nil [of c xs] by (meson list.exhaust)
  with Cons.prems Cons.IH show ?case by (auto split: if_splits)
qed

lemma join_with_append:
  "ps \<noteq> [] \<Longrightarrow> qs \<noteq> [] \<Longrightarrow> join_with c (ps @ qs) = join_with c ps @ c # join_with c qs"
  by (induction c ps rule: join_with.induct) (auto simp: neq_Nil_conv)

lemma join_with_inj:
  assumes "ps \<noteq> []" "qs \<noteq> []"
    and "\<And>p. p \<in> set ps \<Longrightarrow> c \<notin> set p" "\<And>q. q \<in> set qs \<Longrightarrow> c \<notin> set q"
    and "join_with c ps = join_with c qs"
  shows "ps = qs"
  using assms split_join_with [of ps c] split_join_with [of qs c] by metis

section \<open>Decimal rendering\<close>

text \<open>\<open>format!("{n}")\<close> of an unsigned integer.\<close>

definition digit_char :: "nat \<Rightarrow> char" where
  "digit_char d = (''0123456789'' ! (d mod 10))"

fun dec_string :: "nat \<Rightarrow> string" where
  "dec_string n = (if n < 10 then [digit_char n] else dec_string (n div 10) @ [digit_char (n mod 10)])"

declare dec_string.simps [simp del]

definition int_string :: "int \<Rightarrow> string" where
  "int_string i = (if i < 0 then CHR 0x2D # dec_string (nat (- i)) else dec_string (nat i))"

text \<open>\<open>format!("{s:<n}")\<close>: pad on the right to at least \<open>n\<close> columns.\<close>

definition pad_right :: "nat \<Rightarrow> string \<Rightarrow> string" where
  "pad_right n s = s @ replicate (n - length s) (CHR 0x20)"

section \<open>The stable insertion sort of \<open>slice::sort_by\<close>\<close>

text \<open>
  \<open>sort_by\<close> is a stable sort. On the short slices this code sorts (up to twenty elements)
  the standard library runs an insertion sort that moves each element left while it is
  strictly less than its left neighbour; on a total preorder every stable sort agrees with it.
\<close>

fun insert_tail :: "('a \<Rightarrow> 'a \<Rightarrow> bool) \<Rightarrow> 'a \<Rightarrow> 'a list \<Rightarrow> 'a list" where
  "insert_tail lt x [] = [x]"
| "insert_tail lt x (y # ys) = (if lt x y then y # insert_tail lt x ys else x # y # ys)"

definition sort_by :: "('a \<Rightarrow> 'a \<Rightarrow> bool) \<Rightarrow> 'a list \<Rightarrow> 'a list" where
  "sort_by lt xs = rev (fold (insert_tail lt) xs [])"

lemma set_insert_tail [simp]: "set (insert_tail lt x ys) = insert x (set ys)"
  by (induction ys) auto

lemma set_fold_insert_tail: "set (fold (insert_tail lt) xs acc) = set xs \<union> set acc"
  by (induction xs arbitrary: acc) auto

lemma set_sort_by [simp]: "set (sort_by lt xs) = set xs"
  by (simp add: sort_by_def set_fold_insert_tail)

lemma sort_by_Nil_iff [simp]: "sort_by lt xs = [] \<longleftrightarrow> xs = []"
  using set_sort_by [of lt xs] by (metis set_empty)

lemma sort_by_Nil [simp]: "sort_by lt [] = []"
  by (simp add: sort_by_def)

end
