(* ===== verification/Executor_Model.thy ===== *)
theory Executor_Model
  imports Rustdv_Prelude
begin

text \<open>
  The single-threaded executor of \<open>rustdv-sim/src/executor.rs\<close>: task table, run queue,
  woken queue, deferred self-cancellation, and the shared cells that task handles read.
  A user future is a value of a type \<open>'f\<close>; what its \<open>poll\<close> does is the parameter
  \<open>pf\<close>: from the future and the executor it returns the new user world, the calls it made
  on the executor (wake, spawn, cancel, await a handle) in order, and how the poll ended.
  What dropping an unfinished future does is the parameter \<open>dr\<close>: the destructors of this
  code base change shared state and wake tasks.
  The \<open>Rc\<close> closures \<open>on_abort\<close> and \<open>state_cell\<close> of a task entry both write the task's
  shared cell, so they are writes to \<open>ex_shared\<close> at the task's id.
\<close>

section \<open>State\<close>

datatype task_state = TsUnstarted | TsScheduled | TsRunning | TsPending | TsFinished
  | TsCancelled | TsFailed

datatype task_error = TeCancelled | TePanicked string | TeInvalidState

record 'v task_shared =
  sh_state :: task_state
  sh_result :: "(task_error + 'v) option"
  sh_joiners :: "waker list"

text \<open>\<open>te_fut\<close> is \<open>None\<close> while the no-op placeholder sits in the entry.\<close>

record 'f task_entry =
  te_fut :: "'f option"
  te_name :: string
  te_state :: task_state

record ('f, 'v, 'w) exec =
  ex_tasks :: "task_id \<rightharpoonup> 'f task_entry"
  ex_next_id :: task_id
  ex_run_queue :: "task_id list"
  ex_woken :: "task_id list"
  ex_running :: bool
  ex_polling :: "task_id option"
  ex_cancel_pending :: "task_id list"
  ex_has_sink :: bool
  ex_sink :: "string list"
  ex_stderr :: "string list"
  ex_shared :: "task_id \<rightharpoonup> 'v task_shared"
  ex_world :: 'w

datatype 'f action = AWake task_id | ASpawn 'f "string option" | ACancel task_id | AAwait task_id

datatype ('f, 'v) outcome = FPending 'f | FReady 'v | FPanic string

type_synonym ('f, 'v, 'w) behaviour =
  "task_id \<Rightarrow> 'f \<Rightarrow> ('f, 'v, 'w) exec \<Rightarrow> 'w \<times> 'f action list \<times> ('f, 'v) outcome"

type_synonym ('f, 'w) destructor = "'f \<Rightarrow> 'w \<Rightarrow> 'w \<times> waker list"

definition exec_init :: "'w \<Rightarrow> ('f, 'v, 'w) exec" where
  "exec_init w = \<lparr>ex_tasks = Map.empty, ex_next_id = 1, ex_run_queue = [], ex_woken = [],
     ex_running = False, ex_polling = None, ex_cancel_pending = [], ex_has_sink = False,
     ex_sink = [], ex_stderr = [], ex_shared = Map.empty, ex_world = w\<rparr>"

section \<open>Operations\<close>

text \<open>\<open>TaskWaker::wake\<close>.\<close>

definition wake :: "waker \<Rightarrow> ('f, 'v, 'w) exec \<Rightarrow> ('f, 'v, 'w) exec" where
  "wake w e = e\<lparr>ex_woken := ex_woken e @ [w]\<rparr>"

definition set_state_cell :: "task_id \<Rightarrow> task_state \<Rightarrow> ('f, 'v, 'w) exec \<Rightarrow> ('f, 'v, 'w) exec" where
  "set_state_cell i s e =
     (case ex_shared e i of
        None \<Rightarrow> e
      | Some sh \<Rightarrow> e\<lparr>ex_shared := (ex_shared e)(i \<mapsto> sh\<lparr>sh_state := s\<rparr>)\<rparr>)"

text \<open>\<open>TaskShared::complete\<close>: store the result and wake every joiner.\<close>

definition complete :: "task_id \<Rightarrow> task_error + 'v \<Rightarrow> ('f, 'v, 'w) exec \<Rightarrow> ('f, 'v, 'w) exec" where
  "complete i r e =
     (case ex_shared e i of
        None \<Rightarrow> e
      | Some sh \<Rightarrow> e\<lparr>ex_shared := (ex_shared e)(i \<mapsto> sh\<lparr>sh_result := Some r, sh_joiners := []\<rparr>),
          ex_woken := ex_woken e @ sh_joiners sh\<rparr>)"

definition on_abort :: "task_id \<Rightarrow> task_error \<Rightarrow> ('f, 'v, 'w) exec \<Rightarrow> ('f, 'v, 'w) exec" where
  "on_abort i err e =
     complete i (Inl err)
       (set_state_cell i (case err of TeCancelled \<Rightarrow> TsCancelled | _ \<Rightarrow> TsFailed) e)"

definition spawn_named :: "'f \<Rightarrow> string option \<Rightarrow> ('f, 'v, 'w) exec \<Rightarrow> ('f, 'v, 'w) exec \<times> task_id" where
  "spawn_named fut name e =
     (let i = ex_next_id e;
          nm = (case name of Some s \<Rightarrow> s | None \<Rightarrow> ''task_'' @ dec_string i)
      in (e\<lparr>ex_next_id := i + 1,
            ex_shared := (ex_shared e)
              (i \<mapsto> \<lparr>sh_state = TsScheduled, sh_result = None, sh_joiners = []\<rparr>),
            ex_tasks := (ex_tasks e)
              (i \<mapsto> \<lparr>te_fut = Some fut, te_name = nm, te_state = TsScheduled\<rparr>),
            ex_run_queue := ex_run_queue e @ [i]\<rparr>, i))"

definition set_task :: "task_id \<Rightarrow> 'f task_entry \<Rightarrow> ('f, 'v, 'w) exec \<Rightarrow> ('f, 'v, 'w) exec" where
  "set_task i t e = e\<lparr>ex_tasks := (ex_tasks e)(i \<mapsto> t)\<rparr>"

definition remove_task :: "task_id \<Rightarrow> ('f, 'v, 'w) exec \<Rightarrow> ('f, 'v, 'w) exec" where
  "remove_task i e = e\<lparr>ex_tasks := (ex_tasks e)(i := None)\<rparr>"

text \<open>One turn of the loop of \<open>drain_woken\<close>: only a pending task is scheduled.\<close>

definition drain_one :: "task_id \<Rightarrow> ('f, 'v, 'w) exec \<Rightarrow> ('f, 'v, 'w) exec" where
  "drain_one i e =
     (case ex_tasks e i of
        Some t \<Rightarrow>
          if te_state t = TsPending
          then (set_state_cell i TsScheduled (set_task i (t\<lparr>te_state := TsScheduled\<rparr>) e))
                 \<lparr>ex_run_queue := ex_run_queue e @ [i]\<rparr>
          else e
      | None \<Rightarrow> e)"

definition drain_woken :: "('f, 'v, 'w) exec \<Rightarrow> ('f, 'v, 'w) exec" where
  "drain_woken e = fold drain_one (ex_woken e) (e\<lparr>ex_woken := []\<rparr>)"

definition cancel :: "('f, 'w) destructor \<Rightarrow> task_id \<Rightarrow> ('f, 'v, 'w) exec \<Rightarrow> ('f, 'v, 'w) exec" where
  "cancel dr i e =
     (if ex_polling e = Some i
      then e\<lparr>ex_cancel_pending := ex_cancel_pending e @ [i]\<rparr>
      else (case ex_tasks e i of
              None \<Rightarrow> e
            | Some t \<Rightarrow>
                (let e1 = on_abort i TeCancelled (remove_task i e)
                 in (case te_fut t of
                       None \<Rightarrow> e1
                     | Some f \<Rightarrow> (let (w, ws) = dr f (ex_world e1)
                                 in e1\<lparr>ex_world := w, ex_woken := ex_woken e1 @ ws\<rparr>)))))"

text \<open>
  \<open>cancel_after\<close> walks the keys of a hash map, whose order is not specified: \<open>keys\<close> is the
  enumeration it happened to use.
\<close>

definition cancel_after :: "('f, 'w) destructor \<Rightarrow> task_id list \<Rightarrow> task_id
    \<Rightarrow> ('f, 'v, 'w) exec \<Rightarrow> ('f, 'v, 'w) exec" where
  "cancel_after dr keys watermark e = fold (cancel dr) (filter (\<lambda>i. i \<ge> watermark) keys) e"

definition watermark :: "('f, 'v, 'w) exec \<Rightarrow> task_id" where
  "watermark e = ex_next_id e"

definition set_failure_sink :: "('f, 'v, 'w) exec \<Rightarrow> ('f, 'v, 'w) exec" where
  "set_failure_sink e = e\<lparr>ex_has_sink := True\<rparr>"

text \<open>The handle side: \<open>done\<close>, \<open>result\<close> (which consumes the value) and the handle's poll.\<close>

definition done_state :: "task_state \<Rightarrow> bool" where
  "done_state s \<longleftrightarrow> s = TsFinished \<or> s = TsCancelled \<or> s = TsFailed"

definition handle_result :: "task_id \<Rightarrow> ('f, 'v, 'w) exec \<Rightarrow> ('f, 'v, 'w) exec \<times> (task_error + 'v)" where
  "handle_result i e =
     (case ex_shared e i of
        None \<Rightarrow> (e, Inl TeInvalidState)
      | Some sh \<Rightarrow> (e\<lparr>ex_shared := (ex_shared e)(i \<mapsto> sh\<lparr>sh_result := None\<rparr>)\<rparr>,
          (case sh_result sh of Some r \<Rightarrow> r | None \<Rightarrow> Inl TeInvalidState)))"

definition handle_poll :: "waker \<Rightarrow> task_id \<Rightarrow> ('f, 'v, 'w) exec
    \<Rightarrow> ('f, 'v, 'w) exec \<times> (task_error + 'v) poll" where
  "handle_poll w i e =
     (case ex_shared e i of
        None \<Rightarrow> (e, Pending)
      | Some sh \<Rightarrow>
          if done_state (sh_state sh)
          then (case handle_result i e of (e', r) \<Rightarrow> (e', Ready r))
          else (e\<lparr>ex_shared := (ex_shared e)(i \<mapsto> sh\<lparr>sh_joiners := sh_joiners sh @ [w]\<rparr>)\<rparr>, Pending))"

text \<open>One call a polled future makes on the executor.\<close>

fun act :: "('f, 'w) destructor \<Rightarrow> task_id \<Rightarrow> 'f action \<Rightarrow> ('f, 'v, 'w) exec \<Rightarrow> ('f, 'v, 'w) exec" where
  "act dr self (AWake i) e = wake i e"
| "act dr self (ASpawn f n) e = fst (spawn_named f n e)"
| "act dr self (ACancel i) e = cancel dr i e"
| "act dr self (AAwait i) e = fst (handle_poll self i e)"

text \<open>The three ways a poll ends.\<close>

definition poll_ready :: "task_id \<Rightarrow> 'v \<Rightarrow> ('f, 'v, 'w) exec \<Rightarrow> ('f, 'v, 'w) exec" where
  "poll_ready i v e =
     remove_task i ((complete i (Inr v) (set_state_cell i TsFinished e))\<lparr>ex_polling := None\<rparr>)"

definition poll_pending :: "('f, 'w) destructor \<Rightarrow> task_id \<Rightarrow> 'f \<Rightarrow> ('f, 'v, 'w) exec
    \<Rightarrow> ('f, 'v, 'w) exec" where
  "poll_pending dr i f e =
     (let e1 = e\<lparr>ex_polling := None\<rparr>;
          e2 = (case ex_tasks e1 i of
                  None \<Rightarrow> e1
                | Some t \<Rightarrow> set_state_cell i TsPending
                    (set_task i (t\<lparr>te_fut := Some f, te_state := TsPending\<rparr>) e1))
      in fold (cancel dr) (ex_cancel_pending e2) (e2\<lparr>ex_cancel_pending := []\<rparr>))"

definition poll_panicked :: "task_id \<Rightarrow> string \<Rightarrow> ('f, 'v, 'w) exec \<Rightarrow> ('f, 'v, 'w) exec" where
  "poll_panicked i msg e =
     (let e1 = e\<lparr>ex_polling := None\<rparr>;
          name = (case ex_tasks e1 i of Some t \<Rightarrow> te_name t | None \<Rightarrow> []);
          e2 = on_abort i (TePanicked msg) (set_state_cell i TsFailed (remove_task i e1))
      in if ex_has_sink e2
         then e2\<lparr>ex_sink := ex_sink e2 @ [''task '' @ [CHR 0x27] @ name @ [CHR 0x27] @ '' panicked: '' @ msg]\<rparr>
         else e2\<lparr>ex_stderr := ex_stderr e2 @
           [''rustdv: unhandled task panic in '' @ [CHR 0x27] @ name @ [CHR 0x27] @ '': '' @ msg]\<rparr>)"

text \<open>The entry goes to \<open>Running\<close> with the placeholder in it.\<close>

definition start_poll :: "task_id \<Rightarrow> 'f task_entry \<Rightarrow> ('f, 'v, 'w) exec \<Rightarrow> ('f, 'v, 'w) exec" where
  "start_poll i t e =
     (set_state_cell i TsRunning (set_task i (t\<lparr>te_fut := None, te_state := TsRunning\<rparr>) e))
       \<lparr>ex_polling := Some i\<rparr>"

definition poll_task :: "('f, 'v, 'w) behaviour \<Rightarrow> ('f, 'w) destructor \<Rightarrow> task_id
    \<Rightarrow> ('f, 'v, 'w) exec \<Rightarrow> ('f, 'v, 'w) exec" where
  "poll_task pf dr i e =
     (case ex_tasks e i of
        None \<Rightarrow> e
      | Some t \<Rightarrow>
          if te_state t \<noteq> TsScheduled then e
          else (let e1 = start_poll i t e
                in (case te_fut t of
                      None \<Rightarrow> remove_task i (e1\<lparr>ex_polling := None\<rparr>)
                    | Some f \<Rightarrow>
                        (case pf i f e1 of (w, acts, out) \<Rightarrow>
                           let e2 = fold (act dr i) acts (e1\<lparr>ex_world := w\<rparr>)
                           in (case out of
                                 FReady v \<Rightarrow> poll_ready i v e2
                               | FPending f' \<Rightarrow> poll_pending dr i f' e2
                               | FPanic m \<Rightarrow> poll_panicked i m e2)))))"

text \<open>The loop of \<open>run_until_idle\<close>; \<open>None\<close> means it does not return.\<close>

partial_function (option) idle_loop :: "('f, 'v, 'w) behaviour \<Rightarrow> ('f, 'w) destructor
    \<Rightarrow> ('f, 'v, 'w) exec \<Rightarrow> ('f, 'v, 'w) exec option" where
  "idle_loop pf dr e =
     (let e1 = drain_woken e
      in (case ex_run_queue e1 of
            [] \<Rightarrow> Some e1
          | i # q \<Rightarrow> idle_loop pf dr (poll_task pf dr i (e1\<lparr>ex_run_queue := q\<rparr>))))"

definition run_until_idle :: "('f, 'v, 'w) behaviour \<Rightarrow> ('f, 'w) destructor
    \<Rightarrow> ('f, 'v, 'w) exec \<Rightarrow> ('f, 'v, 'w) exec option" where
  "run_until_idle pf dr e =
     (if ex_running e then Some e
      else map_option (\<lambda>e'. e'\<lparr>ex_running := False\<rparr>) (idle_loop pf dr (e\<lparr>ex_running := True\<rparr>)))"

section \<open>The invariant between the task table, the queues and the shared cells\<close>

lemmas cell_defs = set_state_cell_def complete_def on_abort_def set_task_def remove_task_def

definition inv_at :: "('f, 'v, 'w) exec \<Rightarrow> task_id \<Rightarrow> bool" where
  "inv_at e i \<longleftrightarrow>
     (i \<in> set (ex_run_queue e) \<or> i \<in> set (ex_cancel_pending e) \<longrightarrow> i < ex_next_id e) \<and>
     (case ex_tasks e i of
        None \<Rightarrow> ex_polling e \<noteq> Some i \<and>
          (case ex_shared e i of
             None \<Rightarrow> True
           | Some sh \<Rightarrow> i < ex_next_id e \<and> done_state (sh_state sh) \<and> sh_joiners sh = [])
      | Some t \<Rightarrow> i < ex_next_id e \<and>
          (case ex_shared e i of
             None \<Rightarrow> False
           | Some sh \<Rightarrow> sh_state sh = te_state t \<and> sh_result sh = None) \<and>
          (if ex_polling e = Some i
           then te_state t = TsRunning \<and> te_fut t = None \<and> i \<notin> set (ex_run_queue e)
           else te_fut t \<noteq> None \<and> i \<notin> set (ex_cancel_pending e) \<and>
             (te_state t = TsScheduled \<or> te_state t = TsPending) \<and>
             (te_state t = TsScheduled \<longleftrightarrow> i \<in> set (ex_run_queue e))))"

text \<open>
  The invariant is pointwise in the task id, apart from two facts about the containers.
  A task is live and scheduled exactly when it is in the run queue; its handle sees the same
  state as the executor; a task that is no longer live is done and has nobody left to wake.
\<close>

definition exec_inv :: "('f, 'v, 'w) exec \<Rightarrow> bool" where
  "exec_inv e \<longleftrightarrow> finite (dom (ex_tasks e)) \<and> distinct (ex_run_queue e) \<and> (\<forall>i. inv_at e i)"

lemma exec_invD: "exec_inv e \<Longrightarrow> inv_at e i"
  by (simp add: exec_inv_def)

lemma exec_inv_pointwise:
  assumes "exec_inv e"
    and "finite (dom (ex_tasks e)) \<Longrightarrow> finite (dom (ex_tasks e'))"
    and "distinct (ex_run_queue e) \<Longrightarrow> distinct (ex_run_queue e')"
    and "\<And>j. inv_at e j \<Longrightarrow> inv_at e' j"
  shows "exec_inv e'"
  using assms by (auto simp: exec_inv_def)

lemma exec_inv_init: "exec_inv (exec_init w)"
  by (simp add: exec_inv_def exec_init_def inv_at_def)

lemma exec_inv_frame [simp]:
  "exec_inv (e\<lparr>ex_world := w\<rparr>) = exec_inv e" "exec_inv (e\<lparr>ex_woken := ws\<rparr>) = exec_inv e"
  "exec_inv (e\<lparr>ex_running := r\<rparr>) = exec_inv e" "exec_inv (e\<lparr>ex_has_sink := h\<rparr>) = exec_inv e"
  "exec_inv (e\<lparr>ex_sink := m\<rparr>) = exec_inv e" "exec_inv (e\<lparr>ex_stderr := m\<rparr>) = exec_inv e"
  by (simp_all add: exec_inv_def inv_at_def cong: option.case_cong if_cong)

lemma exec_inv_wake [keeps]: "exec_inv e \<Longrightarrow> exec_inv (wake w e)"
  by (simp add: wake_def)

lemma exec_inv_spawn [keeps]:
  assumes "exec_inv e"
  shows "exec_inv (fst (spawn_named f n e))"
  by (rule exec_inv_pointwise [OF assms])
    (use exec_invD [OF assms, of "ex_next_id e"] in
      \<open>auto simp: spawn_named_def inv_at_def Let_def split: option.splits if_splits\<close>)

lemma done_not_live:
  "exec_inv e \<Longrightarrow> ex_shared e i = Some sh \<Longrightarrow> done_state (sh_state sh) \<Longrightarrow> ex_tasks e i = None"
  by (drule exec_invD [of e i])
    (auto simp: inv_at_def done_state_def split: option.splits if_splits)

lemma exec_inv_handle_poll [keeps]:
  assumes "exec_inv e"
  shows "exec_inv (fst (handle_poll w i e))"
proof (cases "ex_shared e i")
  case None
  then show ?thesis using assms by (simp add: handle_poll_def)
next
  case (Some sh)
  show ?thesis
  proof (cases "done_state (sh_state sh)")
    case True
    with Some done_not_live [OF assms Some True] show ?thesis
      by (intro exec_inv_pointwise [OF assms])
        (auto simp: handle_poll_def handle_result_def inv_at_def split: option.splits)
  next
    case False
    with Some have "ex_tasks e i \<noteq> None"
      using exec_invD [OF assms, of i] by (auto simp: inv_at_def split: option.splits)
    with Some False show ?thesis
      by (intro exec_inv_pointwise [OF assms])
        (auto simp: handle_poll_def inv_at_def split: option.splits)
  qed
qed

lemma exec_inv_cancel [keeps]:
  assumes "exec_inv e"
  shows "exec_inv (cancel dr i e)"
  by (rule exec_inv_pointwise [OF assms])
    (auto simp: cancel_def cell_defs inv_at_def done_state_def Let_def
       split: option.splits if_splits prod.splits)

lemma exec_inv_act [keeps]: "exec_inv e \<Longrightarrow> exec_inv (act dr self a e)"
  by (cases a) (auto intro: keeps)

lemma exec_inv_fold:
  "(\<And>x e. exec_inv e \<Longrightarrow> exec_inv (g x e)) \<Longrightarrow> exec_inv e \<Longrightarrow> exec_inv (fold g xs e)"
  by (induction xs arbitrary: e) auto

lemma exec_inv_drain_one [keeps]:
  assumes "exec_inv e"
  shows "exec_inv (drain_one i e)"
  by (rule exec_inv_pointwise [OF assms])
    (use exec_invD [OF assms, of i] in
      \<open>auto simp: drain_one_def cell_defs inv_at_def split: option.splits if_splits\<close>)

lemma exec_inv_drain [keeps]: "exec_inv e \<Longrightarrow> exec_inv (drain_woken e)"
  by (simp add: drain_woken_def exec_inv_fold keeps)

lemma exec_inv_start_poll [keeps]:
  assumes "exec_inv e" "ex_run_queue e = i # q" "ex_tasks e i = Some t" "ex_polling e = None"
  shows "exec_inv (start_poll i t (e\<lparr>ex_run_queue := q\<rparr>))"
proof -
  have "i \<notin> set q" using assms(1,2) by (simp add: exec_inv_def)
  with exec_invD [OF assms(1), of i] assms(2-4) show ?thesis
    by (intro exec_inv_pointwise [OF assms(1)])
      (auto simp: start_poll_def cell_defs inv_at_def split: option.splits if_splits)
qed

lemma exec_inv_poll_ready [keeps]:
  assumes "exec_inv e" "ex_polling e = Some i"
  shows "exec_inv (poll_ready i v e)"
  by (rule exec_inv_pointwise [OF assms(1)])
    (use assms(2) in \<open>auto simp: poll_ready_def cell_defs inv_at_def done_state_def
       split: option.splits if_splits\<close>)

lemma exec_inv_abort_polled:
  assumes "exec_inv e" "ex_polling e = Some i"
  shows "exec_inv (on_abort i (TePanicked m)
    (set_state_cell i TsFailed (remove_task i (e\<lparr>ex_polling := None\<rparr>))))"
  by (rule exec_inv_pointwise [OF assms(1)])
    (use assms(2) in \<open>auto simp: cell_defs inv_at_def done_state_def
       split: option.splits if_splits\<close>)

lemma exec_inv_poll_panicked [keeps]:
  "exec_inv e \<Longrightarrow> ex_polling e = Some i \<Longrightarrow> exec_inv (poll_panicked i m e)"
  by (simp add: poll_panicked_def Let_def exec_inv_abort_polled)

lemma exec_inv_poll_pending [keeps]:
  assumes "exec_inv e" "ex_polling e = Some i"
  shows "exec_inv (poll_pending dr i f e)"
proof -
  obtain t where t: "ex_tasks e i = Some t"
    using exec_invD [OF assms(1), of i] assms(2) by (auto simp: inv_at_def split: option.splits)
  let ?e2 = "set_state_cell i TsPending
    (set_task i (t\<lparr>te_fut := Some f, te_state := TsPending\<rparr>) (e\<lparr>ex_polling := None\<rparr>))"
  have "exec_inv (?e2\<lparr>ex_cancel_pending := []\<rparr>)"
    by (rule exec_inv_pointwise [OF assms(1)])
      (use assms(2) t in \<open>auto simp: cell_defs inv_at_def split: option.splits if_splits\<close>)
  then show ?thesis
    using t by (auto simp: poll_pending_def Let_def intro!: exec_inv_fold exec_inv_cancel)
qed

text \<open>While a future is being polled its calls leave the polled id in place.\<close>

lemma polling_cancel [simp]: "ex_polling (cancel dr i e) = ex_polling e"
  by (simp add: cancel_def cell_defs Let_def split: option.splits prod.splits)

lemma polling_act [simp]: "ex_polling (act dr self a e) = ex_polling e"
  by (cases a) (auto simp: wake_def spawn_named_def handle_poll_def handle_result_def Let_def
    split: option.splits)

lemma polling_fold:
  "(\<And>x e. ex_polling (g x e) = ex_polling e) \<Longrightarrow> ex_polling (fold g xs e) = ex_polling e"
  by (induction xs arbitrary: e) auto

lemma polling_drain [simp]: "ex_polling (drain_woken e) = ex_polling e"
  by (simp add: drain_woken_def polling_fold drain_one_def cell_defs split: option.splits)

lemma polling_start_poll [simp]: "ex_polling (start_poll i t e) = Some i"
  by (simp add: start_poll_def)

lemma polling_poll_task:
  "ex_polling e = None \<Longrightarrow> ex_polling (poll_task pf dr i e) = None"
  by (auto simp: poll_task_def Let_def poll_ready_def poll_pending_def poll_panicked_def cell_defs
      polling_fold split: option.splits prod.splits outcome.splits)

lemma stale_front:
  assumes "exec_inv e" "ex_run_queue e = i # q" "ex_tasks e i = None"
  shows "exec_inv (e\<lparr>ex_run_queue := q\<rparr>)"
proof -
  have "i \<notin> set q" using assms(1,2) by (simp add: exec_inv_def)
  with assms(2,3) show ?thesis
    by (intro exec_inv_pointwise [OF assms(1)]) (auto simp: inv_at_def split: option.splits)
qed

text \<open>One turn of the loop keeps the invariant; the queued task really is scheduled.\<close>

lemma exec_inv_poll_task [keeps]:
  assumes inv: "exec_inv e" and q: "ex_run_queue e = i # q" and idle: "ex_polling e = None"
  shows "exec_inv (poll_task pf dr i (e\<lparr>ex_run_queue := q\<rparr>))"
proof (cases "ex_tasks e i")
  case None
  then show ?thesis using stale_front [OF inv q None] by (simp add: poll_task_def)
next
  case (Some t)
  obtain f where f: "te_fut t = Some f" and sched: "te_state t = TsScheduled"
    using exec_invD [OF inv, of i] Some q idle by (auto simp: inv_at_def)
  let ?e1 = "start_poll i t (e\<lparr>ex_run_queue := q\<rparr>)"
  have e1: "exec_inv ?e1" by (rule exec_inv_start_poll [OF inv q Some idle])
  obtain w acts out where p: "pf i f ?e1 = (w, acts, out)" by (cases "pf i f ?e1") auto
  let ?e2 = "fold (act dr i) acts (?e1\<lparr>ex_world := w\<rparr>)"
  have e2: "exec_inv ?e2" "ex_polling ?e2 = Some i"
    using e1 by (auto intro!: exec_inv_fold keeps simp: polling_fold)
  then show ?thesis
    using Some f sched p by (auto simp: poll_task_def Let_def intro: keeps split: outcome.splits)
qed

section \<open>Draining to exhaustion\<close>

lemma woken_drain_fold [simp]: "ex_woken (fold drain_one xs e) = ex_woken e"
  by (induction xs arbitrary: e) (auto simp: drain_one_def cell_defs split: option.splits)

lemma woken_drain [simp]: "ex_woken (drain_woken e) = []"
  by (simp add: drain_woken_def)

definition quiescent :: "('f, 'v, 'w) exec \<Rightarrow> bool" where
  "quiescent e \<longleftrightarrow> ex_woken e = [] \<and> ex_run_queue e = [] \<and>
     (\<forall>i t. ex_tasks e i = Some t \<longrightarrow> te_state t = TsPending)"

lemma idle_loop_quiescent:
  assumes ret: "idle_loop pf dr e = Some e'" and "exec_inv e" "ex_polling e = None"
  shows "exec_inv e' \<and> ex_polling e' = None \<and> quiescent e'"
proof -
  have "exec_inv e \<longrightarrow> ex_polling e = None \<longrightarrow> exec_inv e' \<and> ex_polling e' = None \<and> quiescent e'"
  proof (rule idle_loop.raw_induct [where P = "\<lambda>pf dr e e'. exec_inv e \<longrightarrow> ex_polling e = None
      \<longrightarrow> exec_inv e' \<and> ex_polling e' = None \<and> quiescent e'", OF _ ret])
    fix loop pf dr e e'
    assume IH: "\<And>pf dr e e'. loop pf dr e = Some e' \<Longrightarrow> exec_inv e \<longrightarrow> ex_polling e = None
        \<longrightarrow> exec_inv e' \<and> ex_polling e' = None \<and> quiescent e'"
      and eq: "(let e1 = drain_woken e in case ex_run_queue e1 of [] \<Rightarrow> Some e1
        | i # q \<Rightarrow> loop pf dr (poll_task pf dr i (e1\<lparr>ex_run_queue := q\<rparr>))) = Some e'"
    show "exec_inv e \<longrightarrow> ex_polling e = None \<longrightarrow>
        exec_inv e' \<and> ex_polling e' = None \<and> quiescent e'"
    proof (intro impI)
      assume inv: "exec_inv e" and idle: "ex_polling e = None"
      have inv1: "exec_inv (drain_woken e)" and idle1: "ex_polling (drain_woken e) = None"
        using inv idle by (simp_all add: keeps)
      show "exec_inv e' \<and> ex_polling e' = None \<and> quiescent e'"
      proof (cases "ex_run_queue (drain_woken e)")
        case Nil
        have "te_state t = TsPending" if "ex_tasks (drain_woken e) i = Some t" for i t
          using exec_invD [OF inv1, of i] that idle1 Nil by (auto simp: inv_at_def)
        with Nil eq inv1 idle1 show ?thesis by (auto simp: quiescent_def)
      next
        case (Cons i q)
        with eq have "loop pf dr (poll_task pf dr i ((drain_woken e)\<lparr>ex_run_queue := q\<rparr>)) = Some e'"
          by simp
        from IH [OF this] show ?thesis
          using exec_inv_poll_task [OF inv1 Cons idle1] idle1 by (simp add: polling_poll_task)
      qed
    qed
  qed
  with assms show ?thesis by blast
qed

section \<open>Termination of the drain\<close>

text \<open>
  A rank on futures bounds the work: a poll that stays pending has a smaller rank left, and
  what it spawns is paid for out of its own rank. The rank of the executor is the sum over the
  live tasks.
\<close>

fun spawned :: "'f action list \<Rightarrow> 'f list" where
  "spawned [] = []"
| "spawned (ASpawn f n # as) = f # spawned as"
| "spawned (a # as) = spawned as"

definition cost :: "('f \<Rightarrow> nat) \<Rightarrow> 'f list \<Rightarrow> nat" where
  "cost rk fs = sum_list (map (\<lambda>f. Suc (rk f)) fs)"

definition ranked :: "('f \<Rightarrow> nat) \<Rightarrow> ('f, 'v, 'w) behaviour \<Rightarrow> bool" where
  "ranked rk pf \<longleftrightarrow> (\<forall>i f e w acts out. pf i f e = (w, acts, out) \<longrightarrow>
     cost rk (spawned acts) + (case out of FPending f' \<Rightarrow> Suc (rk f') | _ \<Rightarrow> 0) \<le> rk f)"

definition entry_rank :: "('f \<Rightarrow> nat) \<Rightarrow> 'f task_entry option \<Rightarrow> nat" where
  "entry_rank rk x = (case x of None \<Rightarrow> 0
     | Some t \<Rightarrow> (case te_fut t of None \<Rightarrow> 0 | Some f \<Rightarrow> Suc (rk f)))"

definition exec_rank :: "('f \<Rightarrow> nat) \<Rightarrow> ('f, 'v, 'w) exec \<Rightarrow> nat" where
  "exec_rank rk e = (\<Sum>i \<in> dom (ex_tasks e). entry_rank rk (ex_tasks e i))"

lemma entry_rank_None [simp]: "entry_rank rk None = 0"
  by (simp add: entry_rank_def)

lemma rank_upd:
  assumes "finite (dom m)"
  shows "(\<Sum>i \<in> dom (m(k := x)). entry_rank rk ((m(k := x)) i)) + entry_rank rk (m k) =
    (\<Sum>i \<in> dom m. entry_rank rk (m i)) + entry_rank rk x"
proof -
  let ?g = "\<lambda>m i. entry_rank rk (m i)"
  have ext: "(\<Sum>i \<in> dom m'. ?g m' i) = (\<Sum>i \<in> insert k (dom m). ?g m' i)"
    if "dom m' \<subseteq> insert k (dom m)" for m'
    by (rule sum.mono_neutral_left) (use assms that in \<open>auto simp: domIff\<close>)
  have "(\<Sum>i \<in> insert k (dom m). ?g m' i) = ?g m' k + (\<Sum>i \<in> dom m - {k}. ?g m' i)" for m'
    using assms by (simp add: sum.insert_remove)
  moreover have "(\<Sum>i \<in> dom m - {k}. ?g (m(k := x)) i) = (\<Sum>i \<in> dom m - {k}. ?g m i)"
    by (rule sum.cong) auto
  ultimately show ?thesis
    using ext [of "m(k := x)"] ext [of m, OF subset_insertI] by auto
qed

lemma exec_rank_set:
  "finite (dom (ex_tasks e)) \<Longrightarrow> ex_tasks e' = (ex_tasks e)(k := x) \<Longrightarrow>
     exec_rank rk e' + entry_rank rk (ex_tasks e k) = exec_rank rk e + entry_rank rk x"
  using rank_upd [of "ex_tasks e" rk k x] by (simp add: exec_rank_def)

lemma tasks_cells [simp]:
  "ex_tasks (set_state_cell i s e) = ex_tasks e" "ex_tasks (complete i r e) = ex_tasks e"
  "ex_tasks (on_abort i err e) = ex_tasks e"
  "ex_tasks (set_task i t e) = (ex_tasks e)(i \<mapsto> t)"
  "ex_tasks (remove_task i e) = (ex_tasks e)(i := None)"
  by (simp_all add: cell_defs split: option.splits)

lemma tasks_cancel:
  "ex_tasks (cancel dr i e) =
     (if ex_polling e = Some i then ex_tasks e else (ex_tasks e)(i := None))"
  by (auto simp: cancel_def Let_def split: option.splits prod.splits)

lemma finite_cancel [simp]:
  "finite (dom (ex_tasks e)) \<Longrightarrow> finite (dom (ex_tasks (cancel dr i e)))"
  by (simp add: tasks_cancel)

lemma rank_cancel:
  "finite (dom (ex_tasks e)) \<Longrightarrow> exec_rank rk (cancel dr i e) \<le> exec_rank rk e"
  using exec_rank_set [of e "cancel dr i e" i None rk]
  by (cases "ex_polling e = Some i") (auto simp: tasks_cancel exec_rank_def)

lemma rank_cancels:
  "finite (dom (ex_tasks e)) \<Longrightarrow> exec_rank rk (fold (cancel dr) xs e) \<le> exec_rank rk e"
proof (induction xs arbitrary: e)
  case Nil
  then show ?case by simp
next
  case (Cons i xs)
  have "exec_rank rk (fold (cancel dr) xs (cancel dr i e)) \<le> exec_rank rk (cancel dr i e)"
    using Cons by simp
  also have "\<dots> \<le> exec_rank rk e" by (rule rank_cancel [OF Cons.prems])
  finally show ?case by simp
qed

lemma tasks_act:
  "ex_tasks (act dr self a e) = (case a of
       ASpawn f n \<Rightarrow> ex_tasks (fst (spawn_named f n e))
     | ACancel i \<Rightarrow> ex_tasks (cancel dr i e) | _ \<Rightarrow> ex_tasks e)"
  by (cases a) (auto simp: wake_def handle_poll_def handle_result_def split: option.splits)

lemma rank_act:
  assumes "exec_inv e"
  shows "exec_rank rk (act dr self a e) \<le> exec_rank rk e + cost rk (spawned [a])"
proof (cases a)
  case (ASpawn f n)
  have fresh: "ex_tasks e (ex_next_id e) = None"
    using exec_invD [OF assms, of "ex_next_id e"] by (auto simp: inv_at_def split: option.splits)
  have fin: "finite (dom (ex_tasks e))" using assms by (simp add: exec_inv_def)
  show ?thesis
    using ASpawn fresh exec_rank_set [OF fin, of "act dr self a e" "ex_next_id e" _ rk]
    by (fastforce simp: spawn_named_def Let_def entry_rank_def cost_def)
qed (use assms rank_cancel [of e rk dr] in
    \<open>auto simp: exec_rank_def tasks_act exec_inv_def cost_def simp del: act.simps\<close>)

lemma rank_acts:
  "exec_inv e \<Longrightarrow> exec_rank rk (fold (act dr self) as e) \<le> exec_rank rk e + cost rk (spawned as)"
proof (induction as arbitrary: e)
  case Nil
  then show ?case by simp
next
  case (Cons a as)
  have "cost rk (spawned (a # as)) = cost rk (spawned [a]) + cost rk (spawned as)"
    by (cases a) (auto simp: cost_def)
  then show ?case
    using Cons.IH [OF exec_inv_act [OF Cons.prems, of dr self a]]
      rank_act [OF Cons.prems, of rk dr self a] by simp
qed

lemma rank_drain_fold:
  assumes "finite (dom (ex_tasks e))"
  shows "exec_rank rk (fold drain_one xs e) = exec_rank rk e"
  using assms
proof (induction xs arbitrary: e)
  case Nil
  then show ?case by simp
next
  case (Cons i xs)
  have "finite (dom (ex_tasks (drain_one i e)))"
    using Cons.prems by (simp add: drain_one_def split: option.splits)
  moreover have "exec_rank rk (drain_one i e) = exec_rank rk e"
    using exec_rank_set [OF Cons.prems, of "drain_one i e" i "ex_tasks (drain_one i e) i" rk]
    by (cases "ex_tasks e i") (auto simp: drain_one_def entry_rank_def exec_rank_def)
  ultimately show ?case using Cons.IH by simp
qed

lemma rank_drain: "exec_inv e \<Longrightarrow> exec_rank rk (drain_woken e) = exec_rank rk e"
  by (simp add: drain_woken_def rank_drain_fold exec_inv_def) (simp add: exec_rank_def)

lemma rank_same_tasks: "ex_tasks e' = ex_tasks e \<Longrightarrow> exec_rank rk e' = exec_rank rk e"
  by (simp add: exec_rank_def)

lemma rank_clear:
  assumes "exec_inv e" "ex_polling e = Some i" "ex_tasks e' = (ex_tasks e)(i := None)"
  shows "exec_rank rk e' = exec_rank rk e"
proof -
  have "entry_rank rk (ex_tasks e i) = 0"
    using exec_invD [OF assms(1), of i] assms(2)
    by (auto simp: inv_at_def entry_rank_def split: option.splits)
  with assms(1) exec_rank_set [of e e' i None rk] assms(3) show ?thesis
    by (simp add: exec_inv_def)
qed

lemma rank_poll_pending:
  assumes "exec_inv e" "ex_polling e = Some i"
  shows "exec_rank rk (poll_pending dr i f e) \<le> exec_rank rk e + Suc (rk f)"
proof -
  obtain t where t: "ex_tasks e i = Some t" "te_fut t = None"
    using exec_invD [OF assms(1), of i] assms(2) by (auto simp: inv_at_def split: option.splits)
  let ?e2 = "(set_state_cell i TsPending
    (set_task i (t\<lparr>te_fut := Some f, te_state := TsPending\<rparr>) (e\<lparr>ex_polling := None\<rparr>)))
    \<lparr>ex_cancel_pending := []\<rparr>"
  have fin: "finite (dom (ex_tasks e))" using assms(1) by (simp add: exec_inv_def)
  have "exec_rank rk ?e2 = exec_rank rk e + Suc (rk f)"
    using exec_rank_set [OF fin, of ?e2 i "Some (t\<lparr>te_fut := Some f, te_state := TsPending\<rparr>)" rk] t
    by (simp add: entry_rank_def)
  moreover have "finite (dom (ex_tasks ?e2))" using fin by simp
  ultimately show ?thesis
    using t rank_cancels [of ?e2 rk dr] by (simp add: poll_pending_def Let_def)
qed

lemma rank_poll_task:
  assumes rk: "ranked rk pf" and inv: "exec_inv e" and q: "ex_run_queue e = i # q"
    and idle: "ex_polling e = None" and live: "ex_tasks e i = Some t"
  shows "exec_rank rk (poll_task pf dr i (e\<lparr>ex_run_queue := q\<rparr>)) < exec_rank rk e"
proof -
  obtain f where f: "te_fut t = Some f" and sched: "te_state t = TsScheduled"
    using exec_invD [OF inv, of i] live q idle by (auto simp: inv_at_def)
  let ?e1 = "start_poll i t (e\<lparr>ex_run_queue := q\<rparr>)"
  have e1: "exec_inv ?e1" by (rule exec_inv_start_poll [OF inv q live idle])
  have r1: "exec_rank rk ?e1 + Suc (rk f) = exec_rank rk e"
    using exec_rank_set [of e ?e1 i "Some (t\<lparr>te_fut := None, te_state := TsRunning\<rparr>)" rk] inv live f
    by (simp add: start_poll_def entry_rank_def exec_inv_def)
  obtain w acts out where p: "pf i f ?e1 = (w, acts, out)" by (cases "pf i f ?e1") auto
  let ?e2 = "fold (act dr i) acts (?e1\<lparr>ex_world := w\<rparr>)"
  have e2: "exec_inv ?e2" "ex_polling ?e2 = Some i"
    using e1 by (auto intro!: exec_inv_fold exec_inv_act simp: polling_fold)
  have r2: "exec_rank rk ?e2 \<le> exec_rank rk ?e1 + cost rk (spawned acts)"
    using rank_acts [of "?e1\<lparr>ex_world := w\<rparr>" rk dr i acts] e1 by (simp add: exec_rank_def)
  have paid: "cost rk (spawned acts) + (case out of FPending f' \<Rightarrow> Suc (rk f') | _ \<Rightarrow> 0) \<le> rk f"
    using rk p by (simp add: ranked_def)
  have poll: "poll_task pf dr i (e\<lparr>ex_run_queue := q\<rparr>) =
      (case out of FReady v \<Rightarrow> poll_ready i v ?e2 | FPending f' \<Rightarrow> poll_pending dr i f' ?e2
       | FPanic m \<Rightarrow> poll_panicked i m ?e2)"
    using live f sched p by (simp add: poll_task_def Let_def)
  show ?thesis
  proof (cases out)
    case (FPending f')
    with rank_poll_pending [OF e2, of rk dr f'] r1 r2 paid poll show ?thesis by simp
  next
    case (FReady v)
    have "exec_rank rk (poll_ready i v ?e2) = exec_rank rk ?e2"
      by (rule rank_clear [OF e2]) (simp add: poll_ready_def)
    with FReady r1 r2 paid poll show ?thesis by simp
  next
    case (FPanic m)
    have "exec_rank rk (poll_panicked i m ?e2) = exec_rank rk ?e2"
      by (rule rank_clear [OF e2]) (simp add: poll_panicked_def Let_def)
    with FPanic r1 r2 paid poll show ?thesis by simp
  qed
qed

lemma idle_loop_returns:
  assumes rk: "ranked rk pf" and "exec_inv e" "ex_polling e = None"
  shows "\<exists>e'. idle_loop pf dr e = Some e'"
  using assms(2,3)
proof (induction e rule: wf_induct_rule
    [OF wf_measures [of "[exec_rank rk, \<lambda>e. length (ex_run_queue (drain_woken e))]"]])
  case (1 e)
  let ?e1 = "drain_woken e"
  have inv1: "exec_inv ?e1" and idle1: "ex_polling ?e1 = None"
    using "1.prems" by (simp_all add: keeps)
  show ?case
  proof (cases "ex_run_queue ?e1")
    case Nil
    then show ?thesis by (subst idle_loop.simps) simp
  next
    case (Cons i q)
    let ?e2 = "poll_task pf dr i (?e1\<lparr>ex_run_queue := q\<rparr>)"
    have inv2: "exec_inv ?e2" and idle2: "ex_polling ?e2 = None"
      using exec_inv_poll_task [OF inv1 Cons idle1] idle1 by (simp_all add: polling_poll_task)
    have "(?e2, e) \<in> measures [exec_rank rk, \<lambda>e. length (ex_run_queue (drain_woken e))]"
    proof (cases "ex_tasks ?e1 i")
      case None
      then have e2: "?e2 = ?e1\<lparr>ex_run_queue := q\<rparr>" by (simp add: poll_task_def)
      then have "drain_woken ?e2 = ?e2" by (simp add: drain_woken_def)
      with e2 Cons rank_drain [OF "1.prems"(1), of rk] show ?thesis
        by (simp add: exec_rank_def)
    next
      case (Some t)
      with rank_poll_task [OF rk inv1 Cons idle1 Some, of dr] rank_drain [OF "1.prems"(1), of rk]
      show ?thesis by simp
    qed
    from "1.IH" [OF this inv2 idle2] Cons show ?thesis
      by (subst idle_loop.simps) (simp add: Let_def)
  qed
qed

section \<open>Terminal states are final\<close>

definition done_at :: "task_id \<Rightarrow> task_state \<Rightarrow> ('f, 'v, 'w) exec \<Rightarrow> bool" where
  "done_at i s e \<longleftrightarrow> done_state s \<and> ex_tasks e i = None \<and>
     (\<exists>sh. ex_shared e i = Some sh \<and> sh_state sh = s)"

lemma done_at_frame [simp]:
  "done_at i s (e\<lparr>ex_world := w\<rparr>) = done_at i s e" "done_at i s (e\<lparr>ex_woken := ws\<rparr>) = done_at i s e"
  "done_at i s (e\<lparr>ex_run_queue := q\<rparr>) = done_at i s e"
  "done_at i s (e\<lparr>ex_polling := pl\<rparr>) = done_at i s e"
  "done_at i s (e\<lparr>ex_cancel_pending := q\<rparr>) = done_at i s e"
  "done_at i s (e\<lparr>ex_sink := m\<rparr>) = done_at i s e" "done_at i s (e\<lparr>ex_stderr := m\<rparr>) = done_at i s e"
  "done_at i s (e\<lparr>ex_running := r\<rparr>) = done_at i s e"
  by (simp_all add: done_at_def)

lemma done_at_other:
  "i \<noteq> j \<Longrightarrow> done_at i s (set_state_cell j s' e) = done_at i s e"
  "i \<noteq> j \<Longrightarrow> done_at i s (complete j r e) = done_at i s e"
  "i \<noteq> j \<Longrightarrow> done_at i s (on_abort j err e) = done_at i s e"
  "i \<noteq> j \<Longrightarrow> done_at i s (set_task j t e) = done_at i s e"
  "i \<noteq> j \<Longrightarrow> done_at i s (remove_task j e) = done_at i s e"
  by (auto simp: done_at_def cell_defs split: option.splits)

lemma done_at_cancel: "done_at i s e \<Longrightarrow> done_at i s (cancel dr j e)"
  by (cases "i = j")
    (auto simp: cancel_def done_at_other Let_def split: option.splits prod.splits,
     auto simp: done_at_def)

lemma done_at_act:
  assumes "exec_inv e" "done_at i s e"
  shows "done_at i s (act dr self a e)"
proof (cases a)
  case (ACancel j)
  then show ?thesis using assms by (simp add: done_at_cancel)
qed (use assms exec_invD [OF assms(1), of "ex_next_id e"] in
    \<open>auto simp: wake_def spawn_named_def handle_poll_def handle_result_def
      done_at_def inv_at_def Let_def split: option.splits\<close>)

lemma done_at_acts:
  "exec_inv e \<Longrightarrow> done_at i s e \<Longrightarrow> done_at i s (fold (act dr self) as e)"
  by (induction as arbitrary: e) (auto simp: done_at_act exec_inv_act)

lemma done_at_cancels: "done_at i s e \<Longrightarrow> done_at i s (fold (cancel dr) xs e)"
  by (induction xs arbitrary: e) (auto simp: done_at_cancel)

lemma done_at_drain_one: "done_at i s e \<Longrightarrow> done_at i s (drain_one j e)"
  by (cases "i = j") (auto simp: drain_one_def done_at_other split: option.splits,
     auto simp: done_at_def)

lemma done_at_drain: "done_at i s e \<Longrightarrow> done_at i s (drain_woken e)"
proof -
  have "done_at i s e \<Longrightarrow> done_at i s (fold drain_one xs e)" for xs and e :: "('a, 'b, 'c) exec"
    by (induction xs arbitrary: e) (auto simp: done_at_drain_one)
  then show "done_at i s e \<Longrightarrow> done_at i s (drain_woken e)" by (simp add: drain_woken_def)
qed

lemma done_at_poll_task:
  assumes inv: "exec_inv e" and q: "ex_run_queue e = j # q" and idle: "ex_polling e = None"
    and d: "done_at i s e"
  shows "done_at i s (poll_task pf dr j (e\<lparr>ex_run_queue := q\<rparr>))"
proof (cases "ex_tasks e j")
  case None
  then show ?thesis using d by (simp add: poll_task_def)
next
  case (Some t)
  then have ij: "i \<noteq> j" using d by (auto simp: done_at_def)
  obtain f where f: "te_fut t = Some f" and sched: "te_state t = TsScheduled"
    using exec_invD [OF inv, of j] Some q idle by (auto simp: inv_at_def)
  let ?e1 = "start_poll j t (e\<lparr>ex_run_queue := q\<rparr>)"
  have e1: "exec_inv ?e1" by (rule exec_inv_start_poll [OF inv q Some idle])
  have d1: "done_at i s ?e1" using d ij by (simp add: start_poll_def done_at_other)
  obtain w acts out where p: "pf j f ?e1 = (w, acts, out)" by (cases "pf j f ?e1") auto
  let ?e2 = "fold (act dr j) acts (?e1\<lparr>ex_world := w\<rparr>)"
  have "done_at i s ?e2" using e1 d1 by (auto intro: done_at_acts)
  then show ?thesis
    using ij Some f sched p
    by (auto simp: poll_task_def Let_def poll_ready_def poll_pending_def poll_panicked_def
        done_at_other intro!: done_at_cancels split: outcome.splits option.splits)
qed

lemma done_at_idle_loop:
  assumes ret: "idle_loop pf dr e = Some e'" and "exec_inv e" "ex_polling e = None" "done_at i s e"
  shows "done_at i s e'"
proof -
  have "exec_inv e \<longrightarrow> ex_polling e = None \<longrightarrow> done_at i s e \<longrightarrow> done_at i s e'"
  proof (rule idle_loop.raw_induct [where P = "\<lambda>pf dr e e'. exec_inv e \<longrightarrow> ex_polling e = None
      \<longrightarrow> done_at i s e \<longrightarrow> done_at i s e'", OF _ ret])
    fix loop pf dr e e'
    assume IH: "\<And>pf dr e e'. loop pf dr e = Some e' \<Longrightarrow> exec_inv e \<longrightarrow> ex_polling e = None
        \<longrightarrow> done_at i s e \<longrightarrow> done_at i s e'"
      and eq: "(let e1 = drain_woken e in case ex_run_queue e1 of [] \<Rightarrow> Some e1
        | i # q \<Rightarrow> loop pf dr (poll_task pf dr i (e1\<lparr>ex_run_queue := q\<rparr>))) = Some e'"
    show "exec_inv e \<longrightarrow> ex_polling e = None \<longrightarrow> done_at i s e \<longrightarrow> done_at i s e'"
    proof (intro impI)
      assume inv: "exec_inv e" and idle: "ex_polling e = None" and d: "done_at i s e"
      have inv1: "exec_inv (drain_woken e)" and idle1: "ex_polling (drain_woken e) = None"
        and d1: "done_at i s (drain_woken e)"
        using inv idle d by (simp_all add: keeps done_at_drain)
      show "done_at i s e'"
      proof (cases "ex_run_queue (drain_woken e)")
        case Nil
        with eq d1 show ?thesis by simp
      next
        case (Cons j q)
        with eq have "loop pf dr (poll_task pf dr j ((drain_woken e)\<lparr>ex_run_queue := q\<rparr>)) = Some e'"
          by simp
        from IH [OF this] show ?thesis
          using exec_inv_poll_task [OF inv1 Cons idle1] idle1 done_at_poll_task [OF inv1 Cons idle1 d1]
          by (simp add: polling_poll_task)
      qed
    qed
  qed
  with assms show ?thesis by blast
qed

section \<open>What draining the woken queue does\<close>

definition parked :: "('f, 'v, 'w) exec \<Rightarrow> task_id \<Rightarrow> bool" where
  "parked e i \<longleftrightarrow> (\<exists>t. ex_tasks e i = Some t \<and> te_state t = TsPending)"

text \<open>First occurrences, in order.\<close>

fun firsts :: "'a list \<Rightarrow> 'a list" where
  "firsts [] = []"
| "firsts (x # xs) = x # filter (\<lambda>y. y \<noteq> x) (firsts xs)"

lemma firsts_filter: "firsts (filter P xs) = filter P (firsts xs)"
  by (induction xs) (auto intro: filter_cong)

lemma drain_fold_queue:
  "ex_run_queue (fold drain_one xs e) = ex_run_queue e @ firsts (filter (parked e) xs)"
proof (induction xs arbitrary: e)
  case Nil
  then show ?case by simp
next
  case (Cons i xs)
  show ?case
  proof (cases "parked e i")
    case True
    then obtain t where t: "ex_tasks e i = Some t" "te_state t = TsPending"
      by (auto simp: parked_def)
    have q: "ex_run_queue (drain_one i e) = ex_run_queue e @ [i]"
      using t by (simp add: drain_one_def)
    have p: "parked (drain_one i e) = (\<lambda>j. j \<noteq> i \<and> parked e j)"
      using t by (auto simp: parked_def drain_one_def fun_eq_iff)
    have "filter (\<lambda>j. j \<noteq> i \<and> parked e j) xs = filter (\<lambda>j. j \<noteq> i) (filter (parked e) xs)"
      by (simp add: conj_commute)
    with True q p Cons.IH [of "drain_one i e"] show ?thesis by (simp add: firsts_filter)
  next
    case False
    then have "drain_one i e = e"
      by (auto simp: drain_one_def parked_def split: option.splits)
    with False Cons.IH [of e] show ?thesis by simp
  qed
qed

section \<open>Cancelling a set of tasks\<close>

definition cancelled_cell :: "('f, 'v, 'w) exec \<Rightarrow> task_id \<Rightarrow> bool" where
  "cancelled_cell e i \<longleftrightarrow> (\<exists>sh. ex_shared e i = Some sh \<and> sh_state sh = TsCancelled \<and>
     sh_result sh = Some (Inl TeCancelled) \<and> sh_joiners sh = [])"

lemma tasks_cancels:
  "ex_polling e \<notin> Some ` set xs \<Longrightarrow> ex_tasks (fold (cancel dr) xs e) =
     (\<lambda>i. if i \<in> set xs then None else ex_tasks e i)"
  by (induction xs arbitrary: e) (auto simp: tasks_cancel fun_eq_iff)

lemma cancelled_cell_cancel:
  assumes "exec_inv e" "ex_polling e \<noteq> Some i" "ex_tasks e i \<noteq> None"
  shows "cancelled_cell (cancel dr i e) i"
  using exec_invD [OF assms(1), of i] assms(2,3)
  by (auto simp: cancel_def cell_defs cancelled_cell_def inv_at_def Let_def
      split: option.splits prod.splits)

lemma shared_cancel_dead: "ex_tasks e i = None \<Longrightarrow> ex_shared (cancel dr j e) i = ex_shared e i"
  by (auto simp: cancel_def cell_defs Let_def split: option.splits prod.splits)

lemma cancelled_cell_keep:
  "ex_tasks e i = None \<Longrightarrow> cancelled_cell e i \<Longrightarrow> ex_polling e \<notin> Some ` set xs \<Longrightarrow>
     cancelled_cell (fold (cancel dr) xs e) i"
  by (induction xs arbitrary: e) (auto simp: shared_cancel_dead tasks_cancel cancelled_cell_def)

lemma cancelled_cell_cancels:
  "exec_inv e \<Longrightarrow> ex_polling e \<notin> Some ` set xs \<Longrightarrow> i \<in> set xs \<Longrightarrow> ex_tasks e i \<noteq> None \<Longrightarrow>
     cancelled_cell (fold (cancel dr) xs e) i"
proof (induction xs arbitrary: e)
  case Nil
  then show ?case by simp
next
  case (Cons j xs)
  show ?case
  proof (cases "i = j")
    case True
    with Cons.prems cancelled_cell_cancel [of e j dr] show ?thesis
      by (auto intro!: cancelled_cell_keep simp: tasks_cancel)
  next
    case False
    with Cons.prems Cons.IH [of "cancel dr j e"] show ?thesis
      by (auto simp: exec_inv_cancel tasks_cancel)
  qed
qed

section \<open>Properties\<close>

text \<open>A small program used by the witnesses: a task that wakes itself \<open>n\<close> times, then returns.\<close>

fun countdown :: "(nat, nat, unit) behaviour" where
  "countdown i 0 e = ((), [], FReady 7)"
| "countdown i (Suc n) e = ((), [AWake i], FPending n)"

definition no_drop :: "('f, unit) destructor" where
  "no_drop f w = (w, [])"

definition demo_two :: "(nat, nat, unit) exec" where
  "demo_two = fst (spawn_named 1 None (fst (spawn_named 3 None (exec_init ()))))"

lemma ranked_countdown: "ranked id countdown"
proof -
  have "cost id (spawned acts) + (case out of FPending f' \<Rightarrow> Suc (id f') | _ \<Rightarrow> 0) \<le> id f"
    if "countdown i f e = (w, acts, out)" for i f e w acts out
    using that by (cases f) (auto simp: cost_def)
  then show ?thesis by (auto simp: ranked_def)
qed

lemma run_until_idle_returns:
  assumes "ranked rk pf" "exec_inv e" "ex_polling e = None" "\<not> ex_running e"
  obtains e' where "run_until_idle pf dr e = Some e'" "exec_inv e'" "quiescent e'" "\<not> ex_running e'"
proof -
  have e: "exec_inv (e\<lparr>ex_running := True\<rparr>)" "ex_polling (e\<lparr>ex_running := True\<rparr>) = None"
    using assms(2,3) by simp_all
  obtain e1 where ret: "idle_loop pf dr (e\<lparr>ex_running := True\<rparr>) = Some e1"
    using idle_loop_returns [OF assms(1) e] by blast
  show ?thesis
    by (rule that [of "e1\<lparr>ex_running := False\<rparr>"])
      (use idle_loop_quiescent [OF ret e] ret assms(4) in
        \<open>auto simp: run_until_idle_def quiescent_def\<close>)
qed



text \<open>Draining the woken queue appends to the run queue exactly the woken tasks that are
  pending, each once, in the order they were first woken; repeated and stale wakes are
  absorbed, and the woken queue is empty afterwards.\<close>

theorem drain_woken_schedules:
  "ex_run_queue (drain_woken e) = ex_run_queue e @ firsts (filter (parked e) (ex_woken e)) \<and>
   ex_woken (drain_woken e) = []"
  by (simp add: drain_woken_def drain_fold_queue parked_def [abs_def])

text \<open>A task that has finished, failed or been cancelled keeps that state through any
  further draining of the executor.\<close>

theorem terminal_state_final:
  assumes "run_until_idle pf dr e = Some e'" "exec_inv e" "ex_polling e = None"
    and "ex_shared e i = Some sh" "done_state (sh_state sh)"
  shows "\<exists>sh'. ex_shared e' i = Some sh' \<and> sh_state sh' = sh_state sh"
proof (cases "ex_running e")
  case True
  with assms show ?thesis by (simp add: run_until_idle_def)
next
  case False
  with assms(1) obtain e1 where l: "idle_loop pf dr (e\<lparr>ex_running := True\<rparr>) = Some e1"
    and e': "e' = e1\<lparr>ex_running := False\<rparr>"
    by (auto simp: run_until_idle_def)
  have "done_at i (sh_state sh) (e\<lparr>ex_running := True\<rparr>)"
    using assms(4,5) done_not_live [OF assms(2,4,5)] by (simp add: done_at_def)
  then have "done_at i (sh_state sh) e1"
    using done_at_idle_loop [OF l] assms(2,3) by simp
  with e' show ?thesis by (simp add: done_at_def)
qed

lemma cancel_after_ends:
  assumes "exec_inv e" "\<And>i. ex_polling e = Some i \<Longrightarrow> i < wm" "set keys = dom (ex_tasks e)"
  shows "exec_inv (cancel_after dr keys wm e)"
    and "ex_tasks (cancel_after dr keys wm e) i = (if i < wm then ex_tasks e i else None)"
    and "i \<in> dom (ex_tasks e) \<Longrightarrow> wm \<le> i \<Longrightarrow> cancelled_cell (cancel_after dr keys wm e) i"
proof -
  have p: "ex_polling e \<notin> Some ` set (filter (\<lambda>i. i \<ge> wm) keys)" using assms(2) by fastforce
  show "exec_inv (cancel_after dr keys wm e)"
    using assms(1) by (auto simp: cancel_after_def intro!: exec_inv_fold exec_inv_cancel)
  show "ex_tasks (cancel_after dr keys wm e) i = (if i < wm then ex_tasks e i else None)"
    using assms(3) by (auto simp: cancel_after_def tasks_cancels [OF p] domIff)
  assume "i \<in> dom (ex_tasks e)" "wm \<le> i"
  then show "cancelled_cell (cancel_after dr keys wm e) i"
    unfolding cancel_after_def by (intro cancelled_cell_cancels [OF assms(1) p]) (use assms(3) in auto)
qed

text \<open>cancel_after leaves no live task at or above the watermark, whatever order the hash
  map is walked in; every task it cancelled reports the Cancelled state and the Cancelled
  error to its handle; tasks below the watermark keep their entries. The task that calls it may
  be in the middle of its own poll, if it is below the watermark.\<close>

theorem cancel_after_kills:
  assumes "exec_inv e" "\<And>i. ex_polling e = Some i \<Longrightarrow> i < wm" "set keys = dom (ex_tasks e)"
  shows "exec_inv (cancel_after dr keys wm e) \<and>
    (\<forall>i. ex_tasks (cancel_after dr keys wm e) i = (if i < wm then ex_tasks e i else None)) \<and>
    (\<forall>i. i \<in> dom (ex_tasks e) \<longrightarrow> wm \<le> i \<longrightarrow> cancelled_cell (cancel_after dr keys wm e) i)"
  using cancel_after_ends [OF assms] by blast

theorem cancel_after_kills_witness:
  "ex_tasks (cancel_after no_drop [2, 1] 2 demo_two) 2 = None \<and>
   ex_tasks (cancel_after no_drop [2, 1] 2 demo_two) 1 = ex_tasks demo_two 1 \<and>
   cancelled_cell (cancel_after no_drop [2, 1] 2 demo_two) 2"
proof -
  have a: "exec_inv demo_two" unfolding demo_two_def by (intro exec_inv_spawn exec_inv_init)
  have b: "ex_polling demo_two = None" by (simp add: demo_two_def spawn_named_def exec_init_def)
  have c: "set [2, 1] = dom (ex_tasks demo_two)"
    by (auto simp: demo_two_def spawn_named_def exec_init_def numeral_2_eq_2 split: if_splits)
  have "2 \<in> dom (ex_tasks demo_two)" using c by auto
  with cancel_after_kills [OF a _ c, of 2 no_drop] b show ?thesis by simp
qed

theorem terminal_state_final_witness:
  "\<exists>e' sh'. run_until_idle countdown no_drop
       (cancel no_drop 1 (fst (spawn_named 3 None (exec_init ())))) = Some e' \<and>
     ex_shared e' 1 = Some sh' \<and> sh_state sh' = TsCancelled"
proof -
  let ?e0 = "fst (spawn_named (3::nat) None (exec_init ()))"
  let ?e = "cancel no_drop 1 ?e0"
  have inv: "exec_inv ?e" by (intro exec_inv_cancel exec_inv_spawn exec_inv_init)
  have idle: "ex_polling ?e = None" by (simp add: spawn_named_def exec_init_def)
  have "\<not> ex_running ?e"
    by (simp add: cancel_def cell_defs spawn_named_def exec_init_def no_drop_def)
  then obtain e' where ret: "run_until_idle countdown no_drop ?e = Some e'"
    using run_until_idle_returns [OF ranked_countdown inv idle] by blast
  have "ex_shared ?e 1 = Some \<lparr>sh_state = TsCancelled, sh_result = Some (Inl TeCancelled),
      sh_joiners = []\<rparr>"
    by (simp add: cancel_def cell_defs spawn_named_def exec_init_def no_drop_def)
  from terminal_state_final [OF ret inv idle this] ret show ?thesis
    by (auto simp: done_state_def)
qed

end
