(* ===== verification/Btree_Map.thy ===== *)
theory Btree_Map
  imports Rustdv_Prelude "HOL-Library.Char_ord" "HOL-Library.List_Lexorder"
begin

text \<open>
  The part of \<open>std::collections::BTreeMap\<close> the configuration database and the factory use: an
  ordered map as its list of key-value pairs in ascending key order, which is what its
  iterators yield. Rust compares strings bytewise, which is the lexicographic order of
  \<open>List_Lexorder\<close> over the character order of \<open>Char_ord\<close>. A locale states the ordered-map
  contract the clients rely on; the list operations interpret it.
\<close>

type_synonym ('k, 'v) btree = "('k \<times> 'v) list"

definition bt_get :: "('k, 'v) btree \<Rightarrow> 'k \<Rightarrow> 'v option" where
  "bt_get m k = map_of m k"

fun bt_insert :: "'k::linorder \<Rightarrow> 'v \<Rightarrow> ('k, 'v) btree \<Rightarrow> ('k, 'v) btree" where
  "bt_insert k v [] = [(k, v)]"
| "bt_insert k v ((j, w) # m) =
     (if k < j then (k, v) # (j, w) # m
      else if k = j then (k, v) # m
      else (j, w) # bt_insert k v m)"

definition bt_last :: "('k, 'v) btree \<Rightarrow> ('k \<times> 'v) option" where
  "bt_last m = (if m = [] then None else Some (last m))"

text \<open>\<open>m.entry(k).or_default()\<close> followed by an update in place.\<close>

definition bt_update :: "'k::linorder \<Rightarrow> 'v \<Rightarrow> ('v \<Rightarrow> 'v) \<Rightarrow> ('k, 'v) btree \<Rightarrow> ('k, 'v) btree" where
  "bt_update k dflt f m = bt_insert k (f (case bt_get m k of None \<Rightarrow> dflt | Some v \<Rightarrow> v)) m"

definition bt_sorted :: "('k::linorder, 'v) btree \<Rightarrow> bool" where
  "bt_sorted m = sorted_wrt (<) (map fst m)"

section \<open>The ordered-map contract\<close>

locale ordered_map =
  fixes wf :: "'m \<Rightarrow> bool"
    and get :: "'m \<Rightarrow> 'k::linorder \<Rightarrow> 'v option"
    and ins :: "'k \<Rightarrow> 'v \<Rightarrow> 'm \<Rightarrow> 'm"
    and lastkv :: "'m \<Rightarrow> ('k \<times> 'v) option"
  assumes get_ins: "wf m \<Longrightarrow> get (ins k v m) j = (if j = k then Some v else get m j)"
    and wf_ins: "wf m \<Longrightarrow> wf (ins k v m)"
    and lastkv_None: "wf m \<Longrightarrow> lastkv m = None \<longleftrightarrow> (\<forall>k. get m k = None)"
    and lastkv_Some: "wf m \<Longrightarrow> lastkv m = Some (k, v) \<Longrightarrow>
      get m k = Some v \<and> (\<forall>j. get m j \<noteq> None \<longrightarrow> j \<le> k)"
begin

lemma lastkv_ins_top:
  assumes "wf m" "\<And>j. get m j \<noteq> None \<Longrightarrow> j \<le> k"
  shows "lastkv (ins k v m) = Some (k, v)"
proof -
  note w = wf_ins [OF assms(1), of k v]
  have k: "get (ins k v m) k = Some v" by (simp add: get_ins [OF assms(1)])
  obtain j u where j: "lastkv (ins k v m) = Some (j, u)"
    using lastkv_None [OF w] k by (metis not_Some_eq option.distinct(1) surj_pair)
  note top = lastkv_Some [OF w j]
  have "j = k" using top k assms(2) get_ins [OF assms(1), of k v j]
    by (metis antisym option.distinct(1))
  with top k j show ?thesis by simp
qed

lemma lastkv_ins_below:
  assumes "wf m" "lastkv m = Some (j, u)" "k < j"
  shows "lastkv (ins k v m) = Some (j, u)"
proof -
  note w = wf_ins [OF assms(1), of k v] and top = lastkv_Some [OF assms(1,2)]
  have j: "get (ins k v m) j = Some u" using top assms(3) get_ins [OF assms(1)] by auto
  obtain i x where i: "lastkv (ins k v m) = Some (i, x)"
    using lastkv_None [OF w] j by (metis not_Some_eq option.distinct(1) surj_pair)
  note top' = lastkv_Some [OF w i]
  have "j \<le> i" using top' j by simp
  moreover have "i \<le> j"
    using top' top assms(3) get_ins [OF assms(1), of k v i]
    by (cases "i = k") auto
  ultimately have "i = j" by simp
  with top' j i show ?thesis by simp
qed

end

section \<open>The sorted list meets it\<close>

lemma bt_sorted_Cons:
  "bt_sorted ((k, v) # m) \<longleftrightarrow> (\<forall>j w. (j, w) \<in> set m \<longrightarrow> k < j) \<and> bt_sorted m"
  by (auto simp: bt_sorted_def)

lemma bt_sorted_Nil [simp]: "bt_sorted []"
  by (simp add: bt_sorted_def)

lemma bt_insert_keys: "fst ` set (bt_insert k v m) = insert k (fst ` set m)"
  by (induction k v m rule: bt_insert.induct) auto

lemma bt_insert_sorted [keeps]: "bt_sorted m \<Longrightarrow> bt_sorted (bt_insert k v m)"
proof (induction m)
  case Nil
  then show ?case by (simp add: bt_sorted_def)
next
  case (Cons kv m)
  obtain j w where kv: "kv = (j, w)" by (cases kv)
  from Cons have m: "bt_sorted (bt_insert k v m)" "\<forall>i \<in> fst ` set m. j < i"
    by (auto simp: kv bt_sorted_def)
  show ?case
    using Cons.prems m bt_insert_keys [of k v m]
    by (auto simp: kv bt_sorted_def not_less_iff_gr_or_eq dest: less_trans)
qed

lemma bt_get_insert: "bt_sorted m \<Longrightarrow> bt_get (bt_insert k v m) j = (if j = k then Some v else bt_get m j)"
proof (induction m)
  case Nil
  then show ?case by (simp add: bt_get_def)
next
  case (Cons kv m)
  then show ?case by (cases kv) (auto simp: bt_get_def bt_sorted_def)
qed

lemma bt_get_elem: "bt_sorted m \<Longrightarrow> bt_get m k = Some v \<longleftrightarrow> (k, v) \<in> set m"
  by (auto simp: bt_get_def bt_sorted_def intro!: map_of_is_SomeI dest: map_of_SomeD strict_sorted_imp_sorted
      simp: strict_sorted_iff)

lemma bt_get_None: "bt_get m k = None \<longleftrightarrow> k \<notin> fst ` set m"
  by (simp add: bt_get_def map_of_eq_None_iff)

lemma bt_get_Nil [simp]: "bt_get [] k = None"
  by (simp add: bt_get_def)

lemma bt_last_Nil [simp]: "bt_last [] = None"
  by (simp add: bt_last_def)

lemma bt_last_None [simp]: "bt_last m = None \<longleftrightarrow> m = []"
  by (simp add: bt_last_def)

lemma bt_last_elem: "bt_last m = Some kv \<Longrightarrow> kv \<in> set m"
  by (auto simp: bt_last_def split: if_splits)

lemma bt_last_max:
  assumes "bt_sorted m" "bt_last m = Some (k, v)" "j \<in> fst ` set m"
  shows "j \<le> k"
proof -
  have m: "m = butlast m @ [(k, v)]"
    using assms(2) by (metis append_butlast_last_id bt_last_def option.distinct(1) option.inject)
  have f: "map fst m = map fst (butlast m) @ [k]" by (subst m) simp
  have "sorted_wrt (<) (map fst (butlast m) @ [k])"
    using assms(1) unfolding bt_sorted_def f .
  moreover have "j \<in> set (map fst m)" using assms(3) by simp
  then have "j = k \<or> j \<in> set (map fst (butlast m))" unfolding f by auto
  ultimately show ?thesis by (auto simp: sorted_wrt_append)
qed

interpretation bt: ordered_map bt_sorted bt_get bt_insert bt_last
proof (unfold_locales, goal_cases)
  case (1 m k v j)
  then show ?case by (rule bt_get_insert)
next
  case (2 m k v)
  then show ?case by (rule bt_insert_sorted)
next
  case (3 m)
  then show ?case by (cases m) (auto simp: bt_get_None)
next
  case (4 m k v)
  then show ?case
    using bt_last_elem [OF 4(2)] bt_last_max [OF 4] by (auto simp: bt_get_elem bt_get_None)
qed

text \<open>What an insertion does to the pairs an iterator yields.\<close>

lemma bt_insert_set:
  assumes "bt_sorted m"
  shows "(j, w) \<in> set (bt_insert k v m) \<longleftrightarrow> (j = k \<and> w = v) \<or> (j \<noteq> k \<and> (j, w) \<in> set m)"
  using bt_get_insert [OF assms, of k v j] bt_get_elem [OF assms, of j w]
    bt_get_elem [OF bt_insert_sorted [OF assms, of k v], of j w] by (auto split: if_splits)

lemma bt_insert_not_Nil [simp]: "bt_insert k v m \<noteq> []"
  using bt_insert_keys [of k v m] by auto

section \<open>Invariants on the entries\<close>

definition bt_all :: "('k \<Rightarrow> 'v \<Rightarrow> bool) \<Rightarrow> ('k::linorder, 'v) btree \<Rightarrow> bool" where
  "bt_all P m \<longleftrightarrow> bt_sorted m \<and> (\<forall>k v. bt_get m k = Some v \<longrightarrow> P k v)"

lemma bt_all_Nil [simp]: "bt_all P []"
  by (simp add: bt_all_def bt_get_def)

lemma bt_all_insert [keeps]: "bt_all P m \<Longrightarrow> P k v \<Longrightarrow> bt_all P (bt_insert k v m)"
  by (auto simp: bt_all_def bt.get_ins bt.wf_ins split: if_splits)

lemma bt_all_update:
  assumes "bt_all P m" "P k (f d)" "\<And>v. P k v \<Longrightarrow> P k (f v)"
  shows "bt_all P (bt_update k d f m)"
  unfolding bt_update_def
  by (rule bt_all_insert [OF assms(1)]) (use assms in \<open>auto simp: bt_all_def split: option.splits\<close>)

lemma bt_allD: "bt_all P m \<Longrightarrow> bt_get m k = Some v \<Longrightarrow> P k v"
  by (simp add: bt_all_def)

lemma bt_all_sorted: "bt_all P m \<Longrightarrow> bt_sorted m"
  by (simp add: bt_all_def)

lemma bt_get_update:
  assumes "bt_sorted m"
  shows "bt_get (bt_update k d f m) j =
    (if j = k then Some (f (case bt_get m k of None \<Rightarrow> d | Some v \<Rightarrow> v)) else bt_get m j)"
  by (simp add: bt_update_def bt.get_ins [OF assms])

text \<open>A scan that does not see the difference an insertion makes is unchanged by it.\<close>

lemma map_filter_bt_insert:
  assumes "bt_sorted m" "f (k, v) = (case bt_get m k of None \<Rightarrow> None | Some w \<Rightarrow> f (k, w))"
  shows "List.map_filter f (bt_insert k v m) = List.map_filter f m"
  using assms
proof (induction m)
  case Nil
  then show ?case by (simp add: bt_get_def List.map_filter_simps)
next
  case (Cons jw m)
  obtain j w where jw: "jw = (j, w)" by (cases jw)
  have "bt_sorted m" using Cons.prems(1) by (simp add: bt_sorted_def)
  moreover have "k < j \<Longrightarrow> bt_get ((j, w) # m) k = None"
    using Cons.prems(1) by (force simp: jw bt_get_None bt_sorted_def)
  moreover have "k \<noteq> j \<Longrightarrow> bt_get ((j, w) # m) k = bt_get m k" by (simp add: bt_get_def)
  moreover have "bt_get ((j, w) # m) j = Some w" by (simp add: bt_get_def)
  ultimately show ?case using Cons.IH Cons.prems(2) by (auto simp: jw List.map_filter_simps split: option.splits)
qed

end
