(* ===== verification/Path_Model.thy ===== *)
theory Path_Model
  imports Rustdv_Prelude
begin

text \<open>
  \<open>RustdvPath\<close> of \<open>rustdv-sim/src/path.rs\<close>: a component's position as segments with a
  cached dotted rendering, the segment-wise prefix test, and the same test on the string form
  that the log module uses. Strings are byte strings; the separator is an ASCII byte.
\<close>

section \<open>Definitions\<close>

abbreviation dot :: char where "dot \<equiv> CHR 0x2E"

record rustdv_path =
  rp_segments :: "string list"
  rp_rendered :: string

definition path_root :: "string \<Rightarrow> rustdv_path" where
  "path_root name = \<lparr>rp_segments = [name], rp_rendered = name\<rparr>"

definition path_empty :: rustdv_path where
  "path_empty = \<lparr>rp_segments = [], rp_rendered = []\<rparr>"

definition path_child :: "rustdv_path \<Rightarrow> string \<Rightarrow> rustdv_path" where
  "path_child p name =
     \<lparr>rp_segments = rp_segments p @ [name],
      rp_rendered = (if rp_rendered p = [] then name else rp_rendered p @ dot # name)\<rparr>"

definition path_depth :: "rustdv_path \<Rightarrow> nat" where
  "path_depth p = length (rp_segments p)"

definition path_is_empty :: "rustdv_path \<Rightarrow> bool" where
  "path_is_empty p = (rp_segments p = [])"

definition path_is_under :: "rustdv_path \<Rightarrow> rustdv_path \<Rightarrow> bool" where
  "path_is_under p prefix =
     (length (rp_segments prefix) \<le> length (rp_segments p) \<and>
      take (length (rp_segments prefix)) (rp_segments p) = rp_segments prefix)"

text \<open>The loop of \<open>str_is_under\<close>: every wanted segment must be the next segment at hand.\<close>

fun under_loop :: "string list \<Rightarrow> string list \<Rightarrow> bool" where
  "under_loop have [] = True"
| "under_loop [] (want # wants) = False"
| "under_loop (seg # have) (want # wants) = (if seg = want then under_loop have wants else False)"

definition str_is_under :: "string \<Rightarrow> string \<Rightarrow> bool" where
  "str_is_under path prefix =
     (if prefix = [] then True else under_loop (split_on dot path) (split_on dot prefix))"

text \<open>\<open>Logger::new\<close> of \<open>log.rs\<close> parses a dotted path by descending one segment at a time.\<close>

definition logger_new :: "string \<Rightarrow> rustdv_path" where
  "logger_new s = (if s = [] then path_empty else fold (\<lambda>seg p. path_child p seg) (split_on dot s) path_empty)"

text \<open>The paths the phase walk can produce: a root name extended by field names.\<close>

definition ident :: "string \<Rightarrow> bool" where
  "ident s \<longleftrightarrow> s \<noteq> [] \<and> dot \<notin> set s"

inductive walked :: "rustdv_path \<Rightarrow> bool" where
  w_root: "ident name \<Longrightarrow> walked (path_root name)"
| w_child: "walked p \<Longrightarrow> ident name \<Longrightarrow> walked (path_child p name)"

section \<open>Lemmas\<close>

lemma under_loop_iff: "under_loop have wants \<longleftrightarrow> (\<exists>rest. have = wants @ rest)"
  by (induction "have" wants rule: under_loop.induct) auto

lemma take_prefix_iff:
  "(length q \<le> length p \<and> take (length q) p = q) \<longleftrightarrow> (\<exists>rest. p = q @ rest)"
  by (metis append_eq_conv_conj append_take_drop_id le_add1 length_append)

lemma walked_wf: "walked p \<Longrightarrow> rp_segments p \<noteq> [] \<and>
    rp_rendered p = join_with dot (rp_segments p) \<and> rp_rendered p \<noteq> [] \<and>
    (\<forall>seg \<in> set (rp_segments p). ident seg)"
proof (induction rule: walked.induct)
  case (w_root name)
  then show ?case by (auto simp: path_root_def ident_def)
next
  case (w_child p name)
  then show ?case by (auto simp: path_child_def join_with_append ident_def)
qed

lemma walked_split: "walked p \<Longrightarrow> split_on dot (rp_rendered p) = rp_segments p"
  using walked_wf [of p] by (auto intro: split_join_with simp: ident_def)

lemma walked_hd: "walked p \<Longrightarrow> hd (rp_rendered p) \<noteq> dot"
proof (induction rule: walked.induct)
  case (w_root name)
  then show ?case by (cases name) (auto simp: path_root_def ident_def)
next
  case (w_child p name)
  then have "rp_rendered p \<noteq> []" using walked_wf [of p] by blast
  with w_child show ?case by (simp add: path_child_def)
qed

lemma walked_under:
  assumes "walked p" "walked q"
  shows "str_is_under (rp_rendered p) (rp_rendered q) \<longleftrightarrow> path_is_under p q"
proof -
  have "rp_rendered q \<noteq> []" using walked_wf [OF assms(2)] by blast
  then show ?thesis
    by (simp add: path_is_under_def str_is_under_def under_loop_iff take_prefix_iff
        walked_split assms)
qed

lemma fold_child_segments:
  "rp_segments (fold (\<lambda>seg p. path_child p seg) segs p) = rp_segments p @ segs"
  by (induction segs arbitrary: p) (auto simp: path_child_def)

lemma fold_child_rendered:
  "rp_rendered p \<noteq> [] \<Longrightarrow> segs \<noteq> [] \<Longrightarrow>
     rp_rendered (fold (\<lambda>seg p. path_child p seg) segs p) = rp_rendered p @ dot # join_with dot segs"
proof (induction segs arbitrary: p)
  case Nil
  then show ?case by simp
next
  case (Cons s segs)
  have c: "rp_rendered (path_child p s) = rp_rendered p @ dot # s"
    using Cons.prems by (simp add: path_child_def)
  have IH: "segs \<noteq> [] \<Longrightarrow> rp_rendered (fold (\<lambda>seg p. path_child p seg) segs (path_child p s)) =
      rp_rendered (path_child p s) @ dot # join_with dot segs"
    using Cons.IH [of "path_child p s"] c by simp
  show ?case
  proof (cases segs)
    case Nil
    then show ?thesis using c by simp
  next
    case (Cons t ts)
    then show ?thesis using IH c by simp
  qed
qed

lemma logger_new_rendered:
  assumes "s = [] \<or> hd s \<noteq> dot"
  shows "rp_rendered (logger_new s) = s"
proof (cases s)
  case Nil
  then show ?thesis by (simp add: logger_new_def path_empty_def)
next
  case (Cons c cs)
  obtain p ps where sp: "split_on dot s = p # ps"
    using split_on_not_Nil [of dot s] by (meson list.exhaust)
  have "p \<noteq> []" using sp assms Cons by (auto split: list.splits if_splits)
  then have "rp_rendered (logger_new s) = join_with dot (p # ps)"
    using Cons sp fold_child_rendered [of "path_child path_empty p" ps]
    by (cases ps) (auto simp: logger_new_def path_child_def path_empty_def)
  then show ?thesis using join_split_on [of dot s] sp by simp
qed

lemma str_is_under_text:
  assumes "prefix \<noteq> []"
  shows "str_is_under path prefix \<longleftrightarrow> path = prefix \<or> (\<exists>rest. path = prefix @ dot # rest)"
proof
  assume "str_is_under path prefix"
  then obtain rest where r: "split_on dot path = split_on dot prefix @ rest"
    using assms by (auto simp: str_is_under_def under_loop_iff)
  then have "path = join_with dot (split_on dot prefix @ rest)"
    using join_split_on [of dot path] by simp
  then show "path = prefix \<or> (\<exists>rest. path = prefix @ dot # rest)"
    by (cases "rest = []") (auto simp: join_with_append)
next
  have "split_on dot (prefix @ dot # rest) = split_on dot prefix @ split_on dot rest" for rest
    using split_join_with [of "split_on dot prefix @ split_on dot rest" dot]
    by (auto simp: join_with_append dest: split_on_pieces)
  moreover assume "path = prefix \<or> (\<exists>rest. path = prefix @ dot # rest)"
  ultimately show "str_is_under path prefix"
    using assms by (auto simp: str_is_under_def under_loop_iff)
qed

section \<open>Properties\<close>

text \<open>For a non-empty prefix the segment loop of str_is_under gives the answer of the string
  test it replaced: the path is the prefix itself or continues it after a dot. In particular
  a longer sibling name is never under a shorter one.\<close>

theorem str_is_under_spec:
  assumes "prefix \<noteq> []"
  shows "str_is_under path prefix \<longleftrightarrow> path = prefix \<or> (\<exists>rest. path = prefix @ dot # rest)"
  using str_is_under_text [OF assms] .

theorem str_is_under_spec_witness:
  "str_is_under ''a.b'' ''a'' \<and> \<not> str_is_under ''ab'' ''a''"
  using str_is_under_spec [of "''a''" "''a.b''"] str_is_under_spec [of "''a''" "''ab''"] by auto

text \<open>On the paths the walk produces, the segment test and the test on the rendered strings
  agree, so a log or config prefix addresses exactly the subtree it names.\<close>

theorem is_under_agrees:
  assumes "walked p" "walked q"
  shows "path_is_under p q \<longleftrightarrow> str_is_under (rp_rendered p) (rp_rendered q)"
  using assms by (simp add: walked_under)

theorem is_under_agrees_witness:
  "path_is_under (path_child (path_root ''top'') ''env'') (path_root ''top'') \<longleftrightarrow>
   str_is_under (rp_rendered (path_child (path_root ''top'') ''env'')) (rp_rendered (path_root ''top''))"
  by (rule is_under_agrees) (auto intro!: walked.intros simp: ident_def)

text \<open>Logger::new parses back what the walk rendered: the parsed path is the walked path
  itself, segments and rendering alike.\<close>

theorem logger_new_round_trip:
  assumes "walked p"
  shows "logger_new (rp_rendered p) = p"
proof -
  have ne: "rp_rendered p \<noteq> []" using walked_wf [OF assms] by blast
  have "hd (rp_rendered p) \<noteq> dot" by (rule walked_hd [OF assms])
  then have "rp_rendered (logger_new (rp_rendered p)) = rp_rendered p"
    by (simp add: logger_new_rendered)
  moreover have "rp_segments (logger_new (rp_rendered p)) = rp_segments p"
    by (simp add: ne logger_new_def fold_child_segments path_empty_def walked_split [OF assms])
  ultimately show ?thesis by simp
qed

theorem logger_new_round_trip_witness:
  "logger_new ''top.env'' = path_child (path_root ''top'') ''env''"
proof -
  have "walked (path_child (path_root ''top'') ''env'')"
    by (auto intro!: walked.intros simp: ident_def)
  from logger_new_round_trip [OF this] show ?thesis by (simp add: path_child_def path_root_def)
qed

end
