(* ===== verification/Config_Db.thy ===== *)
theory Config_Db
  imports Btree_Map Path_Model
begin

text \<open>
  The configuration database of \<open>rustdv-methodology/src/config.rs\<close>: a store of path glob,
  field and precedence, read by the most specific glob that matches. The thread-local cells
  are one record. A Rust type is its \<open>TypeId\<close> and name; a value carries its rendering. The
  context of a call enters only through its path. A traced operation returns the message it
  logs. Precedences are 32-bit integers in the code and stay within 1000 of 1000 minus the
  depth of a path, so they are integers here.
\<close>

section \<open>Globs\<close>

abbreviation star :: char where "star \<equiv> CHR 0x2A"

function glob_match :: "string \<Rightarrow> string \<Rightarrow> bool" where
  "glob_match [] [] = True"
| "glob_match (a # p) [] = False"
| "glob_match [] (b # g) = (if b = star then glob_match [] g else False)"
| "glob_match (a # p) (b # g) =
     (if b = star then glob_match (a # p) g \<or> glob_match p (b # g)
      else if a = b then glob_match p g
      else False)"
  by pat_completeness auto
termination by (relation "measure (\<lambda>(p, g). length p + length g)") auto

definition more_specific :: "string \<Rightarrow> string \<Rightarrow> bool" where
  "more_specific a b = glob_match a b"

text \<open>What a glob means: a literal byte stands for itself, a star for any string.\<close>

inductive globs :: "string \<Rightarrow> string \<Rightarrow> bool" where
  g_nil: "globs [] []"
| g_lit: "c \<noteq> star \<Longrightarrow> globs p g \<Longrightarrow> globs (c # p) (c # g)"
| g_star: "globs q g \<Longrightarrow> globs (p @ q) (star # g)"

inductive_cases globs_lit_cases: "globs p (c # g)"
inductive_cases globs_nil_cases: "globs p []"

section \<open>Data\<close>

record rust_type =
  ty_id :: nat
  ty_name :: string

record 'v entry =
  en_value :: 'v
  en_type :: rust_type
  en_rendered :: string

type_synonym 'v store = "(string, (string, (int, 'v entry) btree) btree) btree"

record 'v config_db =
  db_store :: "'v store"
  db_tracing :: bool
  db_in_build :: bool

datatype config_error =
    NotFound string string
  | TypeMismatch string string string string

fun config_error_kind :: "config_error \<Rightarrow> string" where
  "config_error_kind (NotFound path field) = ''config_not_found''"
| "config_error_kind (TypeMismatch path field stored requested) = ''config_type_mismatch''"

definition default_precedence :: int where
  "default_precedence = 1000"

definition config_init :: "'v config_db" where
  "config_init = \<lparr>db_store = [], db_tracing = False, db_in_build = False\<rparr>"

section \<open>Operations\<close>

definition resolve :: "string option \<Rightarrow> string \<Rightarrow> string" where
  "resolve ctx offset =
     (case ctx of
        None \<Rightarrow> offset
      | Some c \<Rightarrow> if offset = [] then c else if c = [] then offset else c @ dot # offset)"

definition depth_of :: "string \<Rightarrow> int" where
  "depth_of path = (if path = [] then 0 else int (count_list path dot))"

definition config_trace :: "'v config_db \<Rightarrow> string \<Rightarrow> string option \<Rightarrow> string \<Rightarrow> string \<Rightarrow> string \<Rightarrow> string
    \<Rightarrow> string list" where
  "config_trace db op ctx offset path field value =
     (if db_tracing db
      then [''CFGDB/'' @ op @ '' context='' @ (case ctx of None \<Rightarrow> ''<none>'' | Some c \<Rightarrow> c) @
            '' offset='' @ [CHR 0x22] @ offset @ [CHR 0x22] @ '' -> '' @ path @ '' '' @ field @ ''='' @ value]
      else [])"

definition set_precedence :: "'v config_db \<Rightarrow> string option \<Rightarrow> int" where
  "set_precedence db ctx =
     (let setter_depth = (case ctx of None \<Rightarrow> 0 | Some c \<Rightarrow> depth_of c)
      in if db_in_build db then default_precedence - setter_depth else default_precedence)"

definition config_set :: "'v config_db \<Rightarrow> string option \<Rightarrow> string \<Rightarrow> string \<Rightarrow> 'v entry
    \<Rightarrow> 'v config_db \<times> string list" where
  "config_set db ctx offset field e =
     (let path = resolve ctx offset;
          precedence = set_precedence db ctx
      in (db\<lparr>db_store := bt_update path [] (bt_update field [] (bt_insert precedence e)) (db_store db)\<rparr>,
          config_trace db ''SET'' ctx offset path field (en_rendered e)))"

text \<open>The candidates of a read, in store order, and the order \<open>sort_by\<close> puts them in. The comparator is only a
  partial order, so the order is that of the algorithm; the insertion sort is the one the standard
  library runs on up to twenty elements, which bounds the number of globs with the field that match one path.\<close>

definition candidates :: "'v store \<Rightarrow> string \<Rightarrow> string \<Rightarrow> (string \<times> 'v entry) list" where
  "candidates store path field =
     List.map_filter (\<lambda>(pat, flds).
         case bt_get flds field of
           None \<Rightarrow> None
         | Some by_prec \<Rightarrow> map_option (\<lambda>(_, e). (pat, e)) (bt_last by_prec))
       (filter (\<lambda>(pat, _). glob_match path pat) store)"

definition specific_lt :: "string \<times> 'v entry \<Rightarrow> string \<times> 'v entry \<Rightarrow> bool" where
  "specific_lt x y = (more_specific (fst x) (fst y) \<and> \<not> more_specific (fst y) (fst x))"

definition config_find :: "'v store \<Rightarrow> string \<Rightarrow> string \<Rightarrow> 'v entry option" where
  "config_find store path field =
     (case sort_by specific_lt (candidates store path field) of [] \<Rightarrow> None | (_, e) # _ \<Rightarrow> Some e)"

definition config_get :: "'v config_db \<Rightarrow> rust_type \<Rightarrow> string option \<Rightarrow> string \<Rightarrow> string
    \<Rightarrow> (config_error + 'v) \<times> string list" where
  "config_get db T ctx offset field =
     (let path = resolve ctx offset in
      case config_find (db_store db) path field of
        None \<Rightarrow> (Inl (NotFound path field), config_trace db ''GET'' ctx offset path field ''<not found>'')
      | Some e \<Rightarrow>
          if ty_id (en_type e) \<noteq> ty_id T
          then (Inl (TypeMismatch path field (ty_name (en_type e)) (ty_name T)),
                config_trace db ''GET'' ctx offset path field ''<type mismatch>'')
          else (Inr (en_value e), config_trace db ''GET'' ctx offset path field (en_rendered e)))"

definition config_exists :: "'v config_db \<Rightarrow> string option \<Rightarrow> string \<Rightarrow> string \<Rightarrow> bool" where
  "config_exists db ctx offset field =
     (let path = resolve ctx offset in
      list_ex (\<lambda>(pat, flds). glob_match path pat \<and> bt_get flds field \<noteq> None) (db_store db))"

definition set_tracing :: "'v config_db \<Rightarrow> bool \<Rightarrow> 'v config_db" where
  "set_tracing db on = db\<lparr>db_tracing := on\<rparr>"

definition set_in_build :: "'v config_db \<Rightarrow> bool \<Rightarrow> 'v config_db" where
  "set_in_build db active = db\<lparr>db_in_build := active\<rparr>"

definition config_clear :: "'v config_db \<Rightarrow> 'v config_db" where
  "config_clear db = db\<lparr>db_store := [], db_tracing := False, db_in_build := False\<rparr>"

definition override_prefix :: string where
  "override_prefix = ''__factory_override__''"

fun strip_prefix :: "string \<Rightarrow> string \<Rightarrow> string option" where
  "strip_prefix [] s = Some s"
| "strip_prefix (c # cs) [] = None"
| "strip_prefix (c # cs) (d # s) = (if c = d then strip_prefix cs s else None)"

function trim_start_matches :: "string \<Rightarrow> string \<Rightarrow> string" where
  "trim_start_matches pat s =
     (if pat = [] then s
      else (case strip_prefix pat s of None \<Rightarrow> s | Some rest \<Rightarrow> trim_start_matches pat rest))"
  by pat_completeness auto

lemma strip_prefix_append: "strip_prefix pat s = Some rest \<longleftrightarrow> s = pat @ rest"
  by (induction pat s rule: strip_prefix.induct) auto

termination trim_start_matches
  by (relation "measure (\<lambda>(pat, s). length s)") (auto simp: strip_prefix_append)

declare trim_start_matches.simps [simp del]

definition factory_overrides :: "'v config_db \<Rightarrow> (string \<times> string \<times> string) list" where
  "factory_overrides db =
     concat (map (\<lambda>(path, flds).
       List.map_filter (\<lambda>(field, by_prec).
         case strip_prefix override_prefix field of
           None \<Rightarrow> None
         | Some from_ty \<Rightarrow>
             map_option (\<lambda>(_, e). (path, from_ty, trim_start_matches ''-> '' (en_rendered e))) (bt_last by_prec))
       flds) (db_store db))"

definition join_comma :: "string list \<Rightarrow> string" where
  "join_comma ss = (case ss of [] \<Rightarrow> [] | s # rest \<Rightarrow> s @ concat (map (\<lambda>t. '', '' @ t) rest))"

definition config_dump :: "'v config_db \<Rightarrow> string" where
  "config_dump db =
     pad_right 28 ''PATH'' @ '': '' @ pad_right 10 ''KEY'' @ '': DATA'' @
     concat (map (\<lambda>(path, flds). concat (map (\<lambda>(field, by_prec).
       CHR 0x0A # pad_right 28 path @ '': '' @ pad_right 10 field @ '': {'' @
       join_comma (map (\<lambda>(p, e). int_string p @ '': '' @ en_rendered e) (rev by_prec)) @ ''}'')
       flds)) (db_store db))"

section \<open>Globs: meaning and order\<close>

lemma globs_nil [simp]: "globs p [] \<longleftrightarrow> p = []"
  by (auto intro: g_nil elim: globs_nil_cases)

lemma globs_star: "globs p (star # g) \<longleftrightarrow> (\<exists>u v. p = u @ v \<and> globs v g)"
  by (auto intro: g_star elim!: globs_lit_cases)

lemma globs_lit: "c \<noteq> star \<Longrightarrow> globs p (c # g) \<longleftrightarrow> (\<exists>v. p = c # v \<and> globs v g)"
  by (auto intro: g_lit elim!: globs_lit_cases)

lemma glob_match_globs: "glob_match p g \<longleftrightarrow> globs p g"
proof (induction p g rule: glob_match.induct)
  case (4 a p b g)
  show ?case
  proof (cases "b = star")
    case True
    have "globs (a # p) (star # g) \<longleftrightarrow> globs (a # p) g \<or> globs p (star # g)"
      by (auto simp: globs_star Cons_eq_append_conv)
    with 4 True show ?thesis by simp
  next
    case False
    with 4 show ?thesis by (auto simp: globs_lit)
  qed
qed (auto simp: globs_star globs_lit)

lemma globs_appendD: "globs p (u @ v) \<Longrightarrow> \<exists>p1 p2. p = p1 @ p2 \<and> globs p1 u \<and> globs p2 v"
proof (induction u arbitrary: p)
  case Nil
  then show ?case by auto
next
  case (Cons c u)
  show ?case
  proof (cases "c = star")
    case True
    with Cons.prems obtain x y where "p = x @ y" "globs y (u @ v)" by (auto simp: globs_star)
    with Cons.IH [of y] obtain p1 p2 where "p = x @ p1 @ p2" "globs p1 u" "globs p2 v" by auto
    with True show ?thesis by (metis append.assoc g_star)
  next
    case False
    with Cons.prems obtain y where "p = c # y" "globs y (u @ v)" by (auto simp: globs_lit)
    with Cons.IH [of y] obtain p1 p2 where "p = c # p1 @ p2" "globs p1 u" "globs p2 v" by auto
    with False show ?thesis by (metis append_Cons g_lit)
  qed
qed

lemma globs_refl: "globs g g"
proof (induction g)
  case (Cons c g)
  then show ?case using g_star [of g g "[star]"] by (cases "c = star") (auto intro: g_lit)
qed simp

lemma globs_trans: "globs a b \<Longrightarrow> globs p a \<Longrightarrow> globs p b"
proof (induction arbitrary: p rule: globs.induct)
  case g_nil
  then show ?case by simp
next
  case (g_lit c a b)
  then show ?case by (auto simp: globs_lit intro: globs.g_lit)
next
  case (g_star q g u)
  from globs_appendD [OF g_star.prems] g_star.IH show ?case by (auto intro: globs.g_star)
qed

lemma globs_no_star: "star \<notin> set g \<Longrightarrow> globs p g \<longleftrightarrow> p = g"
proof (induction g arbitrary: p)
  case (Cons c g)
  then have "c \<noteq> star" "\<And>v. globs v g \<longleftrightarrow> v = g" by auto
  then show ?case by (simp add: globs_lit)
qed simp

section \<open>Sorting: a least element comes first\<close>

lemma insert_tail_last:
  assumes "\<And>y. y \<in> set acc \<Longrightarrow> y \<noteq> m \<Longrightarrow> lt m y \<and> \<not> lt y m" "x \<noteq> m \<Longrightarrow> lt m x \<and> \<not> lt x m"
    and "m \<in> set acc \<Longrightarrow> last acc = m" "m \<in> set (insert_tail lt x acc)"
  shows "last (insert_tail lt x acc) = m"
  using assms
proof (induction acc)
  case Nil
  then show ?case by auto
next
  case (Cons y ys)
  show ?case
  proof (cases "lt x y")
    case True
    have ne: "insert_tail lt x ys \<noteq> []" by (cases ys) auto
    have "last (insert_tail lt x ys) = m"
    proof (rule Cons.IH)
      show "m \<in> set (insert_tail lt x ys)"
        using Cons.prems True by (cases "ys = []") (auto split: if_splits)
      show "m \<in> set ys \<Longrightarrow> last ys = m" using Cons.prems(3) by (cases ys) auto
    qed (use Cons.prems in auto)
    with True ne show ?thesis by simp
  next
    case False
    with Cons.prems show ?thesis by (cases "y = m") (auto split: if_splits)
  qed
qed

lemma fold_insert_tail_last:
  assumes "\<And>y. y \<in> set xs \<union> set acc \<Longrightarrow> y \<noteq> m \<Longrightarrow> lt m y \<and> \<not> lt y m"
    and "m \<in> set acc \<Longrightarrow> last acc = m" "m \<in> set xs \<union> set acc"
  shows "last (fold (insert_tail lt) xs acc) = m"
  using assms
proof (induction xs arbitrary: acc)
  case Nil
  then show ?case by simp
next
  case (Cons x xs)
  have "last (fold (insert_tail lt) xs (insert_tail lt x acc)) = m"
  proof (rule Cons.IH)
    show "m \<in> set (insert_tail lt x acc) \<Longrightarrow> last (insert_tail lt x acc) = m"
      by (rule insert_tail_last) (use Cons.prems in auto)
  qed (use Cons.prems in auto)
  then show ?case by simp
qed

lemma sort_by_least:
  assumes "m \<in> set xs" "\<And>y. y \<in> set xs \<Longrightarrow> y \<noteq> m \<Longrightarrow> lt m y \<and> \<not> lt y m"
  shows "\<exists>rest. sort_by lt xs = m # rest"
proof -
  have "last (fold (insert_tail lt) xs []) = m"
    by (rule fold_insert_tail_last) (use assms in auto)
  moreover have "fold (insert_tail lt) xs [] \<noteq> []"
    using assms(1) set_fold_insert_tail [of lt xs "[]"] by auto
  ultimately show ?thesis
    by (metis append_butlast_last_id rev.simps(2) rev_append rev_rev_ident rev_singleton_conv sort_by_def append_Cons append_Nil)
qed

section \<open>The store as a map\<close>

definition precs :: "'v store \<Rightarrow> string \<Rightarrow> string \<Rightarrow> (int, 'v entry) btree" where
  "precs store pat field =
     (case bt_get store pat of None \<Rightarrow> []
      | Some flds \<Rightarrow> (case bt_get flds field of None \<Rightarrow> [] | Some m \<Rightarrow> m))"

definition winner :: "'v store \<Rightarrow> string \<Rightarrow> string \<Rightarrow> 'v entry option" where
  "winner store pat field = map_option snd (bt_last (precs store pat field))"

definition prec_inv :: "(int, 'v entry) btree \<Rightarrow> bool" where
  "prec_inv m \<longleftrightarrow> bt_all (\<lambda>k _. k \<le> default_precedence) m"

definition field_inv :: "(string, (int, 'v entry) btree) btree \<Rightarrow> bool" where
  "field_inv flds \<longleftrightarrow> bt_all (\<lambda>_ m. m \<noteq> [] \<and> prec_inv m) flds"

definition store_inv :: "'v store \<Rightarrow> bool" where
  "store_inv store \<longleftrightarrow> bt_all (\<lambda>_ flds. field_inv flds) store"

inductive config_reachable :: "'v config_db \<Rightarrow> bool" where
  cr_init: "config_reachable config_init"
| cr_set: "config_reachable db \<Longrightarrow> config_reachable (fst (config_set db ctx offset field e))"
| cr_tracing: "config_reachable db \<Longrightarrow> config_reachable (set_tracing db on)"
| cr_build: "config_reachable db \<Longrightarrow> config_reachable (set_in_build db active)"
| cr_clear: "config_reachable db \<Longrightarrow> config_reachable (config_clear db)"

lemma depth_of_nonneg [simp]: "0 \<le> depth_of p"
  by (simp add: depth_of_def)

lemma set_precedence_le [simp]: "set_precedence db ctx \<le> default_precedence"
  by (auto simp: set_precedence_def Let_def split: option.splits)

lemma prec_inv_insert: "prec_inv m \<Longrightarrow> k \<le> default_precedence \<Longrightarrow> prec_inv (bt_insert k e m)"
  by (simp add: prec_inv_def bt_all_insert)

lemma field_inv_update:
  "field_inv flds \<Longrightarrow> k \<le> default_precedence \<Longrightarrow> field_inv (bt_update field [] (bt_insert k e) flds)"
  unfolding field_inv_def
  by (rule bt_all_update) (simp_all add: prec_inv_insert prec_inv_def bt_all_insert del: bt_insert.simps)

lemma store_inv_update:
  "store_inv store \<Longrightarrow> k \<le> default_precedence \<Longrightarrow>
     store_inv (bt_update path [] (bt_update field [] (bt_insert k e)) store)"
  unfolding store_inv_def
  by (rule bt_all_update) (simp_all add: field_inv_update field_inv_def [of "[]"])

lemma config_reachable_inv: "config_reachable db \<Longrightarrow> store_inv (db_store db)"
proof (induction rule: config_reachable.induct)
  case (cr_set db ctx offset field e)
  then show ?case by (simp add: config_set_def Let_def store_inv_update)
qed (auto simp: config_init_def set_tracing_def set_in_build_def config_clear_def store_inv_def bt_get_def)

lemma precs_inv: "store_inv store \<Longrightarrow> prec_inv (precs store pat field)"
proof -
  assume inv: "store_inv store"
  have "bt_get store pat = Some flds \<Longrightarrow> bt_get flds field = Some m \<Longrightarrow> prec_inv m" for flds m
    using inv bt_allD [of _ store pat flds] bt_allD [of _ flds field m]
    unfolding store_inv_def field_inv_def by blast
  then show ?thesis by (auto simp: precs_def prec_inv_def [of "[]"] split: option.splits)
qed

lemma precs_set:
  assumes "store_inv store"
  shows "precs (bt_update path [] (bt_update field [] (bt_insert k e)) store) pat f =
    (if pat = path \<and> f = field then bt_insert k e (precs store pat f) else precs store pat f)"
proof -
  have "bt_sorted store" using assms by (simp add: store_inv_def bt_all_sorted)
  moreover have "bt_get store path = Some flds \<Longrightarrow> bt_sorted flds" for flds
    using assms by (auto simp: store_inv_def field_inv_def bt_all_sorted dest: bt_allD)
  ultimately show ?thesis
    by (auto simp: precs_def bt_get_update split: option.splits)
qed

lemma candidates_set:
  assumes "store_inv store"
  shows "(pat, e) \<in> set (candidates store path field) \<longleftrightarrow>
    glob_match path pat \<and> winner store pat field = Some e"
proof -
  have "bt_sorted store" using assms by (simp add: store_inv_def bt_all_sorted)
  then have elem: "(pat, flds) \<in> set store \<longleftrightarrow> bt_get store pat = Some flds" for flds
    by (simp add: bt_get_elem)
  have "(pat, e) \<in> set (candidates store path field) \<longleftrightarrow>
    (\<exists>flds m k. (pat, flds) \<in> set store \<and> glob_match path pat \<and> bt_get flds field = Some m \<and> bt_last m = Some (k, e))"
    by (fastforce simp: candidates_def set_map_filter_iff split: option.splits)
  also have "\<dots> \<longleftrightarrow> glob_match path pat \<and> winner store pat field = Some e"
    unfolding elem by (auto simp: winner_def precs_def split: option.splits)
  finally show ?thesis .
qed

lemma config_find_None:
  assumes "store_inv store"
  shows "config_find store path field = None \<longleftrightarrow> (\<forall>pat. glob_match path pat \<longrightarrow> winner store pat field = None)"
proof -
  have "config_find store path field = None \<longleftrightarrow> candidates store path field = []"
    by (auto simp: config_find_def split: list.splits)
  also have "\<dots> \<longleftrightarrow> (\<forall>pat e. (pat, e) \<notin> set (candidates store path field))"
    by (metis empty_iff empty_set last_in_set surj_pair)
  finally show ?thesis by (auto simp: candidates_set [OF assms])
qed

lemma winner_found:
  assumes "store_inv store" "glob_match path pat" "winner store pat field = Some e"
    and "\<And>q. q \<noteq> pat \<Longrightarrow> glob_match path q \<Longrightarrow> winner store q field \<noteq> None \<Longrightarrow>
      more_specific pat q \<and> \<not> more_specific q pat"
  shows "config_find store path field = Some e"
proof -
  have "\<exists>rest. sort_by specific_lt (candidates store path field) = (pat, e) # rest"
  proof (rule sort_by_least)
    show "(pat, e) \<in> set (candidates store path field)" using assms(1-3) by (simp add: candidates_set)
    fix y assume y: "y \<in> set (candidates store path field)" "y \<noteq> (pat, e)"
    obtain q d where qd: "y = (q, d)" by (cases y)
    from y have "glob_match path q" "winner store q field = Some d" "q \<noteq> pat"
      using assms(1,3) by (auto simp: qd candidates_set)
    with assms(4) [of q] show "specific_lt (pat, e) y \<and> \<not> specific_lt y (pat, e)"
      by (simp add: specific_lt_def qd)
  qed
  then show ?thesis by (auto simp: config_find_def)
qed

text \<open>A concrete path is more specific than every glob that matches it.\<close>

lemma exact_found:
  assumes "store_inv store" "star \<notin> set path" "winner store path field = Some e"
  shows "config_find store path field = Some e"
proof (rule winner_found [OF assms(1) _ assms(3)])
  show "glob_match path path" by (simp add: glob_match_globs globs_refl)
  fix q assume "q \<noteq> path" "glob_match path q"
  then show "more_specific path q \<and> \<not> more_specific q path"
    using assms(2) by (simp add: more_specific_def glob_match_globs globs_no_star)
qed

section \<open>Reading after writing\<close>

lemma config_set_winner:
  assumes "store_inv (db_store db)" "resolve ctx offset = path" "f = field"
    and "\<And>k. bt_get (precs (db_store db) path field) k \<noteq> None \<Longrightarrow> k \<le> set_precedence db ctx"
  shows "winner (db_store (fst (config_set db ctx offset field e))) path f = Some e"
proof -
  have "bt_sorted (precs (db_store db) path field)"
    using precs_inv [OF assms(1), of path field] unfolding prec_inv_def by (rule bt_all_sorted)
  then have "bt_last (bt_insert (set_precedence db ctx) e (precs (db_store db) path field)) =
      Some (set_precedence db ctx, e)"
    by (rule bt.lastkv_ins_top) (rule assms(4))
  then show ?thesis
    using assms(1-3) by (simp add: config_set_def Let_def winner_def precs_set)
qed

lemma config_set_inv [keeps]:
  "store_inv (db_store db) \<Longrightarrow> store_inv (db_store (fst (config_set db ctx offset field e)))"
  by (simp add: config_set_def Let_def store_inv_update)

lemma config_set_flags [simp]:
  "db_in_build (fst (config_set db ctx offset field e)) = db_in_build db"
  "db_tracing (fst (config_set db ctx offset field e)) = db_tracing db"
  by (simp_all add: config_set_def Let_def)

lemma precs_bounded:
  "store_inv store \<Longrightarrow> bt_get (precs store path field) k \<noteq> None \<Longrightarrow> k \<le> default_precedence"
  using precs_inv [of store path field] by (auto simp: prec_inv_def dest: bt_allD)

lemma config_get_found:
  assumes "config_find (db_store db) (resolve ctx offset) field = Some e"
  shows "fst (config_get db T ctx offset field) =
    (if ty_id (en_type e) = ty_id T then Inr (en_value e)
     else Inl (TypeMismatch (resolve ctx offset) field (ty_name (en_type e)) (ty_name T)))"
  using assms by (simp add: config_get_def Let_def)

lemma config_find_frame:
  assumes "store_inv store" "field \<noteq> f \<or> \<not> glob_match path pat"
  shows "config_find (bt_update pat [] (bt_update f [] (bt_insert k e)) store) path field =
    config_find store path field"
proof -
  let ?f = "\<lambda>(pat, flds). case bt_get flds field of None \<Rightarrow> None
       | Some by_prec \<Rightarrow> map_option (\<lambda>(_, e). (pat, e)) (bt_last by_prec)"
  let ?g = "\<lambda>x. if (case x of (pat, _) \<Rightarrow> glob_match path pat) then ?f x else None"
  have cand: "candidates s path field = List.map_filter ?g s" for s
    unfolding candidates_def by (rule map_filter_filter)
  have st: "bt_sorted store" and fl: "\<And>flds. bt_get store pat = Some flds \<Longrightarrow> bt_sorted flds"
    using assms(1) by (auto simp: store_inv_def field_inv_def bt_all_sorted dest: bt_allD)
  have "List.map_filter ?g (bt_insert pat v store) = List.map_filter ?g store"
    if v: "v = bt_update f [] (bt_insert k e) (case bt_get store pat of None \<Rightarrow> [] | Some v \<Rightarrow> v)" for v
    by (rule map_filter_bt_insert [OF st])
      (use assms(2) fl in \<open>auto simp: v bt_get_update split: option.splits\<close>)
  then show ?thesis by (simp add: config_find_def cand bt_update_def [of pat])
qed

section \<open>Properties\<close>

text \<open>C16: The recursive byte matcher accepts exactly the language of the glob: literal bytes match
  themselves and each star matches any string. And the specificity test on two globs is sound:
  a glob that is at least as specific as another matches no path the other rejects.\<close>

theorem glob_match_language:
  "(glob_match p g \<longleftrightarrow> globs p g) \<and> (more_specific a b \<longrightarrow> glob_match p a \<longrightarrow> glob_match p b)"
  by (auto simp: glob_match_globs more_specific_def dest: globs_trans)

theorem glob_match_language_witness:
  "more_specific ''a.*'' ''*'' \<and> glob_match ''a.b'' ''a.*'' \<and> glob_match ''a.b'' ''*''"
proof -
  have "more_specific ''a.*'' ''*'' \<and> glob_match ''a.b'' ''a.*''"
    by (simp add: more_specific_def)
  with glob_match_language [of "''a.b''" "''*''" "''a.*''" "''*''"] show ?thesis by blast
qed

text \<open>C18: A value written after the build phase to a concrete path is what every later read of that
  path and field returns, whatever the database held before: it outranks every build-time write
  and every glob. A read at another type reports the mismatch with both type names.\<close>

theorem config_set_get:
  assumes "config_reachable db" "\<not> db_in_build db"
    and "resolve ctx offset = path" "resolve ctx' offset' = path" "star \<notin> set path"
  shows "fst (config_get (fst (config_set db ctx offset field e)) T ctx' offset' field) =
    (if ty_id (en_type e) = ty_id T then Inr (en_value e)
     else Inl (TypeMismatch path field (ty_name (en_type e)) (ty_name T)))"
proof -
  note inv = config_reachable_inv [OF assms(1)]
  have prec: "set_precedence db ctx = default_precedence"
    using assms(2) by (simp add: set_precedence_def)
  have "winner (db_store (fst (config_set db ctx offset field e))) path field = Some e"
    by (rule config_set_winner [OF inv assms(3) refl]) (use prec precs_bounded [OF inv] in auto)
  then have "config_find (db_store (fst (config_set db ctx offset field e))) path field = Some e"
    using exact_found [OF config_set_inv [OF inv] assms(5)] by blast
  then show ?thesis using config_get_found assms(4) by metis
qed

definition u32_type :: rust_type where "u32_type = \<lparr>ty_id = 1, ty_name = ''u32''\<rparr>"

definition num_entry :: "int \<Rightarrow> int entry" where
  "num_entry n = \<lparr>en_value = n, en_type = u32_type, en_rendered = int_string n\<rparr>"

theorem config_set_get_witness:
  "fst (config_get (fst (config_set (fst (config_set config_init None ''*'' ''K'' (num_entry 1)))
      (Some ''top'') ''env'' ''K'' (num_entry 2))) u32_type (Some ''top.env'') [] ''K'') = Inr 2"
proof -
  have r: "config_reachable (fst (config_set config_init None ''*'' ''K'' (num_entry 1)))"
    by (intro config_reachable.intros)
  have "\<not> db_in_build (fst (config_set config_init None ''*'' ''K'' (num_entry 1)))"
    by (simp add: config_init_def)
  from config_set_get [OF r this, of "Some ''top''" "''env''" "''top.env''" "Some ''top.env''" "[]"
      "''K''" "num_entry 2" u32_type]
  show ?thesis by (simp add: resolve_def num_entry_def)
qed

text \<open>C15: When one matching glob is strictly more specific than every other matching glob that
  holds the field, a read returns that glob's highest-precedence entry.\<close>

theorem config_get_most_specific:
  assumes "config_reachable db" "glob_match (resolve ctx offset) pat"
    and "winner (db_store db) pat field = Some e" "ty_id (en_type e) = ty_id T"
    and "\<And>q. q \<noteq> pat \<Longrightarrow> glob_match (resolve ctx offset) q \<Longrightarrow> winner (db_store db) q field \<noteq> None \<Longrightarrow>
      more_specific pat q \<and> \<not> more_specific q pat"
  shows "fst (config_get db T ctx offset field) = Inr (en_value e)"
proof -
  have "config_find (db_store db) (resolve ctx offset) field = Some e"
    by (rule winner_found [OF config_reachable_inv [OF assms(1)] assms(2,3)]) (rule assms(5))
  from config_get_found [OF this] assms(4) show ?thesis by simp
qed

definition two_globs :: "int config_db" where
  "two_globs = fst (config_set (fst (config_set config_init None ''*'' ''K'' (num_entry 1)))
     None ''a.*'' ''K'' (num_entry 2))"

lemma two_globs_store:
  "db_store two_globs = [(''*'', [(''K'', [(1000, num_entry 1)])]), (''a.*'', [(''K'', [(1000, num_entry 2)])])]"
  by (simp add: two_globs_def config_set_def config_init_def resolve_def set_precedence_def Let_def bt_update_def
      bt_get_def default_precedence_def less_char_def)

theorem config_get_most_specific_witness:
  "fst (config_get two_globs u32_type None ''a.b'' ''K'') = Inr 2"
proof -
  have "fst (config_get two_globs u32_type None ''a.b'' ''K'') = Inr (en_value (num_entry 2))"
  proof (rule config_get_most_specific)
    show "config_reachable two_globs" unfolding two_globs_def by (intro config_reachable.intros)
    show "glob_match (resolve None ''a.b'') ''a.*''" by (simp add: resolve_def)
    show "winner (db_store two_globs) ''a.*'' ''K'' = Some (num_entry 2)"
      unfolding two_globs_store by (simp add: winner_def precs_def bt_get_def bt_last_def)
    show "ty_id (en_type (num_entry 2)) = ty_id u32_type" by (simp add: num_entry_def)
    fix q assume "q \<noteq> ''a.*''" "winner (db_store two_globs) q ''K'' \<noteq> None"
    then have "q = ''*''"
      unfolding two_globs_store by (auto simp: winner_def precs_def bt_get_def split: if_splits)
    then show "more_specific ''a.*'' q \<and> \<not> more_specific q ''a.*''" by (simp add: more_specific_def)
  qed
  then show ?thesis by (simp add: num_entry_def)
qed

text \<open>C17: In a parent and child conflict during build, where both write the same concrete path and
  field, the shallower writer's value is read back in either order of the two writes, provided
  nothing of higher precedence was there before.\<close>

theorem parent_wins_in_build:
  assumes "config_reachable db" "db_in_build db" "depth_of parent < depth_of child"
    and "resolve (Some parent) po = path" "resolve (Some child) co = path" "star \<notin> set path"
    and "\<And>k. bt_get (precs (db_store db) path field) k \<noteq> None \<Longrightarrow> k \<le> default_precedence - depth_of parent"
    and "ty_id (en_type pe) = ty_id T"
  shows "fst (config_get (fst (config_set (fst (config_set db (Some parent) po field pe))
           (Some child) co field ce)) T None path field) = Inr (en_value pe)
       \<and> fst (config_get (fst (config_set (fst (config_set db (Some child) co field ce))
           (Some parent) po field pe)) T None path field) = Inr (en_value pe)"
proof -
  note inv = config_reachable_inv [OF assms(1)]
  let ?m = "precs (db_store db) path field"
  let ?kp = "default_precedence - depth_of parent" and ?kc = "default_precedence - depth_of child"
  have srt: "bt_sorted ?m" using precs_inv [OF inv, of path field] unfolding prec_inv_def by (rule bt_all_sorted)
  have kc: "?kc < ?kp" using assms(3) by simp
  have top: "bt_last (bt_insert ?kp pe ?m) = Some (?kp, pe)"
    by (rule bt.lastkv_ins_top [OF srt assms(7)])
  have 1: "bt_last (bt_insert ?kc ce (bt_insert ?kp pe ?m)) = Some (?kp, pe)"
    by (rule bt.lastkv_ins_below [OF bt.wf_ins [OF srt] top kc])
  have 2: "bt_last (bt_insert ?kp pe (bt_insert ?kc ce ?m)) = Some (?kp, pe)"
    by (rule bt.lastkv_ins_top [OF bt.wf_ins [OF srt]])
      (use assms(7) kc in \<open>auto simp: bt.get_ins [OF srt] split: if_splits\<close>)
  have w: "winner (db_store (fst (config_set (fst (config_set db (Some parent) po field pe))
           (Some child) co field ce))) path field = Some pe"
    "winner (db_store (fst (config_set (fst (config_set db (Some child) co field ce))
           (Some parent) po field pe))) path field = Some pe"
    using 1 2 inv assms(2,4,5)
    by (simp_all add: config_set_def Let_def winner_def precs_set store_inv_update set_precedence_def)
  have ex: "fst (config_get d T None path field) = Inr (en_value pe)"
    if "store_inv (db_store d)" "winner (db_store d) path field = Some pe" for d
    using config_get_found [of d None path field pe T] exact_found [OF that(1) assms(6) that(2)] assms(8)
    by (simp add: resolve_def)
  show ?thesis using ex w inv by (simp add: config_set_inv)
qed

theorem parent_wins_in_build_witness:
  "fst (config_get (fst (config_set (fst (config_set (set_in_build config_init True) (Some ''t'') ''e.a'' ''K'' (num_entry 1)))
      (Some ''t.e'') ''a'' ''K'' (num_entry 2))) u32_type None ''t.e.a'' ''K'') = Inr 1"
proof -
  have r: "config_reachable (set_in_build (config_init :: int config_db) True)"
    by (intro config_reachable.intros)
  have s: "precs (db_store (set_in_build (config_init :: int config_db) True)) ''t.e.a'' ''K'' = []"
    by (simp add: precs_def set_in_build_def config_init_def)
  show ?thesis
    using parent_wins_in_build [OF r, of "''t''" "''t.e''" "''e.a''" "''t.e.a''" "''a''" "''K''"
        "num_entry 1" u32_type "num_entry 2", unfolded s]
    by (simp add: set_in_build_def depth_of_def resolve_def num_entry_def)
qed

text \<open>A read fails with NotFound exactly when exists says so, and otherwise never does: the two
  queries agree on every reachable database.\<close>

theorem config_not_found_iff:
  assumes "config_reachable db"
  shows "fst (config_get db T ctx offset field) = Inl (NotFound (resolve ctx offset) field)
    \<longleftrightarrow> \<not> config_exists db ctx offset field"
proof -
  note inv = config_reachable_inv [OF assms]
  have srt: "bt_sorted (db_store db)" using inv by (simp add: store_inv_def bt_all_sorted)
  have ne: "m \<noteq> []" if "bt_get (db_store db) pat = Some flds" "bt_get flds field = Some m" for pat flds m
    using inv that unfolding store_inv_def field_inv_def by (metis (mono_tags, lifting) bt_allD)
  have win: "winner (db_store db) pat field \<noteq> None \<longleftrightarrow>
      (\<exists>flds. (pat, flds) \<in> set (db_store db) \<and> bt_get flds field \<noteq> None)" for pat
    unfolding bt_get_elem [OF srt, symmetric] using ne [of pat]
    by (auto simp: winner_def precs_def bt_last_def split: option.splits if_splits)
  have "config_exists db ctx offset field \<longleftrightarrow>
      (\<exists>pat. glob_match (resolve ctx offset) pat \<and> winner (db_store db) pat field \<noteq> None)"
    unfolding win by (auto simp: config_exists_def Let_def list_ex_iff)
  then show ?thesis
    using config_find_None [OF inv, of "resolve ctx offset" field]
    by (auto simp: config_get_def Let_def split: option.splits)
qed

theorem config_not_found_iff_witness:
  "fst (config_get (config_init :: int config_db) u32_type None ''a'' ''K'') = Inl (NotFound ''a'' ''K'')"
  using config_not_found_iff [OF cr_init, of u32_type None "''a''" "''K''"]
  by (simp add: config_exists_def config_init_def resolve_def)

definition three_globs :: "int config_db" where
  "three_globs = fst (config_set (fst (config_set (fst (config_set config_init None ''*d'' ''K'' (num_entry 1)))
     None ''ab*c*'' ''K'' (num_entry 2))) None ''ab*d'' ''K'' (num_entry 3))"

lemma three_globs_store:
  "db_store three_globs = [(''*d'', [(''K'', [(1000, num_entry 1)])]),
     (''ab*c*'', [(''K'', [(1000, num_entry 2)])]), (''ab*d'', [(''K'', [(1000, num_entry 3)])])]"
  by (simp add: three_globs_def config_set_def config_init_def resolve_def set_precedence_def Let_def bt_update_def
      bt_get_def default_precedence_def less_char_def)

text \<open>The comparator of the sort is only a partial order, so with incomparable globs among the
  matches the read can return an entry although a strictly more specific matching glob holds the
  field: of the three globs here the read of abcd takes the entry of the first, which the third
  refines.\<close>

theorem config_get_skips_refinement:
  "config_reachable three_globs \<and> fst (config_get three_globs u32_type None ''abcd'' ''K'') = Inr 1 \<and>
   winner (db_store three_globs) ''*d'' ''K'' = Some (num_entry 1) \<and>
   winner (db_store three_globs) ''ab*d'' ''K'' = Some (num_entry 3) \<and>
   glob_match ''abcd'' ''ab*d'' \<and> more_specific ''ab*d'' ''*d'' \<and> \<not> more_specific ''*d'' ''ab*d''"
proof (intro conjI)
  show "config_reachable three_globs" unfolding three_globs_def by (intro config_reachable.intros)
  have "config_find (db_store three_globs) ''abcd'' ''K'' = Some (num_entry 1)"
    unfolding three_globs_store
    by (simp add: config_find_def candidates_def List.map_filter_simps bt_get_def bt_last_def sort_by_def
        specific_lt_def more_specific_def)
  then show "fst (config_get three_globs u32_type None ''abcd'' ''K'') = Inr 1"
    by (simp add: config_get_def resolve_def num_entry_def Let_def)
  show "winner (db_store three_globs) ''*d'' ''K'' = Some (num_entry 1)"
    "winner (db_store three_globs) ''ab*d'' ''K'' = Some (num_entry 3)"
    unfolding three_globs_store by (simp_all add: winner_def precs_def bt_get_def bt_last_def)
qed (simp_all add: more_specific_def)

end
