(* ===== verification/Factory_Model.thy ===== *)
theory Factory_Model
  imports Config_Db
begin

text \<open>
  The factory of \<open>rustdv-methodology/src/factory.rs\<close>: child slots, the registry of component
  makers and the overrides, which are ordinary entries of the configuration database under a
  reserved field prefix. A component node is an abstract type here; a maker is a function from
  unit to a node. The link-time registrations are an argument.
\<close>

section \<open>Data\<close>

type_synonym 'n maker = "unit \<Rightarrow> 'n"

record 'n override =
  ov_make :: "'n maker"
  ov_to :: string

text \<open>What the database stores: the factory's overrides beside the user's own values.\<close>

datatype ('v, 'n) cfg_val = Plain 'v | Ov "'n override"

type_synonym ('v, 'n) fdb = "('v, 'n) cfg_val config_db"

record 'n rustdv_comp =
  rc_inner :: "'n option"
  rc_overridable :: bool
  rc_requested :: "string option"

record 'n component_reg =
  cr_name :: string
  cr_make :: "'n maker"

section \<open>Slots\<close>

definition comp_fixed :: "'n \<Rightarrow> 'n rustdv_comp" where
  "comp_fixed node = \<lparr>rc_inner = Some node, rc_overridable = False, rc_requested = None\<rparr>"

definition comp_overridable :: "'n \<Rightarrow> string \<Rightarrow> 'n rustdv_comp" where
  "comp_overridable node requested =
     \<lparr>rc_inner = Some node, rc_overridable = True, rc_requested = Some requested\<rparr>"

definition take_node :: "'n rustdv_comp \<Rightarrow> 'n rustdv_comp \<times> 'n option" where
  "take_node slot = (slot\<lparr>rc_inner := None\<rparr>, rc_inner slot)"

definition put_node :: "'n rustdv_comp \<Rightarrow> 'n \<Rightarrow> 'n rustdv_comp" where
  "put_node slot node = slot\<lparr>rc_inner := Some node\<rparr>"

definition owner_label :: "('n \<Rightarrow> string) \<Rightarrow> 'n rustdv_comp \<Rightarrow> string" where
  "owner_label node_name slot =
     (case rc_inner slot of Some n \<Rightarrow> node_name n | None \<Rightarrow> ''an unbuilt child slot'')"

definition owner_port_slot :: "('n \<Rightarrow> string \<Rightarrow> 'p option) \<Rightarrow> 'n rustdv_comp \<Rightarrow> string \<Rightarrow> 'p option" where
  "owner_port_slot port_slot slot name =
     (case rc_inner slot of None \<Rightarrow> None | Some n \<Rightarrow> port_slot n name)"

section \<open>Overrides in the database\<close>

definition override_key :: "string \<Rightarrow> string" where
  "override_key requested_name = override_prefix @ requested_name"

definition override_type :: rust_type where
  "override_type = \<lparr>ty_id = 0, ty_name = ''rustdv_methodology::factory::Override''\<rparr>"

definition override_entry :: "'n maker \<Rightarrow> string \<Rightarrow> ('v, 'n) cfg_val entry" where
  "override_entry mk to =
     \<lparr>en_value = Ov \<lparr>ov_make = mk, ov_to = to\<rparr>, en_type = override_type, en_rendered = ''-> '' @ to\<rparr>"

definition store_override :: "('v, 'n) fdb \<Rightarrow> string option \<Rightarrow> string \<Rightarrow> string \<Rightarrow> string \<Rightarrow> 'n maker
    \<Rightarrow> ('v, 'n) fdb" where
  "store_override db ctx offset from_name to_name mk =
     fst (config_set db ctx offset (override_key from_name) (override_entry mk to_name))"

definition set_type_override :: "('v, 'n) fdb \<Rightarrow> string \<Rightarrow> string \<Rightarrow> 'n maker \<Rightarrow> ('v, 'n) fdb" where
  "set_type_override db from_name to_name to_default = store_override db None [star] from_name to_name to_default"

definition set_inst_override :: "('v, 'n) fdb \<Rightarrow> string \<Rightarrow> string \<Rightarrow> string \<Rightarrow> string \<Rightarrow> 'n maker \<Rightarrow> ('v, 'n) fdb" where
  "set_inst_override db ctx path from_name to_name to_default =
     store_override db (Some ctx) path from_name to_name to_default"

definition lookup_override :: "('v, 'n) fdb \<Rightarrow> string \<Rightarrow> string \<Rightarrow> 'n override option" where
  "lookup_override db requested_name abs_path =
     (case fst (config_get db override_type None abs_path (override_key requested_name)) of
        Inr (Ov ov) \<Rightarrow> Some ov
      | _ \<Rightarrow> None)"

definition comp_resolve :: "('v, 'n) fdb \<Rightarrow> 'n rustdv_comp \<Rightarrow> string \<Rightarrow> string \<Rightarrow> 'n rustdv_comp" where
  "comp_resolve db slot ctx_path name =
     (if \<not> rc_overridable slot then slot
      else (case rc_requested slot of
          None \<Rightarrow> slot
        | Some req \<Rightarrow>
            let path = (if ctx_path = [] then name else ctx_path @ dot # name);
                slot' = (case lookup_override db req path of
                    Some ov \<Rightarrow> slot\<lparr>rc_inner := Some (ov_make ov ())\<rparr>
                  | None \<Rightarrow> slot)
            in slot'\<lparr>rc_overridable := False\<rparr>))"

section \<open>The registry\<close>

definition collect_registry :: "'n component_reg list \<Rightarrow> (string \<rightharpoonup> 'n maker)" where
  "collect_registry regs = fold (\<lambda>reg m. m(cr_name reg \<mapsto> cr_make reg)) regs Map.empty"

text \<open>\<open>with_registry\<close> fills the thread-local cache on first use.\<close>

definition with_registry :: "'n component_reg list \<Rightarrow> (string \<rightharpoonup> 'n maker) option
    \<Rightarrow> (string \<rightharpoonup> 'n maker) option \<times> (string \<rightharpoonup> 'n maker)" where
  "with_registry regs cache =
     (case cache of
        None \<Rightarrow> (Some (collect_registry regs), collect_registry regs)
      | Some m \<Rightarrow> (cache, m))"

definition create_by_name :: "(string \<rightharpoonup> 'n maker) \<Rightarrow> string \<Rightarrow> 'n rustdv_comp may_panic" where
  "create_by_name reg name =
     (case reg name of
        Some mk \<Rightarrow> Inr (comp_overridable (mk ()) name)
      | None \<Rightarrow> panics (''Factory::create_by_name: no component registered as '' @ [CHR 0x22] @ name @ [CHR 0x22]))"

definition set_type_override_by_name :: "(string \<rightharpoonup> 'n maker) \<Rightarrow> ('v, 'n) fdb \<Rightarrow> string \<Rightarrow> string
    \<Rightarrow> ('v, 'n) fdb may_panic" where
  "set_type_override_by_name reg db from_name to_name =
     (case reg to_name of
        None \<Rightarrow> panics (''Factory::set_type_override_by_name: '' @ [CHR 0x22] @ to_name @ [CHR 0x22] @
          '' is not registered'')
      | Some mk \<Rightarrow> Inr (store_override db None [star] from_name to_name mk))"

definition factory_print :: "('v, 'n) fdb \<Rightarrow> string list" where
  "factory_print db = ''Factory overrides:'' #
     map (\<lambda>(path, from_ty, to_ty). ''  '' @ pad_right 28 path @ '': '' @ from_ty @ '' -> '' @ to_ty)
       (factory_overrides db)"

section \<open>Lemmas\<close>

lemma override_key_inj [simp]: "override_key a = override_key b \<longleftrightarrow> a = b"
  by (simp add: override_key_def)

lemma lookup_override_find:
  assumes "config_find (db_store db) path (override_key req) = Some (override_entry mk to)"
  shows "lookup_override db req path = Some \<lparr>ov_make = mk, ov_to = to\<rparr>"
  using config_get_found [of db None path "override_key req" "override_entry mk to" override_type] assms
  by (simp add: lookup_override_def resolve_def override_entry_def)

lemma store_override_reachable [keeps]:
  "config_reachable db \<Longrightarrow> config_reachable (store_override db ctx offset f t mk)"
  by (simp add: store_override_def config_reachable.intros)

lemma star_winner_frame:
  assumes "store_inv (db_store db)" "pat \<noteq> resolve ctx offset \<or> field \<noteq> override_key f"
  shows "winner (db_store (store_override db ctx offset f t mk)) pat field = winner (db_store db) pat field"
  using assms by (auto simp: store_override_def config_set_def Let_def winner_def precs_set)

lemma lookup_override_frame:
  assumes "store_inv (db_store db)" "req \<noteq> f \<or> \<not> glob_match path (resolve ctx offset)"
  shows "lookup_override (store_override db ctx offset f t mk) req path = lookup_override db req path"
proof -
  have "config_find (db_store (store_override db ctx offset f t mk)) path (override_key req) =
      config_find (db_store db) path (override_key req)"
    unfolding store_override_def config_set_def Let_def
    using config_find_frame [OF assms(1), of "override_key req" "override_key f" path "resolve ctx offset"] assms(2)
    by auto
  then show ?thesis by (simp add: lookup_override_def config_get_def Let_def resolve_def split: option.splits)
qed

lemma comp_resolve_found:
  assumes "lookup_override db req (if ctx = [] then name else ctx @ dot # name) = Some ov"
  shows "comp_resolve db (comp_overridable n req) ctx name =
    \<lparr>rc_inner = Some (ov_make ov ()), rc_overridable = False, rc_requested = Some req\<rparr>"
  using assms by (simp add: comp_resolve_def comp_overridable_def Let_def)

lemma fold_registry:
  "fold (\<lambda>reg m. m(cr_name reg \<mapsto> cr_make reg)) regs m0 =
     m0 ++ map_of (rev (map (\<lambda>reg. (cr_name reg, cr_make reg)) regs))"
  by (induction regs arbitrary: m0) auto

section \<open>Properties\<close>

text \<open>C39: An instance override decides what the build walk puts in the slot at its path, whatever type-wide
  override for the same type is installed before or after it, and the slot is then closed to further
  overrides. It may be installed by any component (a test addressing env.tc1, say) during build
  or outside it; what it needs is that no instance override of higher precedence is already there for
  the same path and type, which a shallower component could have installed during build and which
  cannot be there outside build.\<close>

theorem inst_override_beats_type_override:
  assumes "config_reachable (db :: ('v, 'n) fdb)" "ctx \<noteq> []" "star \<notin> set (ctx @ dot # name)"
    and "resolve (Some installer) offset = ctx @ dot # name"
    and "\<And>k. db_in_build db \<Longrightarrow> bt_get (precs (db_store db) (ctx @ dot # name) (override_key req)) k \<noteq> None \<Longrightarrow>
      k \<le> set_precedence db (Some installer)"
  shows "comp_resolve (set_type_override (set_inst_override db installer offset req i_to i_make) req t_to t_make)
           (comp_overridable dflt req) ctx name =
         \<lparr>rc_inner = Some (i_make ()), rc_overridable = False, rc_requested = Some req\<rparr>
    \<and> comp_resolve (set_inst_override (set_type_override db req t_to t_make) installer offset req i_to i_make)
           (comp_overridable dflt req) ctx name =
         \<lparr>rc_inner = Some (i_make ()), rc_overridable = False, rc_requested = Some req\<rparr>"
proof -
  let ?path = "ctx @ dot # name" and ?e = "override_entry i_make i_to"
  have star: "?path \<noteq> [star]" using assms(2) by (cases ctx) auto
  have top: "k \<le> set_precedence db (Some installer)" if "bt_get (precs (db_store db) ?path (override_key req)) k \<noteq> None" for k
    using assms(5) that precs_bounded [OF config_reachable_inv [OF assms(1)] that]
    by (cases "db_in_build db") (auto simp: set_precedence_def)
  have inst: "winner (db_store (set_inst_override d installer offset req i_to i_make)) ?path (override_key req) = Some ?e"
    if "config_reachable d" "set_precedence d (Some installer) = set_precedence db (Some installer)"
      "precs (db_store d) ?path (override_key req) = precs (db_store db) ?path (override_key req)" for d :: "('v, 'n) fdb"
    unfolding set_inst_override_def store_override_def
    by (rule config_set_winner [OF config_reachable_inv [OF that(1)] assms(4) refl]) (use that(2,3) top in auto)
  have found: "comp_resolve d (comp_overridable dflt req) ctx name =
      \<lparr>rc_inner = Some (i_make ()), rc_overridable = False, rc_requested = Some req\<rparr>"
    if "config_reachable d" "winner (db_store d) ?path (override_key req) = Some ?e" for d :: "('v, 'n) fdb"
  proof -
    have "lookup_override d req ?path = Some \<lparr>ov_make = i_make, ov_to = i_to\<rparr>"
      by (rule lookup_override_find, rule exact_found [OF config_reachable_inv [OF that(1)] assms(3) that(2)])
    then show ?thesis using comp_resolve_found [of d req ctx name] assms(2) by simp
  qed
  have reach: "config_reachable (set_inst_override db installer offset req i_to i_make)"
    "config_reachable (set_type_override db req t_to t_make)"
    using assms(1) by (auto simp: set_inst_override_def set_type_override_def intro: keeps)
  have "winner (db_store (set_type_override (set_inst_override db installer offset req i_to i_make) req t_to t_make))
      ?path (override_key req) = Some ?e"
    unfolding set_type_override_def
    by (subst star_winner_frame [OF config_reachable_inv [OF reach(1)]])
      (use inst [OF assms(1)] star in \<open>auto simp: resolve_def\<close>)
  moreover have "set_precedence (set_type_override db req t_to t_make) (Some installer) = set_precedence db (Some installer)"
    by (simp add: set_type_override_def store_override_def set_precedence_def)
  moreover have "precs (db_store (set_type_override db req t_to t_make)) ?path (override_key req) =
      precs (db_store db) ?path (override_key req)"
    using star config_reachable_inv [OF assms(1)]
    by (auto simp: set_type_override_def store_override_def config_set_def Let_def precs_set resolve_def)
  ultimately show ?thesis
    using found inst reach
    by (auto simp: set_inst_override_def set_type_override_def intro: keeps)
qed

text \<open>A type override reaches exactly the slots that request the overridden type: a slot for
  another type resolves as it would have without it, a fixed slot is never touched, and a slot
  for that type with no other override at its path gets the replacement.\<close>

theorem type_override_scope:
  assumes "config_reachable (db :: ('v, 'n) fdb)"
  shows "(req \<noteq> from_name \<longrightarrow>
      comp_resolve (set_type_override db from_name to_name mk) (comp_overridable dflt req) ctx name =
      comp_resolve db (comp_overridable dflt req) ctx name) \<and>
    comp_resolve (set_type_override db from_name to_name mk) (comp_fixed dflt) ctx name = comp_fixed dflt \<and>
    ((\<forall>pat. winner (db_store db) pat (override_key from_name) = None) \<longrightarrow> ctx \<noteq> [] \<longrightarrow>
      rc_inner (comp_resolve (set_type_override db from_name to_name mk) (comp_overridable dflt from_name) ctx name)
        = Some (mk ()))"
proof (intro conjI)
  note inv = config_reachable_inv [OF assms]
  show "req \<noteq> from_name \<longrightarrow>
      comp_resolve (set_type_override db from_name to_name mk) (comp_overridable dflt req) ctx name =
      comp_resolve db (comp_overridable dflt req) ctx name"
    by (simp add: comp_resolve_def comp_overridable_def Let_def set_type_override_def lookup_override_frame [OF inv])
  show "comp_resolve (set_type_override db from_name to_name mk) (comp_fixed dflt) ctx name = comp_fixed dflt"
    by (simp add: comp_resolve_def comp_fixed_def)
  show "(\<forall>pat. winner (db_store db) pat (override_key from_name) = None) \<longrightarrow> ctx \<noteq> [] \<longrightarrow>
      rc_inner (comp_resolve (set_type_override db from_name to_name mk) (comp_overridable dflt from_name) ctx name)
        = Some (mk ())"
  proof (intro impI)
    assume none: "\<forall>pat. winner (db_store db) pat (override_key from_name) = None" and ctx: "ctx \<noteq> []"
    let ?db = "set_type_override db from_name to_name mk" and ?k = "override_key from_name"
    have e: "precs (db_store db) [star] ?k = []" using none by (simp add: winner_def)
    have w: "winner (db_store ?db) [star] ?k = Some (override_entry mk to_name)"
      unfolding set_type_override_def store_override_def
      by (rule config_set_winner [OF inv]) (auto simp: resolve_def e)
    have "config_find (db_store ?db) (ctx @ dot # name) ?k = Some (override_entry mk to_name)"
    proof (rule winner_found [OF _ _ w])
      show "store_inv (db_store ?db)"
        using inv by (simp add: set_type_override_def store_override_def config_set_inv)
      show "glob_match (ctx @ dot # name) [star]" by (simp add: glob_match_globs globs_star)
      fix q assume "q \<noteq> [star]" "winner (db_store ?db) q ?k \<noteq> None"
      then show "more_specific [star] q \<and> \<not> more_specific q [star]"
        using none star_winner_frame [OF inv, of q None "[star]" ?k from_name to_name mk]
        by (auto simp: set_type_override_def resolve_def)
    qed
    from comp_resolve_found [of ?db from_name ctx name, simplified ctx] lookup_override_find [OF this]
    show "rc_inner (comp_resolve ?db (comp_overridable dflt from_name) ctx name) = Some (mk ())"
      using ctx by simp
  qed
qed

definition factory_demo :: "(nat, string) fdb" where
  "factory_demo = config_init"

theorem inst_override_beats_type_override_witness:
  "rc_inner (comp_resolve (set_type_override (set_inst_override (set_in_build factory_demo True) ''T'' ''env.tc1'' ''Tc'' ''I'' (\<lambda>_. ''i''))
      ''Tc'' ''X'' (\<lambda>_. ''x'')) (comp_overridable ''d'' ''Tc'') ''T.env'' ''tc1'') = Some ''i''"
proof -
  have "config_reachable (set_in_build factory_demo True)" unfolding factory_demo_def by (intro config_reachable.intros)
  moreover have "precs (db_store (set_in_build factory_demo True)) p f = []" for p f
    by (simp add: factory_demo_def config_init_def set_in_build_def precs_def)
  moreover have "star \<notin> set (''T.env'' @ dot # ''tc1'')" "resolve (Some ''T'') ''env.tc1'' = ''T.env'' @ dot # ''tc1''"
    by (simp_all add: resolve_def)
  ultimately show ?thesis
    using inst_override_beats_type_override [of "set_in_build factory_demo True" "''T.env''" "''tc1''" "''T''" "''env.tc1''" "''Tc''"
        "''I''" "\<lambda>_. ''i''" "''X''" "\<lambda>_. ''x''" "''d''"] by simp
qed

theorem type_override_scope_witness:
  "rc_inner (comp_resolve (set_type_override factory_demo ''Drv'' ''T'' (\<lambda>_. ''t'')) (comp_overridable ''d'' ''Drv'')
      ''top'' ''drv'') = Some ''t''"
proof -
  have "config_reachable factory_demo" by (simp add: factory_demo_def cr_init)
  moreover have "winner (db_store factory_demo) pat f = None" for pat f
    by (simp add: factory_demo_def config_init_def winner_def precs_def)
  ultimately show ?thesis
    using type_override_scope [of factory_demo "''X''" "''Drv''" "''T''" "\<lambda>_. ''t''" "''d''" "''top''" "''drv''"] by simp
qed

end
