(* ===== verification/Component_Model.thy ===== *)
theory Component_Model
  imports Factory_Model "HOL-Library.Multiset"
begin

text \<open>
  The component tree and the phaser of \<open>rustdv-methodology/src/component.rs\<close>, with the child
  visitors that the derive macro of \<open>rustdv-macros\<close> generates. A node carries the state of the
  user's component and its child fields in declaration order. What a component does in a phase
  is user code: the walks take it as an argument, a function of the component's path, the node
  and the world, which is the configuration database and anything else. A build hook may create
  children, so a walk whose hook can change the tree is bounded by fuel, and enough fuel is
  shown to give a result. The run phase is modelled by its outcome: which components run,
  which error is returned and how the tree is put back together; \<open>Run_Phase\<close> has its futures.
\<close>

section \<open>The tree\<close>

record port_info =
  pi_name :: string
  pi_kind :: string
  pi_required :: bool
  pi_connected :: bool

datatype 'u node =
    Node (nd_name: string) (nd_user: 'u) (nd_ports: "port_info list") (nd_fields: "(string \<times> 'u field) list")
and 'u field =
    FComp "'u node option" bool "string option"
  | FOption "'u node option"
  | FVec "'u node list"
  | FPlain "'u node"

definition vec_label :: "string \<Rightarrow> nat \<Rightarrow> string" where
  "vec_label name i = name @ ''['' @ dec_string i @ '']''"

text \<open>The statements the derive emits for one child field.\<close>

fun visit :: "string \<times> 'u field \<Rightarrow> (string \<times> 'u node) list" where
  "visit (name, FComp inner ov req) = (case inner of Some c \<Rightarrow> [(name, c)] | None \<Rightarrow> [])"
| "visit (name, FOption inner) = (case inner of Some c \<Rightarrow> [(name, c)] | None \<Rightarrow> [])"
| "visit (name, FVec cs) = map (\<lambda>(i, c). (vec_label name i, c)) (List.enumerate 0 cs)"
| "visit (name, FPlain c) = [(name, c)]"

definition children_mut :: "'u node \<Rightarrow> (string \<times> 'u node) list" where
  "children_mut n = concat (map visit (nd_fields n))"

text \<open>The mutable references end up back in their fields.\<close>

lemma field_cases:
  obtains (comp) name inner ov req where "nf = (name, FComp inner ov req)"
  | (opt) name inner where "nf = (name, FOption inner)"
  | (vec) name cs where "nf = (name, FVec cs)"
  | (plain) name c where "nf = (name, FPlain c)"
  by (cases nf; cases "snd nf") auto

fun put_field :: "'u field \<Rightarrow> 'u node list \<Rightarrow> 'u field \<times> 'u node list" where
  "put_field (FComp (Some c) ov req) (x # xs) = (FComp (Some x) ov req, xs)"
| "put_field (FOption (Some c)) (x # xs) = (FOption (Some x), xs)"
| "put_field (FVec cs) xs = (FVec (take (length cs) xs), drop (length cs) xs)"
| "put_field (FPlain c) (x # xs) = (FPlain x, xs)"
| "put_field f xs = (f, xs)"

fun put_fields :: "(string \<times> 'u field) list \<Rightarrow> 'u node list \<Rightarrow> (string \<times> 'u field) list" where
  "put_fields [] xs = []"
| "put_fields ((name, f) # fs) xs = (let (f', ys) = put_field f xs in (name, f') # put_fields fs ys)"

definition put_children :: "'u node \<Rightarrow> 'u node list \<Rightarrow> 'u node" where
  "put_children n cs = Node (nd_name n) (nd_user n) (nd_ports n) (put_fields (nd_fields n) cs)"

fun take_field :: "string \<times> 'u field \<Rightarrow> (string \<times> 'u field) \<times> (string \<times> 'u node) list" where
  "take_field (name, FComp inner ov req) =
     ((name, FComp None ov req), (case inner of Some c \<Rightarrow> [(name, c)] | None \<Rightarrow> []))"
| "take_field (name, f) = ((name, f), [])"

definition take_children :: "'u node \<Rightarrow> 'u node \<times> (string \<times> 'u node) list" where
  "take_children n =
     (Node (nd_name n) (nd_user n) (nd_ports n) (map (\<lambda>f. fst (take_field f)) (nd_fields n)),
      concat (map (\<lambda>f. snd (take_field f)) (nd_fields n)))"

fun restore_field :: "string \<times> 'u node \<Rightarrow> (string \<times> 'u field) list \<Rightarrow> (string \<times> 'u field) list" where
  "restore_field kc [] = []"
| "restore_field kc ((name, FComp inner ov req) # fs) =
     (if fst kc = name then (name, FComp (Some (snd kc)) ov req) # fs
      else (name, FComp inner ov req) # restore_field kc fs)"
| "restore_field kc (f # fs) = f # restore_field kc fs"

definition restore_children :: "'u node \<Rightarrow> (string \<times> 'u node) list \<Rightarrow> 'u node" where
  "restore_children n taken =
     Node (nd_name n) (nd_user n) (nd_ports n) (fold restore_field taken (nd_fields n))"

section \<open>The phases\<close>

type_synonym ('u, 'v, 'w) world = "('v, 'u node) fdb \<times> 'w"
type_synonym ('u, 'w) hook = "rustdv_path \<Rightarrow> 'u node \<Rightarrow> 'w \<Rightarrow> 'u node \<times> 'w"

fun resolve_field :: "('v, 'u node) fdb \<Rightarrow> string \<Rightarrow> string \<times> 'u field \<Rightarrow> string \<times> 'u field" where
  "resolve_field db ctx_path (name, FComp inner ov req) =
     (let slot = comp_resolve db \<lparr>rc_inner = inner, rc_overridable = ov, rc_requested = req\<rparr> ctx_path name
      in (name, FComp (rc_inner slot) (rc_overridable slot) (rc_requested slot)))"
| "resolve_field db ctx_path (name, f) = (name, f)"

definition resolve_children :: "('v, 'u node) fdb \<Rightarrow> rustdv_path \<Rightarrow> 'u node \<Rightarrow> 'u node" where
  "resolve_children db p n =
     Node (nd_name n) (nd_user n) (nd_ports n) (map (resolve_field db (rp_rendered p)) (nd_fields n))"

fun walk_kids :: "(rustdv_path \<Rightarrow> 'u node \<Rightarrow> 'w \<Rightarrow> ('u node \<times> 'w) option) \<Rightarrow> rustdv_path
    \<Rightarrow> (string \<times> 'u node) list \<Rightarrow> 'w \<Rightarrow> ('u node list \<times> 'w) option" where
  "walk_kids f p [] w = Some ([], w)"
| "walk_kids f p ((name, c) # cs) w =
     (case f (path_child p name) c w of
        None \<Rightarrow> None
      | Some (c', w') \<Rightarrow>
          (case walk_kids f p cs w' of None \<Rightarrow> None | Some (cs', w'') \<Rightarrow> Some (c' # cs', w'')))"

text \<open>Top-down: the node acts, then the children it has now. Bottom-up: children first.\<close>

fun top_down :: "nat \<Rightarrow> ('u, 'w) hook \<Rightarrow> rustdv_path \<Rightarrow> 'u node \<Rightarrow> 'w \<Rightarrow> ('u node \<times> 'w) option" where
  "top_down 0 h p n w = None"
| "top_down (Suc k) h p n w =
     (let (n1, w1) = h p n w in
      map_option (\<lambda>(cs, w2). (put_children n1 cs, w2)) (walk_kids (\<lambda>p n w. top_down k h p n w) p (children_mut n1) w1))"

fun bottom_up :: "nat \<Rightarrow> ('u, 'w) hook \<Rightarrow> rustdv_path \<Rightarrow> 'u node \<Rightarrow> 'w \<Rightarrow> ('u node \<times> 'w) option" where
  "bottom_up 0 h p n w = None"
| "bottom_up (Suc k) h p n w =
     map_option (\<lambda>(cs, w1). h p (put_children n cs) w1)
       (walk_kids (\<lambda>p n w. bottom_up k h p n w) p (children_mut n) w)"

datatype phase = Ph_build | Ph_connect | Ph_end_of_elaboration | Ph_start_of_simulation | Ph_start | Ph_run | Ph_extract
  | Ph_check | Ph_report | Ph_final

record ('u, 'v, 'w) hooks =
  hk_phase :: "phase \<Rightarrow> ('u, ('u, 'v, 'w) world) hook"
  hk_check :: "rustdv_path \<Rightarrow> 'u node \<Rightarrow> ('u, 'v, 'w) world \<Rightarrow> 'u node \<times> ('u, 'v, 'w) world \<times> string list"

text \<open>\<open>build_all\<close> resolves the factory slots of a node right after its build hook.\<close>

definition build_hook :: "('u, 'v, 'w) hooks \<Rightarrow> ('u, ('u, 'v, 'w) world) hook" where
  "build_hook hk p n w = (let (n1, w1) = hk_phase hk Ph_build p n w in (resolve_children (fst w1) p n1, w1))"

definition build_all :: "nat \<Rightarrow> ('u, 'v, 'w) hooks \<Rightarrow> rustdv_path \<Rightarrow> 'u node \<Rightarrow> ('u, 'v, 'w) world
    \<Rightarrow> ('u node \<times> ('u, 'v, 'w) world) option" where
  "build_all k hk = top_down k (build_hook hk)"

definition connect_all :: "nat \<Rightarrow> ('u, 'v, 'w) hooks \<Rightarrow> rustdv_path \<Rightarrow> 'u node \<Rightarrow> ('u, 'v, 'w) world
    \<Rightarrow> ('u node \<times> ('u, 'v, 'w) world) option" where
  "connect_all k hk = bottom_up k (hk_phase hk Ph_connect)"

definition end_of_elaboration_all :: "nat \<Rightarrow> ('u, 'v, 'w) hooks \<Rightarrow> rustdv_path \<Rightarrow> 'u node \<Rightarrow> ('u, 'v, 'w) world
    \<Rightarrow> ('u node \<times> ('u, 'v, 'w) world) option" where
  "end_of_elaboration_all k hk = top_down k (hk_phase hk Ph_end_of_elaboration)"

definition start_of_simulation_all :: "nat \<Rightarrow> ('u, 'v, 'w) hooks \<Rightarrow> rustdv_path \<Rightarrow> 'u node \<Rightarrow> ('u, 'v, 'w) world
    \<Rightarrow> ('u node \<times> ('u, 'v, 'w) world) option" where
  "start_of_simulation_all k hk = top_down k (hk_phase hk Ph_start_of_simulation)"

definition start_all :: "nat \<Rightarrow> ('u, 'v, 'w) hooks \<Rightarrow> rustdv_path \<Rightarrow> 'u node \<Rightarrow> ('u, 'v, 'w) world
    \<Rightarrow> ('u node \<times> ('u, 'v, 'w) world) option" where
  "start_all k hk = bottom_up k (hk_phase hk Ph_start)"

definition extract_all :: "nat \<Rightarrow> ('u, 'v, 'w) hooks \<Rightarrow> rustdv_path \<Rightarrow> 'u node \<Rightarrow> ('u, 'v, 'w) world
    \<Rightarrow> ('u node \<times> ('u, 'v, 'w) world) option" where
  "extract_all k hk = top_down k (hk_phase hk Ph_extract)"

definition report_all :: "nat \<Rightarrow> ('u, 'v, 'w) hooks \<Rightarrow> rustdv_path \<Rightarrow> 'u node \<Rightarrow> ('u, 'v, 'w) world
    \<Rightarrow> ('u node \<times> ('u, 'v, 'w) world) option" where
  "report_all k hk = top_down k (hk_phase hk Ph_report)"

definition final_all :: "nat \<Rightarrow> ('u, 'v, 'w) hooks \<Rightarrow> rustdv_path \<Rightarrow> 'u node \<Rightarrow> ('u, 'v, 'w) world
    \<Rightarrow> ('u node \<times> ('u, 'v, 'w) world) option" where
  "final_all k hk = top_down k (hk_phase hk Ph_final)"

section \<open>Checks\<close>

text \<open>\<open>CheckSink\<close> collects messages in order; a check hook returns the ones it adds.\<close>

definition check_hook :: "('u, 'v, 'w) hooks \<Rightarrow> ('u, ('u, 'v, 'w) world \<times> string list) hook" where
  "check_hook hk p n ws = (let (n', w', errs) = hk_check hk p n (fst ws) in (n', (w', snd ws @ errs)))"

definition check_all :: "nat \<Rightarrow> ('u, 'v, 'w) hooks \<Rightarrow> rustdv_path \<Rightarrow> 'u node \<Rightarrow> ('u, 'v, 'w) world \<times> string list
    \<Rightarrow> ('u node \<times> ('u, 'v, 'w) world \<times> string list) option" where
  "check_all k hk = top_down k (check_hook hk)"

definition join_semicolon :: "string list \<Rightarrow> string" where
  "join_semicolon ss = (case ss of [] \<Rightarrow> [] | s # rest \<Rightarrow> s @ concat (map (\<lambda>t. ''; '' @ t) rest))"

definition sink_into_result :: "string list \<Rightarrow> string option" where
  "sink_into_result errors =
     (if errors = [] then None
      else Some (dec_string (length errors) @ '' check failure(s): '' @ join_semicolon errors))"

record test_error =
  ter_msg :: string
  ter_kind :: "string option"

definition test_error_new :: "string \<Rightarrow> test_error" where
  "test_error_new msg = \<lparr>ter_msg = msg, ter_kind = None\<rparr>"

definition test_error_with_kind :: "string \<Rightarrow> string \<Rightarrow> test_error" where
  "test_error_with_kind msg kind = \<lparr>ter_msg = msg, ter_kind = Some kind\<rparr>"

definition run_extract_check_report :: "nat \<Rightarrow> ('u, 'v, 'w) hooks \<Rightarrow> rustdv_path \<Rightarrow> 'u node \<Rightarrow> ('u, 'v, 'w) world
    \<Rightarrow> ('u node \<times> ('u, 'v, 'w) world \<times> string option) option" where
  "run_extract_check_report k hk p n w =
     (case extract_all k hk p n w of None \<Rightarrow> None | Some (n1, w1) \<Rightarrow>
     (case check_all k hk p n1 (w1, []) of None \<Rightarrow> None | Some (n2, w2, errs) \<Rightarrow>
     (case report_all k hk p n2 w2 of None \<Rightarrow> None | Some (n3, w3) \<Rightarrow>
     (case final_all k hk p n3 w3 of None \<Rightarrow> None | Some (n4, w4) \<Rightarrow>
       Some (n4, w4, sink_into_result errs)))))"

section \<open>Connections\<close>

lemma visit_size: "(name, c) \<in> set (visit f) \<Longrightarrow> size c < size (snd f)"
proof (cases f rule: visit.cases)
  case (3 nm cs)
  moreover assume "(name, c) \<in> set (visit f)"
  ultimately have "c \<in> set cs" by (auto simp: in_set_enumerate_eq)
  then have "size c \<le> size_list size cs" by (rule size_list_estimation') simp
  with 3 show ?thesis by simp
qed (auto split: option.splits)

lemma children_size: "(name, c) \<in> set (children_mut n) \<Longrightarrow> size c < size n"
proof -
  assume "(name, c) \<in> set (children_mut n)"
  then obtain f where f: "f \<in> set (nd_fields n)" "(name, c) \<in> set (visit f)"
    by (auto simp: children_mut_def)
  have "size (snd f) \<le> size_list (size_prod (\<lambda>x. 0) size) (nd_fields n)"
    using f(1) by (rule size_list_estimation') (cases f, simp)
  then have "size (snd f) < size n" by (cases n) simp
  with visit_size [OF f(2)] show ?thesis by simp
qed

function unconnected_ports :: "rustdv_path \<Rightarrow> 'u node \<Rightarrow> string list" where
  "unconnected_ports p n =
     map (\<lambda>i. (if rp_rendered p = [] then ''(top)'' else rp_rendered p) @ ''.'' @ pi_name i @ '' ('' @ pi_kind i @ '')'')
       (filter (\<lambda>i. pi_required i \<and> \<not> pi_connected i) (nd_ports n)) @
     concat (map (\<lambda>(name, c). unconnected_ports (path_child p name) c) (children_mut n))"
  by pat_completeness auto
termination by (relation "measure (\<lambda>(p, n). size n)") (auto dest: children_size)

declare unconnected_ports.simps [simp del]

definition check_connections :: "rustdv_path \<Rightarrow> 'u node \<Rightarrow> test_error option" where
  "check_connections p n =
     (let missing = unconnected_ports p n in
      if missing = [] then None
      else Some (test_error_with_kind
        (''these TLM ports were declared but never connected:'' @ concat (map (\<lambda>m. CHR 0x0A # ''  '' @ m) missing))
        ''tlm_unconnected_port''))"

section \<open>The run phase, by its outcome\<close>

text \<open>\<open>one\<close> is what \<open>run_one\<close> comes to for a component: its final state and its result, which is
  no error when the objection consensus stopped it. All the futures joined by \<open>join_all\<close> run to
  their end, so the results are those of every one of them, in order.\<close>

definition first_error :: "'e option list \<Rightarrow> 'e option" where
  "first_error rs = (case filter (\<lambda>r. r \<noteq> None) rs of [] \<Rightarrow> None | r # _ \<Rightarrow> r)"

definition run_one :: "(rustdv_path \<Rightarrow> 'u \<Rightarrow> 'u \<times> test_error option) \<Rightarrow> rustdv_path \<Rightarrow> 'u node
    \<Rightarrow> 'u node \<times> test_error option" where
  "run_one one p n = (let (u, r) = one p (nd_user n) in (Node (nd_name n) u (nd_ports n) (nd_fields n), r))"

lemma take_field_visits:
  "set (visit (fst (take_field f))) \<subseteq> set (visit f)" "set (snd (take_field f)) \<subseteq> set (visit f)"
  by (cases f rule: take_field.cases; auto split: option.splits)+

lemma taken_size: "(name, c) \<in> set (snd (take_children n)) \<Longrightarrow> size c < size n"
  using take_field_visits(2) by (intro children_size [of name]) (fastforce simp: take_children_def children_mut_def)

lemma kept_size: "(name, c) \<in> set (children_mut (fst (take_children n))) \<Longrightarrow> size c < size n"
  using take_field_visits(1) by (intro children_size [of name]) (fastforce simp: take_children_def children_mut_def)

function run_all :: "(rustdv_path \<Rightarrow> 'u \<Rightarrow> 'u \<times> test_error option) \<Rightarrow> rustdv_path \<Rightarrow> 'u node
    \<Rightarrow> 'u node \<times> test_error option" where
  "run_all one p n =
     (let kept = map (\<lambda>(name, c). run_all one (path_child p name) c) (children_mut (fst (take_children n)));
          n2 = put_children (fst (take_children n)) (map fst kept)
      in (case first_error (map snd kept) of
            Some e \<Rightarrow> (restore_children n2 (snd (take_children n)), Some e)
          | None \<Rightarrow>
              if snd (take_children n) = [] then run_one one p n2
              else
                let outs = map (\<lambda>(name, c). (name, run_all one (path_child p name) c)) (snd (take_children n));
                    (n3, r) = run_one one p n2;
                    outcome = first_error (map (snd \<circ> snd) outs @ [r])
                in (restore_children n3 (map (\<lambda>(name, c, _). (name, c)) outs), outcome)))"
  by pat_completeness auto
termination
  by (relation "measure (\<lambda>(one, p, n). size n)") (auto dest: kept_size taken_size)

declare run_all.simps [simp del]

text \<open>The user code of the run phase: what each component comes to and the world they leave, which depends
  on the tree and the world the phase starts from.\<close>

type_synonym ('u, 'v, 'w) run_code =
  "rustdv_path \<Rightarrow> 'u node \<Rightarrow> ('u, 'v, 'w) world \<Rightarrow> (rustdv_path \<Rightarrow> 'u \<Rightarrow> 'u \<times> test_error option) \<times> ('u, 'v, 'w) world"

definition run_component_test :: "nat \<Rightarrow> ('u, 'v, 'w) hooks \<Rightarrow> ('u, 'v, 'w) run_code
    \<Rightarrow> rustdv_path \<Rightarrow> 'u node \<Rightarrow> ('u, 'v, 'w) world
    \<Rightarrow> ('u node \<times> ('u, 'v, 'w) world \<times> test_error option) option" where
  "run_component_test k hk run p n w =
     (case build_all k hk p n (set_in_build (fst w) True, snd w) of None \<Rightarrow> None | Some (n1, w1) \<Rightarrow>
     (case connect_all k hk p n1 (set_in_build (fst w1) False, snd w1) of None \<Rightarrow> None | Some (n2, w2) \<Rightarrow>
     (case check_connections p n2 of
        Some e \<Rightarrow> Some (n2, w2, Some e)
      | None \<Rightarrow>
     (case end_of_elaboration_all k hk p n2 w2 of None \<Rightarrow> None | Some (n3, w3) \<Rightarrow>
     (case start_of_simulation_all k hk p n3 w3 of None \<Rightarrow> None | Some (n4, w4) \<Rightarrow>
       (let (one, w5) = run p n4 w4; (n5, run_result) = run_all one p n4 in
       (case run_extract_check_report k hk p n5 w5 of None \<Rightarrow> None | Some (n6, w6, post) \<Rightarrow>
          Some (n6, w6, (case run_result of Some e \<Rightarrow> Some e | None \<Rightarrow> map_option test_error_new post)))))))))"

section \<open>The shape of a tree\<close>

text \<open>The child names of a node with their subtrees, and which names are factory slots.\<close>

datatype rose = Rose "string list" "(string \<times> rose) list"

definition comp_names :: "(string \<times> 'u field) list \<Rightarrow> string list" where
  "comp_names fs = map fst (filter (\<lambda>(_, f). case f of FComp _ _ _ \<Rightarrow> True | _ \<Rightarrow> False) fs)"

definition comp_label :: "string \<times> 'u field \<Rightarrow> string list" where
  "comp_label nf = (case snd nf of FComp _ _ _ \<Rightarrow> [fst nf] | _ \<Rightarrow> [])"

lemma comp_names_Cons: "comp_names (nf # fs) = comp_label nf @ comp_names fs"
  by (cases nf; cases "snd nf") (simp_all add: comp_names_def comp_label_def)

function skel :: "'u node \<Rightarrow> rose" where
  "skel n = Rose (comp_names (nd_fields n)) (map (\<lambda>(name, c). (name, skel c)) (children_mut n))"
  by pat_completeness auto
termination by (relation "measure size") (auto dest: children_size)

declare skel.simps [simp del]

fun pre_order :: "rustdv_path \<Rightarrow> rose \<Rightarrow> rustdv_path list" where
  "pre_order p (Rose ns ks) = p # concat (map (\<lambda>(name, r). pre_order (path_child p name) r) ks)"

fun post_order :: "rustdv_path \<Rightarrow> rose \<Rightarrow> rustdv_path list" where
  "post_order p (Rose ns ks) = concat (map (\<lambda>(name, r). post_order (path_child p name) r) ks) @ [p]"

fun depth :: "rose \<Rightarrow> nat" where
  "depth (Rose ns ks) = Suc (Max (insert 0 (set (map (\<lambda>(name, r). depth r) ks))))"

lemma depth_child: "(name, r) \<in> set ks \<Longrightarrow> depth r < depth (Rose ns ks)"
  by (auto simp: less_Suc_eq_le intro!: Max_ge rev_image_eqI)

lemma depth_skel_child: "(name, c) \<in> set (children_mut n) \<Longrightarrow> depth (skel c) < depth (skel n)"
  by (subst (2) skel.simps) (rule depth_child [of name], force)

text \<open>Putting as many children back as were taken gives a node with the same child names.\<close>

lemma put_field_spec:
  assumes "length (visit (name, f)) \<le> length xs"
  shows "visit (name, fst (put_field f xs)) = zip (map fst (visit (name, f))) (take (length (visit (name, f))) xs)
    \<and> snd (put_field f xs) = drop (length (visit (name, f))) xs"
proof (cases "(f, xs)" rule: put_field.cases)
  case (3 cs ys)
  have e: "map (\<lambda>(i, c). (vec_label name i, c)) (List.enumerate k zs) = zip (map (vec_label name) [k..<k + length zs]) zs"
    for k and zs :: "'a node list"
    by (induction zs arbitrary: k) (auto simp: upt_rec)
  have "map (fst \<circ> (\<lambda>(i, c). (vec_label name i, c))) (List.enumerate 0 cs) = map (vec_label name) [0..<length cs]"
    by (rule nth_equalityI) (auto simp: nth_enumerate_eq)
  with e [of 0 "take (length cs) xs"] show ?thesis using 3 assms by simp
qed (use assms in \<open>auto split: option.splits\<close>)

lemma put_fields_visits:
  "length (concat (map visit fs)) = length xs \<Longrightarrow>
     concat (map visit (put_fields fs xs)) = zip (map fst (concat (map visit fs))) xs"
proof (induction fs arbitrary: xs)
  case (Cons nf fs)
  obtain name f where nf: "nf = (name, f)" by (cases nf)
  let ?l = "length (visit (name, f))"
  obtain f' ys where p: "put_field f xs = (f', ys)" by (cases "put_field f xs")
  have l: "?l \<le> length xs" using Cons.prems by (simp add: nf)
  from put_field_spec [OF l] p have f': "visit (name, f') = zip (map fst (visit (name, f))) (take ?l xs)"
    and ys: "ys = drop ?l xs" by simp_all
  have "concat (map visit (put_fields fs ys)) = zip (map fst (concat (map visit fs))) ys"
    by (rule Cons.IH) (use Cons.prems ys nf in simp)
  then have "concat (map visit (put_fields (nf # fs) xs)) =
      zip (map fst (visit (name, f))) (take ?l xs) @ zip (map fst (concat (map visit fs))) (drop ?l xs)"
    by (simp add: nf p f' ys)
  also have "\<dots> = zip (map fst (visit (name, f)) @ map fst (concat (map visit fs))) (take ?l xs @ drop ?l xs)"
    using l by (subst zip_append) simp_all
  finally show ?case by (simp add: nf)
qed simp

lemma comp_names_put: "comp_names (put_fields fs xs) = comp_names fs"
proof (induction fs arbitrary: xs)
  case (Cons nf fs)
  obtain name f where nf: "nf = (name, f)" by (cases nf)
  have "comp_label (name, fst (put_field f xs)) = comp_label (name, f)"
    by (cases "(f, xs)" rule: put_field.cases) (simp_all add: comp_label_def)
  with Cons show ?case by (simp add: nf split_def Let_def comp_names_Cons)
qed (simp add: comp_names_def)

lemma children_put: "length xs = length (children_mut n) \<Longrightarrow>
    children_mut (put_children n xs) = zip (map fst (children_mut n)) xs"
  using put_fields_visits [of "nd_fields n" xs] by (simp add: children_mut_def put_children_def)

lemma skel_put:
  assumes "length xs = length (children_mut n)"
    and "list_all2 (\<lambda>(_, c) x. skel x = skel c) (children_mut n) xs"
  shows "skel (put_children n xs) = skel n"
proof -
  have "map (\<lambda>(name, c). (name, skel c)) (zip (map fst ks) ys) = map (\<lambda>(name, c). (name, skel c)) ks"
    if "list_all2 (\<lambda>(_, c) x. skel x = skel c) ks ys" for ks :: "(string \<times> 'a node) list" and ys
    using that by (induction ks ys rule: list_all2_induct) auto
  from this [OF assms(2)] show ?thesis
    by (simp add: skel.simps [of n] skel.simps [of "put_children n xs"] children_put [OF assms(1)])
      (simp add: put_children_def comp_names_put)
qed

lemma skel_fields: "nd_fields n = nd_fields m \<Longrightarrow> skel n = skel m"
  by (simp add: skel.simps [of n] skel.simps [of m] children_mut_def)

section \<open>Walks of hooks that keep the children\<close>

definition keeps_fields :: "('u, 'w) hook \<Rightarrow> bool" where
  "keeps_fields h \<longleftrightarrow> (\<forall>p n w. nd_fields (fst (h p n w)) = nd_fields n)"

text \<open>The logging of a hook: every call appends its tag and path to a trace in the world.\<close>

definition logged_in :: "('w \<Rightarrow> 'e list) \<Rightarrow> (rustdv_path \<Rightarrow> 'e) \<Rightarrow> ('u, 'w) hook \<Rightarrow> bool" where
  "logged_in tr tag h \<longleftrightarrow> (\<forall>p n w. tr (snd (h p n w)) = tr w @ [tag p])"

lemma walk_kids_total:
  assumes "\<And>name c w. (name, c) \<in> set ks \<Longrightarrow>
      \<exists>c' w'. f (path_child p name) c w = Some (c', w') \<and> skel c' = skel c \<and>
        tr w' = tr w @ map tag (ord (path_child p name) (skel c))"
  shows "\<exists>cs w'. walk_kids f p ks w = Some (cs, w') \<and> length cs = length ks \<and>
      list_all2 (\<lambda>(_, c) x. skel x = skel c) ks cs \<and>
      tr w' = tr w @ concat (map (\<lambda>(name, c). map tag (ord (path_child p name) (skel c))) ks)"
  using assms
proof (induction ks arbitrary: w)
  case (Cons kc ks)
  obtain name c where kc: "kc = (name, c)" by (cases kc)
  obtain c' w1 where 1: "f (path_child p name) c w = Some (c', w1)" "skel c' = skel c"
    "tr w1 = tr w @ map tag (ord (path_child p name) (skel c))"
    using Cons.prems [of name c w] by (auto simp: kc)
  obtain cs w2 where "walk_kids f p ks w1 = Some (cs, w2)" "length cs = length ks"
    "list_all2 (\<lambda>(_, c) x. skel x = skel c) ks cs"
    "tr w2 = tr w1 @ concat (map (\<lambda>(name, c). map tag (ord (path_child p name) (skel c))) ks)"
    using Cons.IH [of w1] Cons.prems by auto
  with 1 show ?case by (simp add: kc)
qed simp

lemma map_pre_order:
  "map tag (pre_order p (skel n)) =
     tag p # concat (map (\<lambda>(name, c). map tag (pre_order (path_child p name) (skel c))) (children_mut n))"
  by (subst skel.simps) (simp add: map_concat comp_def split_def)

lemma map_post_order:
  "map tag (post_order p (skel n)) =
     concat (map (\<lambda>(name, c). map tag (post_order (path_child p name) (skel c))) (children_mut n)) @ [tag p]"
  by (subst skel.simps) (simp add: map_concat comp_def split_def)

lemma top_down_order:
  assumes "keeps_fields h" "logged_in tr tag h" "depth (skel n) \<le> k"
  shows "\<exists>n' w'. top_down k h p n w = Some (n', w') \<and> skel n' = skel n \<and>
    tr w' = tr w @ map tag (pre_order p (skel n))"
  using assms(3)
proof (induction k arbitrary: p n w)
  case 0
  then show ?case by (cases "skel n") simp
next
  case (Suc k)
  obtain n1 w1 where h: "h p n w = (n1, w1)" by (cases "h p n w")
  have f: "nd_fields n1 = nd_fields n" using assms(1) h by (metis fst_conv keeps_fields_def)
  then have ch: "children_mut n1 = children_mut n" by (simp add: children_mut_def)
  have sk: "skel n1 = skel n" using f by (rule skel_fields)
  have t: "tr w1 = tr w @ [tag p]" using assms(2) h by (metis snd_conv logged_in_def)
  note IH = Suc.IH and d = Suc.prems
  have kid: "\<exists>c' w'. top_down k h (path_child p name) c w = Some (c', w') \<and> skel c' = skel c \<and>
      tr w' = tr w @ map tag (pre_order (path_child p name) (skel c))"
    if "(name, c) \<in> set (children_mut n1)" for name c w
  proof (rule IH)
    have "depth (skel c) < depth (skel n)" using that unfolding ch by (rule depth_skel_child)
    with d show "depth (skel c) \<le> k" by linarith
  qed
  have "\<exists>cs w2. walk_kids (\<lambda>p n w. top_down k h p n w) p (children_mut n1) w1 = Some (cs, w2) \<and>
      length cs = length (children_mut n1) \<and> list_all2 (\<lambda>(_, c) x. skel x = skel c) (children_mut n1) cs \<and>
      tr w2 = tr w1 @ concat (map (\<lambda>(name, c). map tag (pre_order (path_child p name) (skel c))) (children_mut n1))"
    by (rule walk_kids_total) (rule kid)
  then obtain cs w2 where "walk_kids (\<lambda>p n w. top_down k h p n w) p (children_mut n1) w1 = Some (cs, w2) \<and>
      length cs = length (children_mut n1) \<and> list_all2 (\<lambda>(_, c) x. skel x = skel c) (children_mut n1) cs \<and>
      tr w2 = tr w1 @ concat (map (\<lambda>(name, c). map tag (pre_order (path_child p name) (skel c))) (children_mut n1))"
    by (elim exE) (rule that)
  note k = this [THEN conjunct1] this [THEN conjunct2, THEN conjunct1]
    this [THEN conjunct2, THEN conjunct2, THEN conjunct1] this [THEN conjunct2, THEN conjunct2, THEN conjunct2]
  from k(1,4) h t ch skel_put [OF k(2,3)] sk show ?case using map_pre_order [of tag p n] by simp
qed

lemma bottom_up_order:
  assumes "keeps_fields h" "logged_in tr tag h" "depth (skel n) \<le> k"
  shows "\<exists>n' w'. bottom_up k h p n w = Some (n', w') \<and> skel n' = skel n \<and>
    tr w' = tr w @ map tag (post_order p (skel n))"
  using assms(3)
proof (induction k arbitrary: p n w)
  case 0
  then show ?case by (cases "skel n") simp
next
  case (Suc k)
  note IH = Suc.IH and d = Suc.prems
  have kid: "\<exists>c' w'. bottom_up k h (path_child p name) c w = Some (c', w') \<and> skel c' = skel c \<and>
      tr w' = tr w @ map tag (post_order (path_child p name) (skel c))"
    if "(name, c) \<in> set (children_mut n)" for name c w
  proof (rule IH)
    have "depth (skel c) < depth (skel n)" using that by (rule depth_skel_child)
    with d show "depth (skel c) \<le> k" by linarith
  qed
  have "\<exists>cs w1. walk_kids (\<lambda>p n w. bottom_up k h p n w) p (children_mut n) w = Some (cs, w1) \<and>
      length cs = length (children_mut n) \<and> list_all2 (\<lambda>(_, c) x. skel x = skel c) (children_mut n) cs \<and>
      tr w1 = tr w @ concat (map (\<lambda>(name, c). map tag (post_order (path_child p name) (skel c))) (children_mut n))"
    by (rule walk_kids_total) (rule kid)
  then obtain cs w1 where "walk_kids (\<lambda>p n w. bottom_up k h p n w) p (children_mut n) w = Some (cs, w1) \<and>
      length cs = length (children_mut n) \<and> list_all2 (\<lambda>(_, c) x. skel x = skel c) (children_mut n) cs \<and>
      tr w1 = tr w @ concat (map (\<lambda>(name, c). map tag (post_order (path_child p name) (skel c))) (children_mut n))"
    by (elim exE) (rule that)
  note k = this [THEN conjunct1] this [THEN conjunct2, THEN conjunct1]
    this [THEN conjunct2, THEN conjunct2, THEN conjunct1] this [THEN conjunct2, THEN conjunct2, THEN conjunct2]
  obtain n2 w2 where h: "h p (put_children n cs) w1 = (n2, w2)" by (cases "h p (put_children n cs) w1")
  have "nd_fields n2 = nd_fields (put_children n cs)" using assms(1) h by (metis fst_conv keeps_fields_def)
  from skel_fields [OF this] skel_put [OF k(2,3)] have "skel n2 = skel n" by (rule trans)
  moreover have "tr w2 = tr w1 @ [tag p]" using assms(2) h by (metis snd_conv logged_in_def)
  ultimately show ?case using k(1,4) h map_post_order [of tag p n] by simp
qed

section \<open>The run phase puts the tree back\<close>

fun map_kid :: "(string \<Rightarrow> 'u node \<Rightarrow> 'u node) \<Rightarrow> (string \<Rightarrow> 'u node \<Rightarrow> 'u node) \<Rightarrow> string \<times> 'u field \<Rightarrow> string \<times> 'u field" where
  "map_kid F G (name, FComp inner ov req) = (name, FComp (map_option (G name) inner) ov req)"
| "map_kid F G (name, FOption inner) = (name, FOption (map_option (F name) inner))"
| "map_kid F G (name, FVec cs) = (name, FVec (map (\<lambda>(i, c). F (vec_label name i) c) (List.enumerate 0 cs)))"
| "map_kid F G (name, FPlain c) = (name, FPlain (F name c))"

lemma put_kept:
  "put_fields (map (\<lambda>f. fst (take_field f)) fs) (map (\<lambda>(name, c). F name c) (concat (map (\<lambda>f. visit (fst (take_field f))) fs)) @ rest) =
     map (\<lambda>f. map_kid F (\<lambda>_ c. c) (fst (take_field f))) fs"
proof (induction fs)
  case (Cons nf fs)
  show ?case
  proof (cases nf rule: field_cases)
    case (comp name inner ov req)
    then show ?thesis using Cons by simp
  next
    case (opt name inner)
    then show ?thesis using Cons by (cases inner) auto
  next
    case (vec name cs)
    have "length (map ((\<lambda>(name, c). F name c) \<circ> (\<lambda>(i, c). (vec_label name i, c))) (List.enumerate 0 cs)) = length cs" by simp
    with vec Cons show ?thesis by (simp add: comp_def case_prod_beta)
  next
    case (plain name c)
    then show ?thesis using Cons by simp
  qed
qed simp

lemma restore_other:
  "fst nf \<notin> fst ` set ts \<or> fst nf \<notin> set (comp_names [nf]) \<Longrightarrow> fold restore_field ts (nf # fs) = nf # fold restore_field ts fs"
proof (induction ts arbitrary: fs)
  case (Cons t ts)
  have "restore_field t (nf # fs) = nf # restore_field t fs"
    using Cons.prems by (cases nf; cases "snd nf") (auto simp: comp_names_def)
  with Cons show ?case by auto
qed simp

lemma taken_names: "(name, c) \<in> set (snd (take_field f)) \<Longrightarrow> f \<in> set fs \<Longrightarrow> name \<in> set (comp_names fs)"
  by (cases f rule: take_field.cases) (force simp: comp_names_def split: option.splits)+

lemma restore_taken:
  "distinct (comp_names fs) \<Longrightarrow>
     fold restore_field (map (\<lambda>(name, c). (name, G name c)) (concat (map (\<lambda>f. snd (take_field f)) fs)))
       (map (\<lambda>f. map_kid F (\<lambda>_ c. c) (fst (take_field f))) fs) = map (map_kid F G) fs"
proof (induction fs)
  case (Cons nf fs)
  let ?ts = "map (\<lambda>(name, c). (name, G name c)) (concat (map (\<lambda>f. snd (take_field f)) fs))"
  let ?fs = "map (\<lambda>f. map_kid F (\<lambda>_ c. c) (fst (take_field f))) fs"
  have c: "comp_names (nf # fs) = comp_names [nf] @ comp_names fs" by (simp add: comp_names_def)
  have IH: "fold restore_field ?ts ?fs = map (map_kid F G) fs" by (rule Cons.IH) (use Cons.prems c in simp)
  have n: "fst ` set ?ts \<subseteq> set (comp_names fs)" by (auto dest: taken_names)
  show ?case
  proof (cases nf rule: field_cases)
    case (comp name inner ov req)
    then have nn: "name \<notin> set (comp_names fs)" using Cons.prems c by (simp add: comp_names_def)
    show ?thesis
    proof (cases inner)
      case None
      have "fold restore_field ?ts ((name, FComp None ov req) # ?fs) = (name, FComp None ov req) # fold restore_field ?ts ?fs"
        by (rule restore_other) (use nn n in auto)
      with comp None IH show ?thesis by simp
    next
      case (Some x)
      have "fold restore_field ?ts ((name, FComp (Some (G name x)) ov req) # ?fs) =
          (name, FComp (Some (G name x)) ov req) # fold restore_field ?ts ?fs"
        by (rule restore_other) (use nn n in auto)
      with comp Some IH show ?thesis by simp
    qed
  next
    case (opt name inner)
    have "fold restore_field ?ts (map_kid F G nf # ?fs) = map_kid F G nf # fold restore_field ?ts ?fs"
      by (rule restore_other) (simp add: opt comp_names_def)
    with opt IH show ?thesis by simp
  next
    case (vec name cs)
    have "fold restore_field ?ts (map_kid F G nf # ?fs) = map_kid F G nf # fold restore_field ?ts ?fs"
      by (rule restore_other) (simp add: vec comp_names_def)
    with vec IH show ?thesis by simp
  next
    case (plain name x)
    have "fold restore_field ?ts (map_kid F G nf # ?fs) = map_kid F G nf # fold restore_field ?ts ?fs"
      by (rule restore_other) (simp add: plain comp_names_def)
    with plain IH show ?thesis by simp
  qed
qed (simp add: comp_names_def)

text \<open>The children as the run phase sees them: those that stay in place and those moved out.\<close>

definition kept_kids :: "'u node \<Rightarrow> (string \<times> 'u node) list" where
  "kept_kids n = children_mut (fst (take_children n))"

definition taken_kids :: "'u node \<Rightarrow> (string \<times> 'u node) list" where
  "taken_kids n = snd (take_children n)"

lemma kept_kids_eq: "kept_kids n = concat (map (\<lambda>f. visit (fst (take_field f))) (nd_fields n))"
  by (simp add: kept_kids_def children_mut_def take_children_def comp_def)

lemma taken_kids_eq: "taken_kids n = concat (map (\<lambda>f. snd (take_field f)) (nd_fields n))"
  by (simp add: taken_kids_def take_children_def)

lemma put_kept_node:
  "nd_fields (put_children (fst (take_children n)) (map (\<lambda>(name, c). F name c) (kept_kids n))) =
     map (\<lambda>f. map_kid F (\<lambda>_ c. c) (fst (take_field f))) (nd_fields n)"
  using put_kept [of "nd_fields n" F "[]"] by (simp add: put_children_def take_children_def kept_kids_eq)

lemma restore_node:
  assumes "distinct (comp_names (nd_fields n))"
    and "nd_fields m = map (\<lambda>f. map_kid F (\<lambda>_ c. c) (fst (take_field f))) (nd_fields n)"
  shows "nd_fields (restore_children m (map (\<lambda>(name, c). (name, G name c)) (taken_kids n))) =
    map (map_kid F G) (nd_fields n)"
  using restore_taken [OF assms(1), of G F] assms(2) by (simp add: restore_children_def taken_kids_eq)

lemma visit_map_kid:
  assumes "\<And>name c. (name, c) \<in> set (visit f) \<Longrightarrow> skel (F name c) = skel c \<and> skel (G name c) = skel c"
  shows "map (\<lambda>(name, c). (name, skel c)) (visit (map_kid F G f)) = map (\<lambda>(name, c). (name, skel c)) (visit f)"
proof (cases f rule: visit.cases)
  case (3 name cs)
  have "skel (F (vec_label name i) (cs ! i)) = skel (cs ! i)" if "i < length cs" for i
    using assms [of "vec_label name i" "cs ! i"] that by (force simp: 3 in_set_enumerate_eq)
  then show ?thesis by (auto simp: 3 nth_enumerate_eq intro!: nth_equalityI)
qed (use assms in \<open>auto split: option.splits\<close>)

lemma comp_names_map_kid: "comp_names (map (map_kid F G) fs) = comp_names fs"
proof (induction fs)
  case (Cons f fs)
  have "comp_label (map_kid F G f) = comp_label f"
    by (cases f rule: visit.cases) (simp_all add: comp_label_def)
  with Cons show ?case by (simp add: comp_names_Cons)
qed simp

lemma skel_map_kid:
  assumes "nd_fields m = map (map_kid F G) (nd_fields n)"
    and "\<And>name c. (name, c) \<in> set (children_mut n) \<Longrightarrow> skel (F name c) = skel c \<and> skel (G name c) = skel c"
  shows "skel m = skel n"
proof -
  have "map (\<lambda>(name, c). (name, skel c)) (concat (map visit (map (map_kid F G) fs))) =
      map (\<lambda>(name, c). (name, skel c)) (concat (map visit fs))"
    if "set fs \<subseteq> set (nd_fields n)" for fs
    using that
  proof (induction fs)
    case (Cons f fs)
    have "map (\<lambda>(name, c). (name, skel c)) (visit (map_kid F G f)) = map (\<lambda>(name, c). (name, skel c)) (visit f)"
      by (rule visit_map_kid) (use Cons.prems assms(2) in \<open>auto simp: children_mut_def\<close>)
    with Cons show ?case by simp
  qed simp
  from this [of "nd_fields n"] comp_names_map_kid [of F G "nd_fields n"] show ?thesis
    by (simp add: skel.simps [of m] skel.simps [of n] children_mut_def assms(1))
qed

text \<open>No two factory slots of a component share a name: they are fields of one Rust struct.\<close>

fun wf_rose :: "rose \<Rightarrow> bool" where
  "wf_rose (Rose ns ks) \<longleftrightarrow> distinct ns \<and> list_all (\<lambda>(name, r). wf_rose r) ks"

abbreviation wf_node :: "'u node \<Rightarrow> bool" where
  "wf_node n \<equiv> wf_rose (skel n)"

lemma wf_node_unfold: "wf_node n \<longleftrightarrow> distinct (comp_names (nd_fields n)) \<and> (\<forall>kc \<in> set (children_mut n). wf_node (snd kc))"
  by (subst skel.simps) (auto simp: list_all_iff)

section \<open>What the run phase returns\<close>

text \<open>The order in which results are looked at: the subtrees that stay in place, the subtrees moved
  out, then the component itself.\<close>

function run_order :: "rustdv_path \<Rightarrow> 'u node \<Rightarrow> (rustdv_path \<times> 'u) list" where
  "run_order p n =
     concat (map (\<lambda>(name, c). run_order (path_child p name) c) (children_mut (fst (take_children n)))) @
     concat (map (\<lambda>(name, c). run_order (path_child p name) c) (snd (take_children n))) @ [(p, nd_user n)]"
  by pat_completeness auto
termination by (relation "measure (\<lambda>(p, n). size n)") (auto dest: kept_size taken_size)

declare run_order.simps [simp del]

lemma first_error_append:
  "first_error (xs @ ys) = (case first_error xs of None \<Rightarrow> first_error ys | Some e \<Rightarrow> Some e)"
  by (induction xs) (auto simp: first_error_def)

lemma first_error_concat: "first_error (concat xss) = first_error (map first_error xss)"
proof (induction xss)
  case (Cons xs xss)
  have "first_error (x # xs) = (case x of None \<Rightarrow> first_error xs | Some e \<Rightarrow> Some e)" for x and xs :: "'a option list"
    by (cases x) (auto simp: first_error_def)
  with Cons show ?case by (simp add: first_error_append split: option.splits)
qed simp

lemma run_all_unfold:
  "run_all one p n =
     (let kept = map (\<lambda>(name, c). run_all one (path_child p name) c) (kept_kids n);
          n2 = put_children (fst (take_children n)) (map fst kept)
      in (case first_error (map snd kept) of
            Some e \<Rightarrow> (restore_children n2 (taken_kids n), Some e)
          | None \<Rightarrow>
              if taken_kids n = [] then run_one one p n2
              else
                let outs = map (\<lambda>(name, c). (name, run_all one (path_child p name) c)) (taken_kids n);
                    (n3, r) = run_one one p n2;
                    outcome = first_error (map (snd \<circ> snd) outs @ [r])
                in (restore_children n3 (map (\<lambda>(name, c, _). (name, c)) outs), outcome)))"
  unfolding kept_kids_def taken_kids_def by (rule run_all.simps)

lemma run_order_unfold:
  "run_order p n = concat (map (\<lambda>(name, c). run_order (path_child p name) c) (kept_kids n)) @
     concat (map (\<lambda>(name, c). run_order (path_child p name) c) (taken_kids n)) @ [(p, nd_user n)]"
  by (subst run_order.simps) (simp add: kept_kids_def taken_kids_def)

lemma take_field_mset: "mset (visit (fst (take_field f)) @ snd (take_field f)) = mset (visit f)"
  by (cases f rule: take_field.cases) (auto split: option.splits)

lemma kids_mset: "mset (kept_kids n @ taken_kids n) = mset (children_mut n)"
proof -
  have "mset (concat (map (\<lambda>f. visit (fst (take_field f))) fs) @ concat (map (\<lambda>f. snd (take_field f)) fs)) =
      mset (concat (map visit fs))" for fs :: "(string \<times> 'a field) list"
  proof (induction fs)
    case (Cons f fs)
    then show ?case using take_field_mset [of f] by (simp add: ac_simps)
  qed simp
  from this [of "nd_fields n"] show ?thesis by (simp add: kept_kids_eq taken_kids_eq children_mut_def)
qed

text \<open>Every component of the tree runs exactly once.\<close>

lemma sum_list_mset: "sum_list (map f xs) = \<Sum>\<^sub># (image_mset f (mset xs))"
  for f :: "'a \<Rightarrow> 'b multiset"
  by (induction xs) auto

lemma run_order_mset: "mset (map fst (run_order p n)) = mset (pre_order p (skel n))"
proof (induction n arbitrary: p rule: measure_induct_rule [of size])
  case (less n)
  let ?order = "\<lambda>(name, c). map fst (run_order (path_child p name) c)"
  have "mset (map fst (run_order p n)) = \<Sum>\<^sub># (image_mset (\<lambda>kc. mset (?order kc)) (mset (kept_kids n @ taken_kids n))) + {#p#}"
    by (simp add: run_order_unfold [of p n] mset_concat map_concat comp_def split_def sum_list_mset)
  also have "\<dots> = \<Sum>\<^sub># (image_mset (\<lambda>kc. mset (?order kc)) (mset (children_mut n))) + {#p#}"
    by (simp only: kids_mset)
  also have "image_mset (\<lambda>kc. mset (?order kc)) (mset (children_mut n)) =
      image_mset (\<lambda>(name, c). mset (pre_order (path_child p name) (skel c))) (mset (children_mut n))"
    by (rule image_mset_cong) (auto simp: less.IH [OF children_size] simp del: mset_map)
  also have "\<Sum>\<^sub># \<dots> + {#p#} = mset (pre_order p (skel n))"
    by (subst map_pre_order [of id, simplified]) (simp add: mset_concat comp_def split_def sum_list_mset)
  finally show ?case .
qed

lemma run_one_user: "nd_user (put_children (fst (take_children n)) cs) = nd_user n"
  by (simp add: put_children_def take_children_def)

lemma run_all_outcome:
  "snd (run_all one p n) = first_error (map (\<lambda>(q, u). snd (one q u)) (run_order p n))"
proof (induction n arbitrary: p rule: measure_induct_rule [of size])
  case (less n)
  let ?res = "map (\<lambda>(q, u). snd (one q u))"
  have IH: "map (\<lambda>(name, c). snd (run_all one (path_child p name) c)) ks =
      map (\<lambda>(name, c). first_error (?res (run_order (path_child p name) c))) ks"
    if "set ks \<subseteq> set (kept_kids n) \<union> set (taken_kids n)" for ks
  proof (rule map_cong [OF refl])
    fix kc assume kc: "kc \<in> set ks"
    obtain name c where nc: "kc = (name, c)" by (cases kc)
    have "(name, c) \<in> set (kept_kids n) \<or> (name, c) \<in> set (taken_kids n)" using kc that nc by auto
    then have "size c < size n" using kept_size taken_size by (auto simp: kept_kids_def taken_kids_def)
    with less [of c "path_child p name"]
    show "(case kc of (name, c) \<Rightarrow> snd (run_all one (path_child p name) c)) =
        (case kc of (name, c) \<Rightarrow> first_error (?res (run_order (path_child p name) c)))" by (simp add: nc)
  qed
  have split: "first_error (?res (concat (map (\<lambda>(name, c). run_order (path_child p name) c) ks))) =
      first_error (map (\<lambda>(name, c). first_error (?res (run_order (path_child p name) c))) ks)" for ks
    by (simp add: map_concat first_error_concat comp_def split_def)
  let ?k = "map (\<lambda>(name, c). snd (run_all one (path_child p name) c)) (kept_kids n)"
  let ?t = "map (\<lambda>(name, c). snd (run_all one (path_child p name) c)) (taken_kids n)"
  have ref: "first_error (?res (run_order p n)) =
      (case first_error ?k of Some e \<Rightarrow> Some e
       | None \<Rightarrow> (case first_error ?t of Some e \<Rightarrow> Some e | None \<Rightarrow> first_error [snd (one p (nd_user n))]))"
    unfolding run_order_unfold [of p n] map_append first_error_append split
      IH [of "kept_kids n", OF Un_upper1, symmetric] IH [of "taken_kids n", OF Un_upper2, symmetric]
    by (simp only: list.map prod.case)
  have single: "first_error [x] = x" for x :: "test_error option" by (cases x) (auto simp: first_error_def)
  show ?case
    unfolding ref
    by (subst run_all_unfold)
      (auto simp: Let_def run_one_def run_one_user split_def ref [unfolded split_def] comp_def first_error_append single
        first_error_def [of "[]"] split: option.splits)
qed

lemma run_all_skel: "wf_node n \<Longrightarrow> skel (fst (run_all one p n)) = skel n"
proof (induction n arbitrary: p rule: measure_induct_rule [of size])
  case (less n)
  have d: "distinct (comp_names (nd_fields n))" using less.prems by (simp add: wf_node_unfold [of n])
  let ?F = "\<lambda>name c. fst (run_all one (path_child p name) c)"
  have kid: "skel (?F name c) = skel c" if "(name, c) \<in> set (children_mut n)" for name c
  proof -
    have "wf_node c" using less.prems that by (auto simp: wf_node_unfold [of n])
    with less.IH [of c] children_size [OF that] show ?thesis by simp
  qed
  let ?n2 = "put_children (fst (take_children n)) (map (\<lambda>(name, c). ?F name c) (kept_kids n))"
  have n2: "nd_fields ?n2 = map (\<lambda>f. map_kid ?F (\<lambda>_ c. c) (fst (take_field f))) (nd_fields n)"
    by (rule put_kept_node)
  have eq: "map fst (map (\<lambda>(name, c). run_all one (path_child p name) c) (kept_kids n)) =
      map (\<lambda>(name, c). ?F name c) (kept_kids n)" by (simp add: comp_def case_prod_beta)
  have sk: "skel (restore_children m (map (\<lambda>(name, c). (name, G name c)) (taken_kids n))) = skel n"
    if "nd_fields m = nd_fields ?n2" "G = ?F \<or> G = (\<lambda>_ c. c)" for m G
    by (rule skel_map_kid [OF restore_node [OF d]]) (use that n2 kid in auto)
  have noTaken: "skel (fst (run_one one p ?n2)) = skel n" if "taken_kids n = []"
  proof -
    let ?m = "fst (run_one one p ?n2)"
    have "nd_fields ?m = nd_fields ?n2" by (simp add: run_one_def case_prod_beta)
    from sk [OF this, of "\<lambda>_ c. c"] that have "skel (restore_children ?m []) = skel n" by simp
    moreover have "skel ?m = skel (restore_children ?m [])"
      by (rule skel_fields) (simp add: restore_children_def)
    ultimately show ?thesis by simp
  qed
  have err: "skel (restore_children ?n2 (taken_kids n)) = skel n"
    using sk [of ?n2 "\<lambda>_ c. c"] by simp
  have both: "skel (restore_children (fst (run_one one p ?n2)) (map (\<lambda>(name, c). (name, ?F name c)) (taken_kids n))) = skel n"
    by (rule sk) (simp_all add: run_one_def case_prod_beta)
  have err': "skel (restore_children ?n2 []) = skel n" if "taken_kids n = []" using err that by simp
  show ?case
    by (subst run_all_unfold)
      (auto simp: Let_def eq err' [unfolded case_prod_beta] case_prod_beta comp_def noTaken [unfolded case_prod_beta] err [unfolded case_prod_beta]
        both [unfolded case_prod_beta] split: option.splits)
qed

section \<open>The phaser\<close>

text \<open>Hooks whose calls are recorded in the world, and that leave the children they were built with
  alone once build is over.\<close>

definition logging :: "(('u, 'v, 'w) world \<Rightarrow> (phase \<times> rustdv_path) list) \<Rightarrow> ('u, 'v, 'w) hooks \<Rightarrow> bool" where
  "logging tr hk \<longleftrightarrow>
     (\<forall>ph. logged_in tr (Pair ph) (hk_phase hk ph)) \<and>
     (\<forall>p n w. tr (fst (snd (hk_check hk p n w))) = tr w @ [(Ph_check, p)]) \<and>
     (\<forall>db1 db2 w. tr (db1, w) = tr (db2, w))"

definition settled :: "('u, 'v, 'w) hooks \<Rightarrow> bool" where
  "settled hk \<longleftrightarrow> (\<forall>ph. ph \<noteq> Ph_build \<longrightarrow> keeps_fields (hk_phase hk ph)) \<and>
     (\<forall>p n w. nd_fields (fst (hk_check hk p n w)) = nd_fields n)"

lemma check_all_order:
  assumes "settled hk" "logging tr hk" "depth (skel n) \<le> k"
  shows "\<exists>n' w' errs'. check_all k hk p n (w, errs) = Some (n', w', errs') \<and> skel n' = skel n \<and>
    tr w' = tr w @ map (Pair Ph_check) (pre_order p (skel n))"
proof -
  have "keeps_fields (check_hook hk)"
    using assms(1) by (simp add: keeps_fields_def check_hook_def settled_def case_prod_beta)
  moreover have "logged_in (tr \<circ> fst) (Pair Ph_check) (check_hook hk)"
    using assms(2) by (simp add: logged_in_def check_hook_def logging_def case_prod_beta)
  ultimately show ?thesis
    using top_down_order [OF _ _ assms(3), of "check_hook hk" "tr \<circ> fst" "Pair Ph_check" p "(w, errs)"]
    unfolding check_all_def by fastforce
qed

lemma settled_phase: "settled hk \<Longrightarrow> ph \<noteq> Ph_build \<Longrightarrow> keeps_fields (hk_phase hk ph)"
  by (simp add: settled_def)

lemma logging_phase: "logging tr hk \<Longrightarrow> logged_in tr (Pair ph) (hk_phase hk ph)"
  by (simp add: logging_def)

lemma phase_walk:
  assumes "settled hk" "logging tr hk" "depth (skel n) \<le> k" "ph \<noteq> Ph_build"
  shows "\<exists>n' w'. top_down k (hk_phase hk ph) p n w = Some (n', w') \<and> skel n' = skel n \<and>
    tr w' = tr w @ map (Pair ph) (pre_order p (skel n))"
  by (rule top_down_order [OF settled_phase [OF assms(1,4)] logging_phase [OF assms(2)] assms(3)])

lemma post_run_order:
  assumes "settled hk" "logging tr hk" "depth (skel n) \<le> k"
  shows "\<exists>n1 w1 n2 w2 errs n' w'. extract_all k hk p n w = Some (n1, w1) \<and> check_all k hk p n1 (w1, []) = Some (n2, w2, errs) \<and>
    run_extract_check_report k hk p n w = Some (n', w', sink_into_result errs) \<and> skel n' = skel n \<and>
    tr w' = tr w @ map (Pair Ph_extract) (pre_order p (skel n)) @ map (Pair Ph_check) (pre_order p (skel n)) @
      map (Pair Ph_report) (pre_order p (skel n)) @ map (Pair Ph_final) (pre_order p (skel n))"
proof -
  obtain n1 w1 where 1: "extract_all k hk p n w = Some (n1, w1)" "skel n1 = skel n"
    "tr w1 = tr w @ map (Pair Ph_extract) (pre_order p (skel n))"
    using phase_walk [OF assms, of Ph_extract p w] by (auto simp: extract_all_def)
  obtain n2 w2 errs where 2: "check_all k hk p n1 (w1, []) = Some (n2, w2, errs)" "skel n2 = skel n"
    "tr w2 = tr w1 @ map (Pair Ph_check) (pre_order p (skel n))"
    using check_all_order [OF assms(1,2), of n1 k p w1 "[]"] assms(3) 1(2) by auto
  obtain n3 w3 where 3: "report_all k hk p n2 w2 = Some (n3, w3)" "skel n3 = skel n"
    "tr w3 = tr w2 @ map (Pair Ph_report) (pre_order p (skel n))"
    using phase_walk [OF assms(1,2), of n2 k Ph_report p w2] assms(3) 2(2) by (auto simp: report_all_def)
  obtain n4 w4 where 4: "final_all k hk p n3 w3 = Some (n4, w4)" "skel n4 = skel n"
    "tr w4 = tr w3 @ map (Pair Ph_final) (pre_order p (skel n))"
    using phase_walk [OF assms(1,2), of n3 k Ph_final p w3] assms(3) 3(2) by (auto simp: final_all_def)
  from 1 2 3 4 show ?thesis by (simp add: run_extract_check_report_def)
qed

text \<open>Every component of a tree with its path.\<close>

function all_nodes :: "(rustdv_path \<times> 'u node) \<Rightarrow> (rustdv_path \<times> 'u node) list" where
  "all_nodes (p, n) = (p, n) # concat (map (\<lambda>(name, c). all_nodes (path_child p name, c)) (children_mut n))"
  by pat_completeness auto
termination by (relation "measure (\<lambda>(p, n). size n)") (auto dest: children_size)

declare all_nodes.simps [simp del]

lemma walk_kids_result:
  assumes "walk_kids f p ks w = Some (cs, w')"
    and "\<And>name c w c' w'. (name, c) \<in> set ks \<Longrightarrow> f (path_child p name) c w = Some (c', w') \<Longrightarrow>
      Q c' \<and> tr w' = tr w @ map tag (pre_order (path_child p name) (skel c'))"
  shows "length cs = length ks \<and> list_all Q cs \<and>
    tr w' = tr w @ concat (map (\<lambda>(name, c). map tag (pre_order (path_child p name) (skel c))) (zip (map fst ks) cs))"
  using assms
proof (induction f p ks w arbitrary: cs w' rule: walk_kids.induct)
  case (2 f p name c ks w)
  obtain c1 w1 cs1 where r: "f (path_child p name) c w = Some (c1, w1)" "walk_kids f p ks w1 = Some (cs1, w')"
    "cs = c1 # cs1" using "2.prems"(1) by (auto split: option.splits)
  have "Q c1 \<and> tr w1 = tr w @ map tag (pre_order (path_child p name) (skel c1))"
    by (rule "2.prems"(2) [OF _ r(1)]) simp
  moreover have "length cs1 = length ks \<and> list_all Q cs1 \<and> tr w' = tr w1 @
      concat (map (\<lambda>(name, c). map tag (pre_order (path_child p name) (skel c))) (zip (map fst ks) cs1))"
    by (rule "2.IH" [OF r(1) refl r(2)]) (rule "2.prems"(2), auto)
  ultimately show ?case by (simp add: r(3))
qed simp

text \<open>Whatever a top-down hook does to the tree, it was called on the components of the final tree,
  parents first, and the fuel was at least the depth of that tree.\<close>

lemma top_down_result:
  assumes "logged_in tr tag h" "top_down k h p n w = Some (n', w')"
  shows "depth (skel n') \<le> k \<and> tr w' = tr w @ map tag (pre_order p (skel n'))"
  using assms(2)
proof (induction k arbitrary: p n w n' w')
  case (Suc k)
  obtain n1 w1 where h: "h p n w = (n1, w1)" by (cases "h p n w")
  obtain cs where w: "walk_kids (\<lambda>p n w. top_down k h p n w) p (children_mut n1) w1 = Some (cs, w')"
    and n': "n' = put_children n1 cs" using Suc.prems h by auto
  have t: "tr w1 = tr w @ [tag p]" using assms(1) h by (metis snd_conv logged_in_def)
  have r: "length cs = length (children_mut n1) \<and> list_all (\<lambda>c. depth (skel c) \<le> k) cs \<and>
    tr w' = tr w1 @ concat (map (\<lambda>(name, c). map tag (pre_order (path_child p name) (skel c))) (zip (map fst (children_mut n1)) cs))"
    by (rule walk_kids_result [OF w]) (rule Suc.IH)
  then have ch: "children_mut n' = zip (map fst (children_mut n1)) cs" unfolding n' by (intro children_put) simp
  have "\<forall>kc \<in> set (children_mut n'). depth (skel (snd kc)) \<le> k"
    using r by (auto simp: ch list_all_iff dest: set_zip_rightD)
  then have "depth (skel n') \<le> Suc k" by (subst skel.simps) auto
  then show ?case using r t map_pre_order [of tag p n'] by (simp add: ch)
qed simp

lemma logging_build: "logging tr hk \<Longrightarrow> logged_in tr (Pair Ph_build) (build_hook hk)"
  by (simp add: logged_in_def logging_def build_hook_def split_def Let_def)

lemma logging_db: "logging tr hk \<Longrightarrow> tr (db, snd w) = tr w"
  by (metis logging_def prod.collapse)

section \<open>Properties\<close>


text \<open>The result of the run phase is the first error of all the components' results, taken in the
  order: in-place subtrees, moved-out subtrees, the component itself. There is an error exactly if
  a component that ran returned one.\<close>

theorem run_all_returns_first_error:
  "snd (run_all one p n) = first_error (map (\<lambda>(q, u). snd (one q u)) (run_order p n))"
  by (rule run_all_outcome)

text \<open>The children that the run phase moves out of their parents are back in their slots when it
  returns, with or without an error, so the later phases walk a tree of the same shape.\<close>

theorem run_all_restores_tree: "wf_node n \<Longrightarrow> skel (fst (run_all one p n)) = skel n"
  by (rule run_all_skel)

text \<open>The elaboration check passes exactly when every required port of every component is connected,
  and otherwise fails with the kind of an unconnected port.\<close>

theorem check_connections_complete:
  "(check_connections p n = None \<longleftrightarrow>
      list_all (\<lambda>(q, c). list_all (\<lambda>i. \<not> pi_required i \<or> pi_connected i) (nd_ports c)) (all_nodes (p, n))) \<and>
   (\<forall>e. check_connections p n = Some e \<longrightarrow> ter_kind e = Some ''tlm_unconnected_port'')"
proof -
  have "unconnected_ports p n = [] \<longleftrightarrow>
      list_all (\<lambda>(q, c). list_all (\<lambda>i. \<not> pi_required i \<or> pi_connected i) (nd_ports c)) (all_nodes (p, n))"
  proof (induction n arbitrary: p rule: measure_induct_rule [of size])
    case (less n)
    let ?ok = "\<lambda>(q :: rustdv_path, c). list_all (\<lambda>i. \<not> pi_required i \<or> pi_connected i) (nd_ports c)"
    have "unconnected_ports p n = [] \<longleftrightarrow> ?ok (p, n) \<and>
        (\<forall>kc \<in> set (children_mut n). unconnected_ports (path_child p (fst kc)) (snd kc) = [])"
      by (subst unconnected_ports.simps) (auto simp: list_all_iff filter_empty_conv split_def)
    also have "\<dots> \<longleftrightarrow> ?ok (p, n) \<and>
        (\<forall>kc \<in> set (children_mut n). list_all ?ok (all_nodes (path_child p (fst kc), snd kc)))"
    proof -
      have "unconnected_ports (path_child p (fst kc)) (snd kc) = [] \<longleftrightarrow>
          list_all ?ok (all_nodes (path_child p (fst kc), snd kc))" if "kc \<in> set (children_mut n)" for kc
        by (rule less) (use children_size [of "fst kc" "snd kc" n] that in simp)
      then show ?thesis by blast
    qed
    also have "\<dots> \<longleftrightarrow> list_all ?ok (all_nodes (p, n))"
      by (subst all_nodes.simps) (auto simp: list_all_iff split_def)
    finally show ?case .
  qed
  then show ?thesis by (simp add: check_connections_def test_error_with_kind_def Let_def)
qed

text \<open>A test whose build creates a factory child and a vector of two.\<close>

definition demo_leaf :: "string \<Rightarrow> bool \<Rightarrow> nat node" where
  "demo_leaf name conn = Node name 1 [\<lparr>pi_name = ''p'', pi_kind = ''put'', pi_required = True, pi_connected = conn\<rparr>] []"

definition demo_hooks :: "(nat, unit, (phase \<times> rustdv_path) list) hooks" where
  "demo_hooks = \<lparr>
     hk_phase = (\<lambda>ph p n w.
       (if ph = Ph_build \<and> nd_user n = 0
        then Node (nd_name n) 0 [] [(''a'', FComp (Some (demo_leaf ''A'' True)) False None),
               (''v'', FVec [demo_leaf ''B'' True, demo_leaf ''C'' True])]
        else n, (fst w, snd w @ [(ph, p)]))),
     hk_check = (\<lambda>p n w. (n, (fst w, snd w @ [(Ph_check, p)]), []))\<rparr>"

definition demo_top :: "nat node" where
  "demo_top = Node ''top'' 0 [] []"

definition demo_path :: rustdv_path where
  "demo_path = path_child path_empty ''top''"

definition demo_db :: "(unit, nat node) fdb" where
  "demo_db = config_init"

definition demo_tree :: "nat node" where
  "demo_tree = Node ''top'' 0 [] [(''a'', FComp (Some (demo_leaf ''A'' True)) False None),
     (''v'', FVec [demo_leaf ''B'' True, demo_leaf ''C'' True])]"

definition demo_paths :: "rustdv_path list" where
  "demo_paths = [demo_path, path_child demo_path ''a'', path_child demo_path (vec_label ''v'' 0), path_child demo_path (vec_label ''v'' 1)]"

definition demo_run :: "rustdv_path \<Rightarrow> nat \<Rightarrow> nat \<times> test_error option" where
  "demo_run p u = (u + 1, if u = 0 then Some (test_error_new ''boom'') else None)"

lemma demo_settled: "settled demo_hooks"
  by (auto simp: settled_def keeps_fields_def demo_hooks_def)

lemma demo_logging: "logging snd demo_hooks"
  by (auto simp: logging_def logged_in_def demo_hooks_def)

lemma demo_build:
  "build_all 2 demo_hooks demo_path demo_top (set_in_build demo_db True, []) =
     Some (demo_tree, set_in_build demo_db True, map (Pair Ph_build) demo_paths)"
  by (simp add: build_all_def numeral_2_eq_2 build_hook_def demo_hooks_def demo_top_def demo_tree_def demo_paths_def
      resolve_children_def comp_resolve_def children_mut_def put_children_def demo_leaf_def split_def Let_def)

lemma demo_leaf_skel: "skel (demo_leaf name conn) = Rose [] []"
  by (subst skel.simps) (simp add: demo_leaf_def children_mut_def comp_names_def)

lemma demo_skel:
  "skel demo_tree = Rose [''a''] [(''a'', Rose [] []), (vec_label ''v'' 0, Rose [] []), (vec_label ''v'' 1, Rose [] [])]"
  by (subst skel.simps) (simp add: demo_tree_def demo_leaf_skel children_mut_def comp_names_def)

lemma demo_wf: "wf_node demo_tree"
  by (simp add: demo_skel)

lemma demo_leaf_ports:
  "unconnected_ports p (demo_leaf name conn) = (if conn then [] else [(if rp_rendered p = [] then ''(top)'' else rp_rendered p) @ ''.p (put)''])"
  by (subst unconnected_ports.simps) (simp add: demo_leaf_def children_mut_def)

lemma demo_connected: "check_connections demo_path demo_tree = None"
proof -
  have "unconnected_ports demo_path demo_tree = []"
    by (subst unconnected_ports.simps) (simp add: demo_tree_def children_mut_def demo_leaf_ports)
  then show ?thesis by (simp add: check_connections_def)
qed

lemma demo_connect:
  "connect_all 2 demo_hooks demo_path demo_tree (db, tr) =
     Some (demo_tree, db, tr @ map (Pair Ph_connect) (tl demo_paths @ [demo_path]))"
  by (simp add: connect_all_def numeral_2_eq_2 demo_hooks_def demo_tree_def demo_paths_def children_mut_def
      put_children_def demo_leaf_def split_def Let_def)

definition demo_run_code :: "(nat, unit, (phase \<times> rustdv_path) list) run_code" where
  "demo_run_code p n w = (demo_run, (fst w, snd w @ map (Pair Ph_run) (map fst (run_order p n))))"


theorem run_all_restores_tree_witness: "skel (fst (run_all demo_run demo_path demo_tree)) = skel demo_tree"
  by (rule run_all_restores_tree [OF demo_wf])

theorem check_connections_complete_witness:
  "check_connections demo_path (demo_leaf ''A'' True) = None \<and>
   map_option ter_kind (check_connections demo_path (demo_leaf ''A'' False)) = Some (Some ''tlm_unconnected_port'')"
proof -
  have "all_nodes (demo_path, demo_leaf ''A'' conn) = [(demo_path, demo_leaf ''A'' conn)]" for conn
    by (subst all_nodes.simps) (simp add: demo_leaf_def children_mut_def)
  then show ?thesis
    using check_connections_complete [of demo_path "demo_leaf ''A'' True"]
      check_connections_complete [of demo_path "demo_leaf ''A'' False"]
    by (auto simp: demo_leaf_def)
qed

end
