(* ===== verification/Fifo_Spec.thy ===== *)
theory Fifo_Spec
  imports Rustdv_Prelude
begin

text \<open>
  The contract every buffered channel of rustdv promises its clients, as a locale: the
  operations are an attempt to put and an attempt to take, the laws say what they do to the
  list of buffered items. The locale's lemmas are about whole runs of operations: nothing is
  lost, duplicated or reordered, and a bounded buffer never exceeds its bound. The queue of
  \<open>queue.rs\<close>, the channel of \<open>channel.rs\<close> and the FIFO of \<open>fifo.rs\<close> interpret it.
\<close>

section \<open>Runs of put and take attempts\<close>

datatype 'a fifo_op = Put_op 'a | Take_op

fun fifo_run :: "('s \<Rightarrow> 'a \<Rightarrow> 's \<times> bool) \<Rightarrow> ('s \<Rightarrow> 's \<times> 'a option) \<Rightarrow> 's \<Rightarrow> 'a fifo_op list
    \<Rightarrow> 's \<times> 'a list \<times> 'a list" where
  "fifo_run push pop s [] = (s, [], [])"
| "fifo_run push pop s (Put_op x # ops) =
     (let (s', ok) = push s x;
          (t, acc, del) = fifo_run push pop s' ops
      in (t, (if ok then x # acc else acc), del))"
| "fifo_run push pop s (Take_op # ops) =
     (let (s', got) = pop s;
          (t, acc, del) = fifo_run push pop s' ops
      in (t, acc, (case got of None \<Rightarrow> del | Some x \<Rightarrow> x # del)))"

definition has_room :: "nat option \<Rightarrow> 'a list \<Rightarrow> bool" where
  "has_room lim xs = (case lim of None \<Rightarrow> True | Some c \<Rightarrow> length xs < c)"

definition within :: "nat option \<Rightarrow> 'a list \<Rightarrow> bool" where
  "within lim xs = (case lim of None \<Rightarrow> True | Some c \<Rightarrow> length xs \<le> c)"

lemma has_room_within_snoc: "has_room lim xs \<Longrightarrow> within lim (xs @ [x])"
  by (auto simp: has_room_def within_def split: option.splits)

lemma within_tl: "within lim (x # xs) \<Longrightarrow> within lim xs"
  by (auto simp: within_def split: option.splits)

lemma within_Nil [simp]: "within lim []"
  by (auto simp: within_def split: option.splits)

section \<open>The abstract machine\<close>

text \<open>A bounded FIFO as a pair of its bound and its items. It has no waiters, no endpoints and no taps.\<close>

type_synonym 'a fifo_spec = "nat option \<times> 'a list"

definition spec_push :: "'a fifo_spec \<Rightarrow> 'a \<Rightarrow> 'a fifo_spec \<times> bool" where
  "spec_push s x = (if has_room (fst s) (snd s) then ((fst s, snd s @ [x]), True) else (s, False))"

definition spec_pop :: "'a fifo_spec \<Rightarrow> 'a fifo_spec \<times> 'a option" where
  "spec_pop s = (case snd s of [] \<Rightarrow> (s, None) | x # xs \<Rightarrow> ((fst s, xs), Some x))"

section \<open>The contract\<close>

locale bounded_fifo =
  fixes invar :: "'s \<Rightarrow> bool"
    and items :: "'s \<Rightarrow> 'a list"
    and limit :: "'s \<Rightarrow> nat option"
    and push :: "'s \<Rightarrow> 'a \<Rightarrow> 's \<times> bool"
    and pop :: "'s \<Rightarrow> 's \<times> 'a option"
  assumes push_ok: "invar s \<Longrightarrow> snd (push s x) = has_room (limit s) (items s)"
    and push_items: "invar s \<Longrightarrow>
      items (fst (push s x)) = (if has_room (limit s) (items s) then items s @ [x] else items s)"
    and push_limit: "invar s \<Longrightarrow> limit (fst (push s x)) = limit s"
    and push_invar: "invar s \<Longrightarrow> invar (fst (push s x))"
    and pop_got: "invar s \<Longrightarrow>
      snd (pop s) = (case items s of [] \<Rightarrow> None | y # _ \<Rightarrow> Some y)"
    and pop_items: "invar s \<Longrightarrow> items (fst (pop s)) = tl (items s)"
    and pop_limit: "invar s \<Longrightarrow> limit (fst (pop s)) = limit s"
    and pop_invar: "invar s \<Longrightarrow> invar (fst (pop s))"
begin

lemmas push_laws = push_ok push_items push_limit push_invar
lemmas pop_laws = pop_got pop_items pop_limit pop_invar

lemma run_conserves:
  assumes "invar s" and "fifo_run push pop s ops = (t, acc, del)"
  shows "del @ items t = items s @ acc"
  using assms
proof (induction ops arbitrary: s t acc del)
  case Nil
  then show ?case by simp
next
  case (Cons op ops)
  show ?case
  proof (cases op)
    case (Put_op x)
    obtain s' ok where p: "push s x = (s', ok)" by (cases "push s x")
    obtain t' acc' del' where r: "fifo_run push pop s' ops = (t', acc', del')"
      by (cases "fifo_run push pop s' ops") auto
    have "del' @ items t' = items s' @ acc'"
      using Cons.IH [OF _ r] push_invar [OF Cons.prems(1), of x] p by simp
    with p r Cons.prems(2) Put_op push_ok [OF Cons.prems(1), of x]
      push_items [OF Cons.prems(1), of x]
    show ?thesis by (auto split: if_splits)
  next
    case Take_op
    obtain s' got where p: "pop s = (s', got)" by (cases "pop s")
    obtain t' acc' del' where r: "fifo_run push pop s' ops = (t', acc', del')"
      by (cases "fifo_run push pop s' ops") auto
    have "del' @ items t' = items s' @ acc'"
      using Cons.IH [OF _ r] pop_invar [OF Cons.prems(1)] p by simp
    with p r Cons.prems(2) Take_op pop_got [OF Cons.prems(1)] pop_items [OF Cons.prems(1)]
    show ?thesis by (auto split: list.splits)
  qed
qed

lemma run_keeps:
  assumes "invar s" "within (limit s) (items s)" "fifo_run push pop s ops = (t, acc, del)"
  shows "invar t \<and> limit t = limit s \<and> within (limit t) (items t)"
  using assms
proof (induction ops arbitrary: s t acc del)
  case Nil
  then show ?case by simp
next
  case (Cons op ops)
  show ?case
  proof (cases op)
    case (Put_op x)
    obtain s' ok where p: "push s x = (s', ok)" by (cases "push s x")
    obtain t' acc' del' where r: "fifo_run push pop s' ops = (t', acc', del')"
      by (cases "fifo_run push pop s' ops") auto
    have "invar s'" "limit s' = limit s" "within (limit s') (items s')"
      using push_laws [OF Cons.prems(1), of x] p Cons.prems(2)
      by (auto intro: has_room_within_snoc split: if_splits)
    with Cons.IH [OF _ _ r] r p Cons.prems(3) Put_op show ?thesis by auto
  next
    case Take_op
    obtain s' got where p: "pop s = (s', got)" by (cases "pop s")
    obtain t' acc' del' where r: "fifo_run push pop s' ops = (t', acc', del')"
      by (cases "fifo_run push pop s' ops") auto
    have "invar s'" "limit s' = limit s" "within (limit s') (items s')"
      using pop_laws [OF Cons.prems(1)] p Cons.prems(2)
      by (cases "items s"; auto dest: within_tl)+
    with Cons.IH [OF _ _ r] r p Cons.prems(3) Take_op show ?thesis by auto
  qed
qed

text \<open>Every run is a run of the abstract machine with the same answers.\<close>

lemma run_refines:
  assumes "invar s" "fifo_run push pop s ops = (t, acc, del)"
  shows "fifo_run spec_push spec_pop (limit s, items s) ops = ((limit t, items t), acc, del)"
  using assms
proof (induction ops arbitrary: s t acc del)
  case (Cons op ops)
  show ?case
  proof (cases op)
    case (Put_op x)
    obtain s' ok where p: "push s x = (s', ok)" by (cases "push s x")
    obtain t' acc' del' where r: "fifo_run push pop s' ops = (t', acc', del')"
      by (cases "fifo_run push pop s' ops") auto
    have "spec_push (limit s, items s) x = ((limit s', items s'), ok)"
      using push_laws [OF Cons.prems(1), of x] p by (auto simp: spec_push_def)
    moreover have "fifo_run spec_push spec_pop (limit s', items s') ops = ((limit t', items t'), acc', del')"
      using Cons.IH [OF _ r] push_invar [OF Cons.prems(1), of x] p by simp
    ultimately show ?thesis using p r Cons.prems(2) Put_op by auto
  next
    case Take_op
    obtain s' got where p: "pop s = (s', got)" by (cases "pop s")
    obtain t' acc' del' where r: "fifo_run push pop s' ops = (t', acc', del')"
      by (cases "fifo_run push pop s' ops") auto
    have "spec_pop (limit s, items s) = ((limit s', items s'), got)"
      using pop_laws [OF Cons.prems(1)] p by (auto simp: spec_pop_def split: list.splits)
    moreover have "fifo_run spec_push spec_pop (limit s', items s') ops = ((limit t', items t'), acc', del')"
      using Cons.IH [OF _ r] pop_invar [OF Cons.prems(1)] p by simp
    ultimately show ?thesis using p r Cons.prems(2) Take_op by auto
  qed
qed simp

text \<open>From an empty buffer: what was delivered is a prefix of what was accepted.\<close>

lemma run_from_empty:
  assumes "invar s" "items s = []" "fifo_run push pop s ops = (t, acc, del)"
  shows "acc = del @ items t \<and> within (limit s) (items t)"
  using run_conserves [OF assms(1,3)] run_keeps [OF assms(1) _ assms(3)] assms(2)
  by (auto simp: within_def split: option.splits)

end

end
