(* ===== verification/Channel_Model.thy ===== *)
theory Channel_Model
  imports Fifo_Spec
begin

text \<open>
  The bounded channel of \<open>rustdv-methodology/src/channel.rs\<close>: a buffer, the number of live
  endpoints on each side and the parked wakers. Cloning and dropping endpoints are operations,
  since the last drop on a side disconnects the other. Each future is its \<open>poll\<close>.
\<close>

section \<open>State and operations\<close>

datatype tlm_error = Disconnected

record 'a chan_inner =
  ch_buf :: "'a list"
  ch_cap :: nat
  ch_senders :: nat
  ch_receivers :: nat
  ch_send_waiters :: "waker list"
  ch_recv_waiters :: "waker list"

definition channel :: "nat \<Rightarrow> 'a chan_inner" where
  "channel capacity = \<lparr>ch_buf = [], ch_cap = max capacity 1, ch_senders = 1, ch_receivers = 1,
     ch_send_waiters = [], ch_recv_waiters = []\<rparr>"

definition chan_has_space :: "'a chan_inner \<Rightarrow> bool" where
  "chan_has_space c = (length (ch_buf c) < ch_cap c)"

definition wake_senders :: "'a chan_inner \<Rightarrow> 'a chan_inner \<times> waker list" where
  "wake_senders c = (c\<lparr>ch_send_waiters := []\<rparr>, ch_send_waiters c)"

definition wake_receivers :: "'a chan_inner \<Rightarrow> 'a chan_inner \<times> waker list" where
  "wake_receivers c = (c\<lparr>ch_recv_waiters := []\<rparr>, ch_recv_waiters c)"

definition sender_clone :: "'a chan_inner \<Rightarrow> 'a chan_inner" where
  "sender_clone c = c\<lparr>ch_senders := ch_senders c + 1\<rparr>"

definition sender_drop :: "'a chan_inner \<Rightarrow> 'a chan_inner \<times> waker list" where
  "sender_drop c =
     (let n = ch_senders c - 1; c' = c\<lparr>ch_senders := n\<rparr>
      in if n = 0 then wake_receivers c' else (c', []))"

definition receiver_clone :: "'a chan_inner \<Rightarrow> 'a chan_inner" where
  "receiver_clone c = c\<lparr>ch_receivers := ch_receivers c + 1\<rparr>"

definition receiver_drop :: "'a chan_inner \<Rightarrow> 'a chan_inner \<times> waker list" where
  "receiver_drop c =
     (let n = ch_receivers c - 1; c' = c\<lparr>ch_receivers := n\<rparr>
      in if n = 0 then wake_senders c' else (c', []))"

text \<open>A refused item comes back as \<open>Inl\<close> (\<open>TlmFull\<close>).\<close>

definition try_send :: "'a chan_inner \<Rightarrow> 'a \<Rightarrow> ('a chan_inner \<times> waker list) \<times> ('a + unit)" where
  "try_send c item =
     (if ch_receivers c = 0 then ((c, []), Inl item)
      else if chan_has_space c then (wake_receivers (c\<lparr>ch_buf := ch_buf c @ [item]\<rparr>), Inr ())
      else ((c, []), Inl item))"

definition can_send :: "'a chan_inner \<Rightarrow> bool" where
  "can_send c = (chan_has_space c \<and> ch_receivers c > 0)"

definition send_poll :: "waker \<Rightarrow> 'a option \<Rightarrow> 'a chan_inner
    \<Rightarrow> ('a option \<times> ('a chan_inner \<times> waker list) \<times> (tlm_error + unit) poll) may_panic" where
  "send_poll w item c =
     (if ch_receivers c = 0 then Inr (item, (c, []), Ready (Inl Disconnected))
      else if chan_has_space c
      then (case item of
              None \<Rightarrow> panics ''Send polled after completion''
            | Some x \<Rightarrow> Inr (None, wake_receivers (c\<lparr>ch_buf := ch_buf c @ [x]\<rparr>), Ready (Inr ())))
      else Inr (item, (c\<lparr>ch_send_waiters := ch_send_waiters c @ [w]\<rparr>, []), Pending))"

definition try_recv :: "'a chan_inner \<Rightarrow> ('a chan_inner \<times> waker list) \<times> 'a option" where
  "try_recv c =
     (case ch_buf c of
        x # xs \<Rightarrow> (wake_senders (c\<lparr>ch_buf := xs\<rparr>), Some x)
      | [] \<Rightarrow> ((c, []), None))"

definition chan_try_peek :: "'a chan_inner \<Rightarrow> 'a option" where
  "chan_try_peek c = (case ch_buf c of x # _ \<Rightarrow> Some x | [] \<Rightarrow> None)"

definition recv_poll :: "waker \<Rightarrow> 'a chan_inner
    \<Rightarrow> ('a chan_inner \<times> waker list) \<times> (tlm_error + 'a) poll" where
  "recv_poll w c =
     (case ch_buf c of
        x # xs \<Rightarrow> (wake_senders (c\<lparr>ch_buf := xs\<rparr>), Ready (Inr x))
      | [] \<Rightarrow>
          if ch_senders c = 0 then ((c, []), Ready (Inl Disconnected))
          else ((c\<lparr>ch_recv_waiters := ch_recv_waiters c @ [w]\<rparr>, []), Pending))"

definition chan_peek_poll :: "waker \<Rightarrow> 'a chan_inner
    \<Rightarrow> ('a chan_inner \<times> waker list) \<times> (tlm_error + 'a) poll" where
  "chan_peek_poll w c =
     (case ch_buf c of
        x # _ \<Rightarrow> ((c, []), Ready (Inr x))
      | [] \<Rightarrow>
          if ch_senders c = 0 then ((c, []), Ready (Inl Disconnected))
          else ((c\<lparr>ch_recv_waiters := ch_recv_waiters c @ [w]\<rparr>, []), Pending))"

lemmas chan_defs = channel_def chan_has_space_def wake_senders_def wake_receivers_def sender_clone_def
  sender_drop_def receiver_clone_def receiver_drop_def try_send_def send_poll_def try_recv_def
  recv_poll_def chan_peek_poll_def

section \<open>While a receiver lives the channel is a bounded FIFO\<close>

definition chan_push :: "'a chan_inner \<Rightarrow> 'a \<Rightarrow> 'a chan_inner \<times> bool" where
  "chan_push c x = (case try_send c x of ((c', _), r) \<Rightarrow> (c', r = Inr ()))"

definition chan_pop :: "'a chan_inner \<Rightarrow> 'a chan_inner \<times> 'a option" where
  "chan_pop c = (case try_recv c of ((c', _), r) \<Rightarrow> (c', r))"

interpretation ch: bounded_fifo "\<lambda>c. ch_receivers c > 0" ch_buf "\<lambda>c. Some (ch_cap c)" chan_push chan_pop
  by unfold_locales
    (auto simp: chan_push_def chan_pop_def chan_defs has_room_def split: list.splits)

section \<open>Steps of the tasks that share a channel\<close>

text \<open>An endpoint can only be used, cloned or dropped while one is alive. A \<open>Recv\<close> or \<open>Send_\<close>
  future keeps the channel but not the endpoint, so it may be polled after the last endpoint
  of its side is gone.\<close>

inductive chan_step :: "'a chan_inner \<Rightarrow> 'a chan_inner \<times> waker list \<Rightarrow> bool" where
  c_sclone: "ch_senders c > 0 \<Longrightarrow> chan_step c (sender_clone c, [])"
| c_sdrop: "ch_senders c > 0 \<Longrightarrow> chan_step c (sender_drop c)"
| c_rclone: "ch_receivers c > 0 \<Longrightarrow> chan_step c (receiver_clone c, [])"
| c_rdrop: "ch_receivers c > 0 \<Longrightarrow> chan_step c (receiver_drop c)"
| c_try_send: "ch_senders c > 0 \<Longrightarrow> try_send c x = (e, r) \<Longrightarrow> chan_step c e"
| c_try_recv: "ch_receivers c > 0 \<Longrightarrow> try_recv c = (e, r) \<Longrightarrow> chan_step c e"
| c_send: "send_poll w item c = Inr (item', e, r) \<Longrightarrow> chan_step c e"
| c_recv: "recv_poll w c = (e, r) \<Longrightarrow> chan_step c e"
| c_peek: "chan_peek_poll w c = (e, r) \<Longrightarrow> chan_step c e"

inductive chan_reachable :: "nat \<Rightarrow> 'a chan_inner \<Rightarrow> bool" for cap where
  cr_start: "chan_reachable cap (channel cap)"
| cr_step: "chan_reachable cap c \<Longrightarrow> chan_step c (c', ws) \<Longrightarrow> chan_reachable cap c'"

definition chan_inv :: "nat \<Rightarrow> 'a chan_inner \<Rightarrow> bool" where
  "chan_inv cap c \<longleftrightarrow> ch_cap c = max cap 1 \<and> length (ch_buf c) \<le> ch_cap c \<and>
     (ch_recv_waiters c \<noteq> [] \<longrightarrow> ch_buf c = [] \<and> ch_senders c > 0) \<and>
     (ch_send_waiters c \<noteq> [] \<longrightarrow> \<not> chan_has_space c \<and> ch_receivers c > 0)"

lemma chan_step_inv [keeps]: "chan_step c e \<Longrightarrow> chan_inv cap c \<Longrightarrow> chan_inv cap (fst e)"
  by (induction rule: chan_step.induct)
    (auto simp: chan_inv_def chan_defs Let_def split: if_splits list.splits option.splits)

lemma chan_reachable_inv: "chan_reachable cap c \<Longrightarrow> chan_inv cap c"
proof (induction rule: chan_reachable.induct)
  case cr_start
  then show ?case by (simp add: chan_inv_def channel_def)
qed (auto dest: chan_step_inv)

text \<open>What a parked task waits for: an item or the end of the senders, space or the end of the receivers.\<close>

definition recv_ready :: "'a chan_inner \<Rightarrow> bool" where
  "recv_ready c \<longleftrightarrow> ch_buf c \<noteq> [] \<or> ch_senders c = 0"

definition send_ready :: "'a chan_inner \<Rightarrow> bool" where
  "send_ready c \<longleftrightarrow> chan_has_space c \<or> ch_receivers c = 0"

text \<open>A waker leaves its list only by being called.\<close>

lemma chan_step_wakes:
  "chan_step c e \<Longrightarrow> chan_inv cap c \<Longrightarrow>
     set (ch_recv_waiters c) \<subseteq> set (if recv_ready (fst e) then snd e else ch_recv_waiters (fst e)) \<and>
     set (ch_send_waiters c) \<subseteq> set (if send_ready (fst e) then snd e else ch_send_waiters (fst e))"
  by (induction rule: chan_step.induct)
    (auto simp: chan_inv_def chan_defs recv_ready_def send_ready_def Let_def split: if_splits list.splits option.splits)

section \<open>Properties\<close>

text \<open>Over any sequence of sends and receives while a receiver lives, received items followed
  by buffered ones are the accepted items in order, and at most max(capacity, 1) are buffered.\<close>

theorem channel_fifo:
  assumes "fifo_run chan_push chan_pop (channel cap) ops = (c, accepted, received)"
  shows "accepted = received @ ch_buf c \<and> length (ch_buf c) \<le> max cap 1"
  using ch.run_from_empty [OF _ _ assms] by (simp add: channel_def within_def)

theorem channel_fifo_witness:
  "\<exists>c. fifo_run chan_push chan_pop (channel 0) [Put_op (1::nat), Put_op 2, Take_op, Put_op 3] = (c, [1, 3], [1])
     \<and> [1, 3] = [1] @ ch_buf c"
proof -
  obtain c where r: "fifo_run chan_push chan_pop (channel 0) [Put_op (1::nat), Put_op 2, Take_op, Put_op 3] =
      (c, [1, 3], [1])"
    by (simp add: chan_push_def chan_pop_def chan_defs)
  from channel_fifo [OF r] r show ?thesis by blast
qed

text \<open>C9: No endpoint sleeps for ever on a condition that holds. In every reachable channel a parked
  receiver means the buffer is empty and a sender lives, a parked sender means the buffer is
  full and a receiver lives. A step that ends such a wait (an item or a free place arrives, or
  the last endpoint of the other side is dropped) calls the wakers of everybody who was parked for
  it, and a step that does not keeps them all parked; in particular dropping the last
  sender calls every parked receiver and dropping the last receiver every parked sender.\<close>

theorem channel_no_lost_wakeup:
  assumes "chan_reachable cap c"
  shows "(ch_recv_waiters c \<noteq> [] \<longrightarrow> \<not> recv_ready c) \<and> (ch_send_waiters c \<noteq> [] \<longrightarrow> \<not> send_ready c) \<and>
    (\<forall>c' ws. chan_step c (c', ws) \<longrightarrow>
      set (ch_recv_waiters c) \<subseteq> set (if recv_ready c' then ws else ch_recv_waiters c') \<and>
      set (ch_send_waiters c) \<subseteq> set (if send_ready c' then ws else ch_send_waiters c')) \<and>
    (ch_senders c = 1 \<longrightarrow> snd (sender_drop c) = ch_recv_waiters c) \<and>
    (ch_receivers c = 1 \<longrightarrow> snd (receiver_drop c) = ch_send_waiters c)"
  using chan_reachable_inv [OF assms] chan_step_wakes [of c _ cap]
  by (fastforce simp: chan_inv_def recv_ready_def send_ready_def sender_drop_def receiver_drop_def
      wake_receivers_def wake_senders_def)

definition parked_chan :: "nat chan_inner" where
  "parked_chan = (channel 1)\<lparr>ch_recv_waiters := [4]\<rparr>"

theorem channel_no_lost_wakeup_witness:
  "ch_recv_waiters parked_chan = [4] \<and> \<not> recv_ready parked_chan \<and> snd (sender_drop parked_chan) = [4]"
proof -
  have "chan_reachable 1 parked_chan"
    by (rule cr_step [OF cr_start], rule c_recv [where w = 4])
      (simp add: recv_poll_def channel_def parked_chan_def)
  from channel_no_lost_wakeup [OF this] show ?thesis by (simp add: parked_chan_def channel_def)
qed

fun recv_polls :: "waker \<Rightarrow> nat \<Rightarrow> 'a chan_inner \<Rightarrow> (tlm_error + 'a) poll list" where
  "recv_polls w 0 c = []"
| "recv_polls w (Suc n) c = (case recv_poll w c of ((c', _), r) \<Rightarrow> r # recv_polls w n c')"

lemma recv_polls_closed:
  "ch_senders c = 0 \<Longrightarrow> ch_buf c = [] \<Longrightarrow> recv_polls w n c = replicate n (Ready (Inl Disconnected))"
  by (induction n) (auto simp: recv_poll_def)

lemma recv_polls_drain:
  "ch_senders c = 0 \<Longrightarrow> ch_buf c = xs \<Longrightarrow>
     recv_polls w (length xs + n) c = map (\<lambda>x. Ready (Inr x)) xs @ replicate n (Ready (Inl Disconnected))"
proof (induction xs arbitrary: c)
  case (Cons x xs)
  have "recv_polls w (length xs + n) (c\<lparr>ch_buf := xs, ch_send_waiters := []\<rparr>) =
      map (\<lambda>x. Ready (Inr x)) xs @ replicate n (Ready (Inl Disconnected))"
    using Cons by simp
  with Cons.prems show ?case by (simp add: recv_poll_def wake_senders_def)
qed (simp add: recv_polls_closed)

text \<open>After the last sender is gone a receiver is never parked: repeated polls hand out the
  buffered items in order and then report Disconnected for good.\<close>

theorem recv_drains_then_disconnects:
  assumes "ch_senders c = 0"
  shows "recv_polls w (length (ch_buf c) + n) c =
    map (\<lambda>x. Ready (Inr x)) (ch_buf c) @ replicate n (Ready (Inl Disconnected))"
  using recv_polls_drain [OF assms refl] .

theorem recv_drains_then_disconnects_witness:
  "recv_polls 0 3 ((channel 2)\<lparr>ch_buf := [1, 2 :: nat], ch_senders := 0\<rparr>) =
     [Ready (Inr 1), Ready (Inr 2), Ready (Inl Disconnected)]"
  using recv_drains_then_disconnects [of "(channel 2)\<lparr>ch_buf := [1, 2 :: nat], ch_senders := 0\<rparr>" 0 1]
  by (simp add: numeral_3_eq_3)

end
