(* ===== verification/Sync_Model.thy ===== *)
theory Sync_Model
  imports Rustdv_Prelude
begin

text \<open>
  \<open>Event\<close> and \<open>Lock\<close> of \<open>rustdv-sim/src/sync.rs\<close>. The reference-counted waiter cells of the
  lock live in a heap indexed by allocation number, because the queue, the future and the
  releaser share them. The lock is used through futures and guards that the tasks create, poll
  and drop in any order: that is the step relation at the end, over which mutual exclusion,
  fair hand-over and survival of cancelled waiters are proved.
\<close>

section \<open>Event\<close>

record event =
  ev_is_set :: bool
  ev_waiters :: "waker list"

definition event_new :: event where
  "event_new = \<lparr>ev_is_set = False, ev_waiters = []\<rparr>"

definition event_set :: "event \<Rightarrow> event \<times> waker list" where
  "event_set e = (e\<lparr>ev_is_set := True, ev_waiters := []\<rparr>, ev_waiters e)"

definition event_clear :: "event \<Rightarrow> event" where
  "event_clear e = e\<lparr>ev_is_set := False\<rparr>"

definition event_poll :: "event \<Rightarrow> waker \<Rightarrow> event \<times> unit poll" where
  "event_poll e w =
     (if ev_is_set e then (e, Ready ()) else (e\<lparr>ev_waiters := ev_waiters e @ [w]\<rparr>, Pending))"

inductive event_reachable :: "event \<Rightarrow> bool" where
  er_new: "event_reachable event_new"
| er_set: "event_reachable e \<Longrightarrow> event_reachable (fst (event_set e))"
| er_clear: "event_reachable e \<Longrightarrow> event_reachable (event_clear e)"
| er_poll: "event_reachable e \<Longrightarrow> event_reachable (fst (event_poll e w))"

lemmas event_defs = event_new_def event_set_def event_clear_def event_poll_def

lemma event_set_no_waiters: "event_reachable e \<Longrightarrow> ev_is_set e \<Longrightarrow> ev_waiters e = []"
  by (induction rule: event_reachable.induct) (auto simp: event_defs split: if_splits)

section \<open>Lock: data and operations\<close>

record lock_waiter =
  lw_granted :: bool
  lw_waker :: "waker option"

record lock_inner =
  li_locked :: bool
  li_waiters :: "nat list"
  li_heap :: "nat \<Rightarrow> lock_waiter"
  li_next :: nat

record acquire =
  aq_waiter :: "nat option"
  aq_acquired :: bool

definition lock_new :: lock_inner where
  "lock_new = \<lparr>li_locked = False, li_waiters = [], li_heap = (\<lambda>_. \<lparr>lw_granted = False, lw_waker = None\<rparr>),
     li_next = 0\<rparr>"

definition release :: "lock_inner \<Rightarrow> lock_inner \<times> waker list" where
  "release l =
     (case li_waiters l of
        w # ws \<Rightarrow>
          (l\<lparr>li_waiters := ws, li_heap := (li_heap l)(w := \<lparr>lw_granted = True, lw_waker = None\<rparr>)\<rparr>,
           (case lw_waker (li_heap l w) of Some wk \<Rightarrow> [wk] | None \<Rightarrow> []))
      | [] \<Rightarrow> (l\<lparr>li_locked := False\<rparr>, []))"

definition acquire_new :: acquire where
  "acquire_new = \<lparr>aq_waiter = None, aq_acquired = False\<rparr>"

text \<open>\<open>Ready\<close> carries the guard.\<close>

definition acquire_poll :: "lock_inner \<Rightarrow> acquire \<Rightarrow> waker \<Rightarrow> lock_inner \<times> acquire \<times> unit poll" where
  "acquire_poll l a wk =
     (case aq_waiter a of
        None \<Rightarrow>
          if \<not> li_locked l then (l\<lparr>li_locked := True\<rparr>, a\<lparr>aq_acquired := True\<rparr>, Ready ())
          else (l\<lparr>li_waiters := li_waiters l @ [li_next l],
                  li_heap := (li_heap l)(li_next l := \<lparr>lw_granted = False, lw_waker = Some wk\<rparr>),
                  li_next := Suc (li_next l)\<rparr>,
                a\<lparr>aq_waiter := Some (li_next l)\<rparr>, Pending)
      | Some w \<Rightarrow>
          if lw_granted (li_heap l w) then (l, a\<lparr>aq_acquired := True\<rparr>, Ready ())
          else (l\<lparr>li_heap := (li_heap l)(w := (li_heap l w)\<lparr>lw_waker := Some wk\<rparr>)\<rparr>, a, Pending))"

definition acquire_drop :: "lock_inner \<Rightarrow> acquire \<Rightarrow> lock_inner \<times> waker list" where
  "acquire_drop l a =
     (if aq_acquired a then (l, [])
      else (case aq_waiter a of
          None \<Rightarrow> (l, [])
        | Some w \<Rightarrow>
            if lw_granted (li_heap l w) then release l
            else (l\<lparr>li_waiters := filter (\<lambda>x. x \<noteq> w) (li_waiters l)\<rparr>, [])))"

definition guard_drop :: "lock_inner \<Rightarrow> lock_inner \<times> waker list" where
  "guard_drop l = release l"

section \<open>Lock: the tasks that use it\<close>

record lock_sys =
  ls_lock :: lock_inner
  ls_futs :: "nat \<Rightarrow> acquire option"
  ls_guards :: nat

definition lock_sys_new :: lock_sys where
  "lock_sys_new = \<lparr>ls_lock = lock_new, ls_futs = (\<lambda>_. None), ls_guards = 0\<rparr>"

definition poll_fut :: "lock_sys \<Rightarrow> nat \<Rightarrow> acquire \<Rightarrow> waker \<Rightarrow> lock_sys" where
  "poll_fut s f a wk =
     (case acquire_poll (ls_lock s) a wk of (l, a', r) \<Rightarrow>
        s\<lparr>ls_lock := l, ls_futs := (ls_futs s)(f := Some a'),
          ls_guards := (if r = Pending then ls_guards s else Suc (ls_guards s))\<rparr>)"

inductive lock_step :: "lock_sys \<Rightarrow> lock_sys \<Rightarrow> bool" where
  ls_acquire: "ls_futs s f = None \<Longrightarrow> lock_step s (s\<lparr>ls_futs := (ls_futs s)(f := Some acquire_new)\<rparr>)"
| ls_poll: "ls_futs s f = Some a \<Longrightarrow> \<not> aq_acquired a \<Longrightarrow> lock_step s (poll_fut s f a wk)"
| ls_drop: "ls_futs s f = Some a \<Longrightarrow>
    lock_step s (s\<lparr>ls_futs := (ls_futs s)(f := None), ls_lock := fst (acquire_drop (ls_lock s) a)\<rparr>)"
| ls_guard: "ls_guards s = Suc n \<Longrightarrow>
    lock_step s (s\<lparr>ls_guards := n, ls_lock := fst (guard_drop (ls_lock s))\<rparr>)"

inductive lock_reachable :: "lock_sys \<Rightarrow> bool" where
  lr_new: "lock_reachable lock_sys_new"
| lr_step: "lock_reachable s \<Longrightarrow> lock_step s t \<Longrightarrow> lock_reachable t"

text \<open>The futures that were handed the lock and have not been polled since.\<close>

definition grantees :: "lock_sys \<Rightarrow> nat set" where
  "grantees s = {f. \<exists>a w. ls_futs s f = Some a \<and> \<not> aq_acquired a \<and> aq_waiter a = Some w
     \<and> lw_granted (li_heap (ls_lock s) w)}"

definition own_ok :: "lock_sys \<Rightarrow> bool" where
  "own_ok s \<longleftrightarrow>
     (if \<not> li_locked (ls_lock s) then ls_guards s = 0 \<and> grantees s = {} \<and> li_waiters (ls_lock s) = []
      else ls_guards s = 1 \<and> grantees s = {} \<or> ls_guards s = 0 \<and> (\<exists>f. grantees s = {f}))"

definition waits :: "(nat \<Rightarrow> acquire option) \<Rightarrow> nat \<Rightarrow> bool" where
  "waits futs w \<longleftrightarrow> (\<exists>f a. futs f = Some a \<and> \<not> aq_acquired a \<and> aq_waiter a = Some w)"

definition queue_ok :: "lock_sys \<Rightarrow> bool" where
  "queue_ok s \<longleftrightarrow> distinct (li_waiters (ls_lock s)) \<and>
     (\<forall>w \<in> set (li_waiters (ls_lock s)). \<not> lw_granted (li_heap (ls_lock s) w) \<and> w < li_next (ls_lock s) \<and>
        waits (ls_futs s) w)"

definition fut_at :: "lock_inner \<Rightarrow> acquire \<Rightarrow> bool" where
  "fut_at l a \<longleftrightarrow>
     (\<forall>w. aq_waiter a = Some w \<longrightarrow> w < li_next l \<and>
        (\<not> lw_granted (li_heap l w) \<longrightarrow> \<not> aq_acquired a \<and> w \<in> set (li_waiters l)))"

definition sole :: "(nat \<Rightarrow> acquire option) \<Rightarrow> bool" where
  "sole futs \<longleftrightarrow>
     (\<forall>f g a b w. futs f = Some a \<longrightarrow> futs g = Some b \<longrightarrow> aq_waiter a = Some w \<longrightarrow> aq_waiter b = Some w \<longrightarrow> f = g)"

definition futs_ok :: "lock_sys \<Rightarrow> bool" where
  "futs_ok s \<longleftrightarrow> sole (ls_futs s) \<and> (\<forall>f a. ls_futs s f = Some a \<longrightarrow> fut_at (ls_lock s) a)"

definition lock_inv :: "lock_sys \<Rightarrow> bool" where
  "lock_inv s \<longleftrightarrow> own_ok s \<and> queue_ok s \<and> futs_ok s"

section \<open>Lock: the invariant holds\<close>

lemma waits_upd: "waits futs w \<Longrightarrow> (\<And>a. futs f = Some a \<Longrightarrow> aq_waiter a \<noteq> Some w) \<Longrightarrow> waits (futs(f := x)) w"
  unfolding waits_def by (metis fun_upd_other)

lemma waits_new: "aq_waiter a = Some w \<Longrightarrow> \<not> aq_acquired a \<Longrightarrow> waits (futs(f := Some a)) w"
  unfolding waits_def by (metis fun_upd_same)

lemma soleD: "sole futs \<Longrightarrow> futs f = Some a \<Longrightarrow> futs g = Some b \<Longrightarrow> aq_waiter a = Some w \<Longrightarrow> aq_waiter b = Some w \<Longrightarrow> f = g"
  unfolding sole_def by blast

lemma sole_upd:
  assumes "sole futs"
    and "\<And>a w g b. x = Some a \<Longrightarrow> aq_waiter a = Some w \<Longrightarrow> g \<noteq> f \<Longrightarrow> futs g = Some b \<Longrightarrow> aq_waiter b \<noteq> Some w"
  shows "sole (futs(f := x))"
  unfolding sole_def
proof (intro allI impI)
  fix g h a b w
  assume "(futs(f := x)) g = Some a" "(futs(f := x)) h = Some b" "aq_waiter a = Some w" "aq_waiter b = Some w"
  then show "g = h"
    using assms(2) soleD [OF assms(1)] by (metis fun_upd_apply)
qed

lemma sole_same:
  assumes "sole futs" "futs f = Some a" "aq_waiter b = aq_waiter a"
  shows "sole (futs(f := Some b))"
proof (rule sole_upd [OF assms(1)])
  fix c w g d
  assume "Some b = Some c" "aq_waiter c = Some w" "g \<noteq> f" "futs g = Some d"
  then show "aq_waiter d \<noteq> Some w" using soleD [OF assms(1,2), of g d w] assms(3) by auto
qed

lemma futs_ok_upd:
  assumes "futs_ok s" "sole ((ls_futs s)(f := x))" "\<And>a. x = Some a \<Longrightarrow> fut_at l a"
    "\<And>g a. g \<noteq> f \<Longrightarrow> ls_futs s g = Some a \<Longrightarrow> fut_at (ls_lock s) a \<Longrightarrow> fut_at l a"
  shows "futs_ok (s\<lparr>ls_lock := l, ls_futs := (ls_futs s)(f := x), ls_guards := n\<rparr>)"
  using assms by (auto simp: futs_ok_def)

lemma queue_ok_upd:
  assumes "queue_ok s" "li_waiters l = li_waiters (ls_lock s)" "li_heap l = li_heap (ls_lock s)"
    "li_next l = li_next (ls_lock s)"
    "\<And>a w. ls_futs s f = Some a \<Longrightarrow> aq_waiter a = Some w \<Longrightarrow> aq_acquired a \<or> lw_granted (li_heap (ls_lock s) w)"
  shows "queue_ok (s\<lparr>ls_lock := l, ls_futs := (ls_futs s)(f := x), ls_guards := n\<rparr>)"
proof -
  have "waits ((ls_futs s)(f := x)) w" if "w \<in> set (li_waiters (ls_lock s))" for w
    using assms(1,5) that unfolding queue_ok_def waits_def by (metis fun_upd_other option.inject)
  then show ?thesis using assms by (simp add: queue_ok_def)
qed

lemma release_inv:
  assumes q: "queue_ok s" and fo: "futs_ok s" and g: "ls_guards s = 0" and n: "grantees s = {}"
    and l: "li_locked (ls_lock s)"
  shows "lock_inv (s\<lparr>ls_lock := fst (release (ls_lock s))\<rparr>)"
proof (cases "li_waiters (ls_lock s)")
  case Nil
  then show ?thesis using assms
    by (simp add: lock_inv_def own_ok_def queue_ok_def futs_ok_def fut_at_def grantees_def release_def)
next
  case (Cons w ws)
  let ?t = "s\<lparr>ls_lock := fst (release (ls_lock s))\<rparr>"
  have r: "li_waiters (ls_lock ?t) = ws"
    "li_heap (ls_lock ?t) = (li_heap (ls_lock s))(w := \<lparr>lw_granted = True, lw_waker = None\<rparr>)"
    "li_next (ls_lock ?t) = li_next (ls_lock s)" "li_locked (ls_lock ?t)"
    using l by (simp_all add: release_def Cons)
  from q Cons obtain f a where f: "ls_futs s f = Some a" "\<not> aq_acquired a" "aq_waiter a = Some w"
    by (auto simp: queue_ok_def waits_def)
  have "grantees ?t = {f}"
  proof
    show "{f} \<subseteq> grantees ?t" using f unfolding grantees_def r by simp
    show "grantees ?t \<subseteq> {f}"
    proof
      fix h assume "h \<in> grantees ?t"
      then obtain b v where h: "ls_futs s h = Some b" "\<not> aq_acquired b" "aq_waiter b = Some v"
        "v = w \<or> lw_granted (li_heap (ls_lock s) v)"
        unfolding grantees_def r by (auto split: if_splits)
      have "v = w" using h n by (auto simp: grantees_def)
      then show "h \<in> {f}" using fo f(1,3) h(1,3) soleD [of "ls_futs s"] by (auto simp: futs_ok_def)
    qed
  qed
  then have "own_ok ?t" using g r(4) by (simp add: own_ok_def)
  moreover have "queue_ok ?t" using q Cons unfolding queue_ok_def r by auto
  moreover have "futs_ok ?t" using fo Cons unfolding futs_ok_def fut_at_def r by auto
  ultimately show ?thesis by (simp add: lock_inv_def)
qed

lemma acquire_inv:
  assumes "lock_inv s" "ls_futs s f = None"
  shows "lock_inv (s\<lparr>ls_futs := (ls_futs s)(f := Some acquire_new)\<rparr>)"
proof -
  let ?t = "s\<lparr>ls_futs := (ls_futs s)(f := Some acquire_new)\<rparr>"
  have "grantees ?t = grantees s" using assms(2) by (auto simp: grantees_def acquire_new_def)
  moreover have "queue_ok ?t"
    using assms queue_ok_upd [where s = s and l = "ls_lock s" and f = f and x = "Some acquire_new" and n = "ls_guards s"] by (simp add: lock_inv_def)
  moreover have "sole ((ls_futs s)(f := Some acquire_new))"
    by (rule sole_upd) (use assms in \<open>auto simp: lock_inv_def futs_ok_def acquire_new_def\<close>)
  then have "futs_ok ?t" using assms
    by (auto simp: lock_inv_def futs_ok_def fut_at_def acquire_new_def)
  ultimately show ?thesis using assms by (auto simp: lock_inv_def own_ok_def)
qed

lemma poll_free_inv:
  assumes "lock_inv s" "ls_futs s f = Some a" "aq_waiter a = None" "\<not> li_locked (ls_lock s)"
  shows "lock_inv (poll_fut s f a wk)"
proof -
  let ?t = "poll_fut s f a wk"
  have t: "?t = s\<lparr>ls_lock := (ls_lock s)\<lparr>li_locked := True\<rparr>,
      ls_futs := (ls_futs s)(f := Some (a\<lparr>aq_acquired := True\<rparr>)), ls_guards := Suc (ls_guards s)\<rparr>"
    using assms by (simp add: poll_fut_def acquire_poll_def)
  have "grantees ?t = grantees s" using assms(2,3) by (auto simp: t grantees_def)
  moreover have "queue_ok ?t" unfolding t
    by (rule queue_ok_upd) (use assms in \<open>auto simp: lock_inv_def\<close>)
  moreover have "futs_ok ?t" unfolding t
    by (rule futs_ok_upd) (use assms sole_same [of "ls_futs s" f a "a\<lparr>aq_acquired := True\<rparr>"] in
      \<open>auto simp: lock_inv_def futs_ok_def fut_at_def\<close>)
  ultimately show ?thesis using assms by (auto simp: lock_inv_def own_ok_def t)
qed

lemma poll_park_inv:
  assumes "lock_inv s" "ls_futs s f = Some a" "\<not> aq_acquired a" "aq_waiter a = None" "li_locked (ls_lock s)"
  shows "lock_inv (poll_fut s f a wk)"
proof -
  let ?t = "poll_fut s f a wk" and ?w = "li_next (ls_lock s)"
  have t: "?t = s\<lparr>ls_lock := (ls_lock s)\<lparr>li_waiters := li_waiters (ls_lock s) @ [?w],
        li_heap := (li_heap (ls_lock s))(?w := \<lparr>lw_granted = False, lw_waker = Some wk\<rparr>), li_next := Suc ?w\<rparr>,
      ls_futs := (ls_futs s)(f := Some (a\<lparr>aq_waiter := Some ?w\<rparr>))\<rparr>"
    using assms by (simp add: poll_fut_def acquire_poll_def)
  have old: "v < ?w" if "ls_futs s g = Some b" "aq_waiter b = Some v" for g b v
    using assms(1) that unfolding lock_inv_def futs_ok_def fut_at_def by blast
  have "grantees ?t = grantees s" using assms(2,4) old unfolding t
    by (auto simp: grantees_def split: if_splits) (metis less_irrefl)
  moreover have "waits ((ls_futs s)(f := Some (a\<lparr>aq_waiter := Some ?w\<rparr>))) v"
    if "v \<in> insert ?w (set (li_waiters (ls_lock s)))" for v
    using that assms waits_upd [of "ls_futs s" v f] waits_new [of "a\<lparr>aq_waiter := Some ?w\<rparr>" ?w "ls_futs s" f]
    by (auto simp: lock_inv_def queue_ok_def)
  then have "queue_ok ?t"
    using assms unfolding t by (auto simp: lock_inv_def queue_ok_def less_Suc_eq)
  moreover have "sole ((ls_futs s)(f := Some (a\<lparr>aq_waiter := Some ?w\<rparr>)))"
    by (rule sole_upd) (use assms(1) in \<open>auto simp: lock_inv_def futs_ok_def dest: old\<close>)
  then have "futs_ok ?t" using assms(1,3) unfolding t
    by (auto simp: lock_inv_def futs_ok_def fut_at_def less_Suc_eq)
  ultimately show ?thesis using assms by (auto simp: lock_inv_def own_ok_def t)
qed

lemma poll_claim_inv:
  assumes "lock_inv s" "ls_futs s f = Some a" "\<not> aq_acquired a" "aq_waiter a = Some w"
    "lw_granted (li_heap (ls_lock s) w)"
  shows "lock_inv (poll_fut s f a wk)"
proof -
  let ?t = "poll_fut s f a wk"
  have t: "?t = s\<lparr>ls_futs := (ls_futs s)(f := Some (a\<lparr>aq_acquired := True\<rparr>)), ls_guards := Suc (ls_guards s)\<rparr>"
    using assms by (simp add: poll_fut_def acquire_poll_def)
  have f: "f \<in> grantees s" using assms by (auto simp: grantees_def)
  have "grantees ?t = grantees s - {f}" by (auto simp: t grantees_def)
  with f assms(1) have "own_ok ?t" by (auto simp: t lock_inv_def own_ok_def split: if_splits)
  moreover have "queue_ok (s\<lparr>ls_lock := ls_lock s, ls_futs := (ls_futs s)(f := Some (a\<lparr>aq_acquired := True\<rparr>)),
      ls_guards := Suc (ls_guards s)\<rparr>)"
    by (intro queue_ok_upd) (use assms in \<open>auto simp: lock_inv_def\<close>)
  then have "queue_ok ?t" by (simp add: t)
  moreover have "sole ((ls_futs s)(f := Some (a\<lparr>aq_acquired := True\<rparr>)))"
    using assms by (auto simp: lock_inv_def futs_ok_def intro!: sole_same)
  then have "futs_ok ?t" using assms unfolding t by (auto simp: lock_inv_def futs_ok_def fut_at_def)
  ultimately show ?thesis by (simp add: lock_inv_def)
qed

lemma poll_again_inv:
  assumes "lock_inv s" "ls_futs s f = Some a" "\<not> aq_acquired a" "aq_waiter a = Some w"
    "\<not> lw_granted (li_heap (ls_lock s) w)"
  shows "lock_inv (poll_fut s f a wk)"
proof -
  let ?t = "poll_fut s f a wk"
  have t: "?t = s\<lparr>ls_lock := (ls_lock s)\<lparr>li_heap := (li_heap (ls_lock s))(w := (li_heap (ls_lock s) w)\<lparr>lw_waker := Some wk\<rparr>)\<rparr>\<rparr>"
    using assms by (simp add: poll_fut_def acquire_poll_def fun_upd_idem)
  have gr: "lw_granted (li_heap (ls_lock ?t) v) = lw_granted (li_heap (ls_lock s) v)" for v
    by (simp add: t)
  have "grantees ?t = grantees s" unfolding grantees_def gr by (simp add: t)
  moreover have "queue_ok ?t" using assms(1) unfolding lock_inv_def queue_ok_def gr by (simp add: t)
  moreover have "futs_ok ?t" using assms(1) unfolding lock_inv_def futs_ok_def fut_at_def gr by (simp add: t)
  ultimately show ?thesis using assms(1) by (auto simp: lock_inv_def own_ok_def t)
qed

lemma drop_inv:
  assumes inv: "lock_inv s" and f: "ls_futs s f = Some a"
  shows "lock_inv (s\<lparr>ls_futs := (ls_futs s)(f := None), ls_lock := fst (acquire_drop (ls_lock s) a)\<rparr>)"
proof -
  let ?t = "s\<lparr>ls_futs := (ls_futs s)(f := None)\<rparr>"
  have so: "sole ((ls_futs s)(f := None))"
    by (rule sole_upd) (use inv in \<open>auto simp: lock_inv_def futs_ok_def\<close>)
  then have ft: "futs_ok ?t" using inv by (auto simp: lock_inv_def futs_ok_def)
  have gt: "grantees ?t = grantees s - {f}" by (auto simp: grantees_def)
  consider (idle) "aq_acquired a \<or> aq_waiter a = None"
    | (granted) w where "\<not> aq_acquired a" "aq_waiter a = Some w" "lw_granted (li_heap (ls_lock s) w)"
    | (waiting) w where "\<not> aq_acquired a" "aq_waiter a = Some w" "\<not> lw_granted (li_heap (ls_lock s) w)"
    by (cases "aq_waiter a") auto
  then show ?thesis
  proof cases
    case idle
    then have "queue_ok (s\<lparr>ls_lock := ls_lock s, ls_futs := (ls_futs s)(f := None), ls_guards := ls_guards s\<rparr>)"
      by (intro queue_ok_upd) (use inv f in \<open>auto simp: lock_inv_def\<close>)
    then have "queue_ok ?t" by simp
    moreover have "f \<notin> grantees s" using idle f by (auto simp: grantees_def)
    ultimately have "lock_inv ?t" using inv ft gt by (auto simp: lock_inv_def own_ok_def)
    moreover have "fst (acquire_drop (ls_lock s) a) = ls_lock s"
      using idle by (auto simp: acquire_drop_def split: option.splits)
    ultimately show ?thesis by simp
  next
    case granted
    then have "f \<in> grantees s" using f by (auto simp: grantees_def)
    then have o: "li_locked (ls_lock ?t)" "ls_guards ?t = 0" "grantees ?t = {}"
      using inv gt by (auto simp: lock_inv_def own_ok_def split: if_splits)
    have "queue_ok (s\<lparr>ls_lock := ls_lock s, ls_futs := (ls_futs s)(f := None), ls_guards := ls_guards s\<rparr>)"
      by (intro queue_ok_upd) (use inv f granted in \<open>auto simp: lock_inv_def\<close>)
    then have "queue_ok ?t" by simp
    from release_inv [OF this ft o(2,3,1)] granted show ?thesis by (simp add: acquire_drop_def)
  next
    case (waiting w)
    let ?u = "s\<lparr>ls_futs := (ls_futs s)(f := None),
      ls_lock := (ls_lock s)\<lparr>li_waiters := filter (\<lambda>x. x \<noteq> w) (li_waiters (ls_lock s))\<rparr>\<rparr>"
    have "f \<notin> grantees s" using waiting f by (auto simp: grantees_def)
    then have "grantees ?u = grantees s" by (auto simp: grantees_def)
    moreover have "queue_ok ?u"
      using inv f waiting waits_upd [of "ls_futs s" _ f None] by (auto simp: lock_inv_def queue_ok_def)
    moreover have "fut_at (ls_lock ?u) b" if "g \<noteq> f" "ls_futs s g = Some b" for g b
      using inv that soleD [of "ls_futs s" g b f a w] f waiting
      by (auto simp: lock_inv_def futs_ok_def fut_at_def)
    then have "futs_ok ?u" using so by (auto simp: futs_ok_def)
    ultimately have "lock_inv ?u" using inv by (auto simp: lock_inv_def own_ok_def split: if_splits)
    then show ?thesis using waiting by (simp add: acquire_drop_def)
  qed
qed

lemma guard_inv:
  assumes inv: "lock_inv s" and g: "ls_guards s = Suc n"
  shows "lock_inv (s\<lparr>ls_guards := n, ls_lock := fst (guard_drop (ls_lock s))\<rparr>)"
proof -
  let ?t = "s\<lparr>ls_guards := n\<rparr>"
  have "grantees ?t = grantees s" by (simp add: grantees_def)
  then have "li_locked (ls_lock ?t)" "ls_guards ?t = 0" "grantees ?t = {}" "queue_ok ?t" "futs_ok ?t"
    using inv g by (auto simp: lock_inv_def own_ok_def queue_ok_def futs_ok_def split: if_splits)
  from release_inv [OF this(4,5,2,3,1)] show ?thesis by (simp add: guard_drop_def)
qed

lemma lock_step_inv: "lock_step s t \<Longrightarrow> lock_inv s \<Longrightarrow> lock_inv t"
proof (induction rule: lock_step.induct)
  case (ls_poll s f a wk)
  then show ?case
    using poll_free_inv poll_park_inv poll_claim_inv poll_again_inv by (metis option.exhaust)
qed (auto intro: acquire_inv drop_inv guard_inv)

lemma lock_reachable_inv: "lock_reachable s \<Longrightarrow> lock_inv s"
proof (induction rule: lock_reachable.induct)
  case lr_new
  show ?case
    by (simp add: lock_inv_def own_ok_def queue_ok_def futs_ok_def sole_def grantees_def lock_sys_new_def lock_new_def)
qed (auto intro: lock_step_inv)

section \<open>Properties\<close>

text \<open>C8: Mutual exclusion and no abandoned lock, for any interleaving of acquiring, polling,
  cancelling and releasing: at most one guard is alive; while some task waits in the queue,
  either a guard is alive or exactly one waiter has been handed the lock; and when nobody owns
  it, the lock is unlocked with an empty queue.\<close>

theorem lock_mutual_exclusion:
  assumes "lock_reachable s"
  shows "ls_guards s \<le> 1 \<and>
    (li_waiters (ls_lock s) \<noteq> [] \<longrightarrow> ls_guards s = 1 \<or> (\<exists>f. grantees s = {f})) \<and>
    (ls_guards s = 0 \<longrightarrow> grantees s = {} \<longrightarrow> \<not> li_locked (ls_lock s) \<and> li_waiters (ls_lock s) = [])"
  using lock_reachable_inv [OF assms] by (auto simp: lock_inv_def own_ok_def split: if_splits)

lemma granted_mono:
  assumes "lock_inv s" "lock_step s t" "\<not> lw_granted (li_heap (ls_lock s) w)" "lw_granted (li_heap (ls_lock t) w)"
  shows "\<exists>ws. li_waiters (ls_lock s) = w # ws \<and> li_waiters (ls_lock t) = ws"
  using assms(2,3,4)
  by (cases rule: lock_step.cases)
    (auto simp: poll_fut_def acquire_poll_def acquire_drop_def guard_drop_def release_def
      split: option.splits if_splits list.splits)

lemma queue_change:
  assumes "lock_step s t"
  shows "li_waiters (ls_lock t) = li_waiters (ls_lock s) \<or>
    li_waiters (ls_lock t) = tl (li_waiters (ls_lock s)) \<or>
    li_waiters (ls_lock t) = li_waiters (ls_lock s) @ [li_next (ls_lock s)] \<or>
    (\<exists>w. li_waiters (ls_lock t) = filter (\<lambda>x. x \<noteq> w) (li_waiters (ls_lock s)))"
  using assms
  by (cases rule: lock_step.cases)
    (auto simp: poll_fut_def acquire_poll_def acquire_drop_def guard_drop_def release_def
      split: option.splits if_splits list.splits)

text \<open>Fair hand-over: a step of any task hands the lock only to the waiter at the front of the
  queue, which leaves it; otherwise the queue keeps its order, a newcomer joining at the back
  and a cancelled waiter leaving from where it stood.\<close>

theorem lock_fifo_fair:
  assumes "lock_reachable s" "lock_step s t"
  shows "(\<forall>w. \<not> lw_granted (li_heap (ls_lock s) w) \<longrightarrow> lw_granted (li_heap (ls_lock t) w) \<longrightarrow>
      (\<exists>ws. li_waiters (ls_lock s) = w # ws \<and> li_waiters (ls_lock t) = ws)) \<and>
    (li_waiters (ls_lock t) = li_waiters (ls_lock s) \<or>
     li_waiters (ls_lock t) = tl (li_waiters (ls_lock s)) \<or>
     li_waiters (ls_lock t) = li_waiters (ls_lock s) @ [li_next (ls_lock s)] \<or>
     (\<exists>w. li_waiters (ls_lock t) = filter (\<lambda>x. x \<noteq> w) (li_waiters (ls_lock s))))"
  using granted_mono [OF lock_reachable_inv [OF assms(1)] assms(2)] queue_change [OF assms(2)] by blast

text \<open>A run in which task 0 holds the lock, task 1 waits and is handed the lock on release.\<close>

definition two_tasks :: lock_sys where
  "two_tasks = (let s0 = lock_sys_new\<lparr>ls_futs := (ls_futs lock_sys_new)(0 := Some acquire_new)\<rparr>;
     s1 = poll_fut s0 0 acquire_new 7;
     s2 = s1\<lparr>ls_futs := (ls_futs s1)(1 := Some acquire_new)\<rparr>
   in poll_fut s2 1 acquire_new 8)"

lemma two_tasks_reachable: "lock_reachable two_tasks"
proof -
  let ?s0 = "lock_sys_new\<lparr>ls_futs := (ls_futs lock_sys_new)(0 := Some acquire_new)\<rparr>"
  let ?s1 = "poll_fut ?s0 0 acquire_new 7"
  let ?s2 = "?s1\<lparr>ls_futs := (ls_futs ?s1)(1 := Some acquire_new)\<rparr>"
  have "lock_reachable ?s0"
    by (rule lr_step [OF lr_new], rule ls_acquire) (simp add: lock_sys_new_def)
  then have 1: "lock_reachable ?s1"
    by (rule lr_step) (rule ls_poll; simp add: acquire_new_def)
  have "lock_reachable ?s2"
    by (rule lr_step [OF 1], rule ls_acquire)
      (simp add: poll_fut_def acquire_poll_def acquire_new_def lock_sys_new_def lock_new_def)
  then have "lock_reachable (poll_fut ?s2 1 acquire_new 8)"
    by (rule lr_step) (rule ls_poll; simp add: acquire_new_def)
  then show ?thesis unfolding two_tasks_def Let_def .
qed

lemma two_tasks_state:
  "ls_guards two_tasks = 1" "li_waiters (ls_lock two_tasks) = [0]" "\<not> lw_granted (li_heap (ls_lock two_tasks) 0)"
  by (simp_all add: two_tasks_def poll_fut_def acquire_poll_def acquire_new_def lock_sys_new_def lock_new_def Let_def)

theorem lock_mutual_exclusion_witness: "ls_guards two_tasks = 1 \<and> ls_guards two_tasks \<le> 1"
  using lock_mutual_exclusion [OF two_tasks_reachable] two_tasks_state by simp

theorem lock_fifo_fair_witness:
  "li_waiters (fst (guard_drop (ls_lock two_tasks))) = [] \<and> lw_granted (li_heap (fst (guard_drop (ls_lock two_tasks))) 0)"
proof -
  let ?t = "two_tasks\<lparr>ls_guards := 0, ls_lock := fst (guard_drop (ls_lock two_tasks))\<rparr>"
  have "lock_step two_tasks ?t" by (rule ls_guard) (simp add: two_tasks_state)
  from lock_fifo_fair [OF two_tasks_reachable this]
  have "lw_granted (li_heap (ls_lock ?t) 0) \<longrightarrow> li_waiters (ls_lock ?t) = []"
    using two_tasks_state by auto
  moreover have "lw_granted (li_heap (ls_lock ?t) 0)"
    by (simp add: guard_drop_def release_def two_tasks_state)
  ultimately show ?thesis by simp
qed

end
