(* ===== verification/Objection_Model.thy ===== *)
theory Objection_Model
  imports Sync_Model
begin

text \<open>
  The objection registry of \<open>rustdv-methodology/src/objection.rs\<close>: raised objections are
  counted, listed by description, and the drained event fires when the count returns to zero.
  Live guards are kept as the list of their descriptions, so that the count and the report can
  be compared with them over any order of raising and dropping.
\<close>

section \<open>State and operations\<close>

record obj_inner =
  ob_count :: nat
  ob_drained :: event
  ob_raised_ever :: bool
  ob_active :: "string list"

definition registry_new :: obj_inner where
  "registry_new = \<lparr>ob_count = 0, ob_drained = event_new, ob_raised_ever = False, ob_active = []\<rparr>"

definition raise :: "obj_inner \<Rightarrow> string \<Rightarrow> obj_inner" where
  "raise r description = r\<lparr>ob_count := ob_count r + 1, ob_raised_ever := True,
     ob_drained := event_clear (ob_drained r), ob_active := ob_active r @ [description]\<rparr>"

text \<open>Natural subtraction is the \<open>saturating_sub\<close> of the code.\<close>

definition objection_drop :: "obj_inner \<Rightarrow> string \<Rightarrow> obj_inner \<times> waker list" where
  "objection_drop r description =
     (let active = (case position (\<lambda>d. d = description) (ob_active r) of
          Some pos \<Rightarrow> remove_at pos (ob_active r)
        | None \<Rightarrow> ob_active r);
          n = ob_count r - 1;
          r' = r\<lparr>ob_active := active, ob_count := n\<rparr>
      in if n = 0
         then (r'\<lparr>ob_drained := fst (event_set (ob_drained r'))\<rparr>, snd (event_set (ob_drained r')))
         else (r', []))"

definition wait_drained_poll :: "obj_inner \<Rightarrow> waker \<Rightarrow> obj_inner \<times> unit poll" where
  "wait_drained_poll r w = (case event_poll (ob_drained r) w of (e, p) \<Rightarrow> (r\<lparr>ob_drained := e\<rparr>, p))"

text \<open>The first poll of \<open>wait_all_dropped\<close>; the warning is the message it logs.\<close>

definition wait_all_dropped_start :: "obj_inner \<Rightarrow> waker \<Rightarrow> obj_inner \<times> string list \<times> unit poll" where
  "wait_all_dropped_start r w =
     (if \<not> ob_raised_ever r
      then (r, [''all_objections_dropped awaited but no objection was ever raised''], Ready ())
      else if ob_count r = 0 then (r, [], Ready ())
      else (case wait_drained_poll r w of (r', p) \<Rightarrow> (r', [], p)))"

section \<open>Runs\<close>

text \<open>A registry together with the descriptions of the guards alive.\<close>

inductive obj_reachable :: "obj_inner \<Rightarrow> string list \<Rightarrow> bool" where
  or_new: "obj_reachable registry_new []"
| or_raise: "obj_reachable r gs \<Longrightarrow> obj_reachable (raise r d) (gs @ [d])"
| or_drop: "obj_reachable r gs \<Longrightarrow> d \<in> set gs \<Longrightarrow> obj_reachable (fst (objection_drop r d)) (remove1 d gs)"
| or_wait: "obj_reachable r gs \<Longrightarrow> obj_reachable (fst (wait_drained_poll r w)) gs"

definition obj_inv :: "obj_inner \<Rightarrow> string list \<Rightarrow> bool" where
  "obj_inv r gs \<longleftrightarrow> ob_active r = gs \<and> ob_count r = length gs \<and>
     (ev_is_set (ob_drained r) \<longleftrightarrow> ob_raised_ever r \<and> gs = []) \<and>
     (ev_is_set (ob_drained r) \<longrightarrow> ev_waiters (ob_drained r) = []) \<and> (gs \<noteq> [] \<longrightarrow> ob_raised_ever r)"

lemma remove1_length_Nil: "d \<in> set gs \<Longrightarrow> remove1 d gs = [] \<longleftrightarrow> length gs - Suc 0 = 0"
  by (metis One_nat_def length_0_conv length_remove1)

lemma remove_active: "d \<in> set gs \<Longrightarrow> (case position (\<lambda>x. x = d) gs of Some p \<Rightarrow> remove_at p gs | None \<Rightarrow> gs) = remove1 d gs"
  by (auto simp: position_None_iff position_eq_remove1 split: option.splits)

lemma obj_reachable_inv: "obj_reachable r gs \<Longrightarrow> obj_inv r gs"
proof (induction rule: obj_reachable.induct)
  case or_new
  then show ?case by (simp add: obj_inv_def registry_new_def event_new_def)
next
  case (or_raise r gs d)
  then show ?case by (auto simp: obj_inv_def raise_def event_clear_def)
next
  case (or_drop r gs d)
  then have "gs \<noteq> []" by auto
  with or_drop show ?case
    using remove1_length_Nil [of d gs]
    by (auto simp: obj_inv_def objection_drop_def Let_def remove_active event_set_def length_remove1)
next
  case (or_wait r gs w)
  then show ?case by (auto simp: obj_inv_def wait_drained_poll_def event_poll_def)
qed

section \<open>Properties\<close>

text \<open>C11: Whatever the order of raising and dropping, the count is the number of live guards, the
  report lists exactly their descriptions in the order raised, and a task waiting for consensus
  goes on exactly when an objection has been raised and all have been dropped.\<close>

theorem objection_consensus:
  assumes "obj_reachable r gs"
  shows "ob_count r = length gs \<and> ob_active r = gs \<and>
    (snd (wait_drained_poll r w) = Ready () \<longleftrightarrow> ob_raised_ever r \<and> gs = [])"
  using obj_reachable_inv [OF assms] by (auto simp: obj_inv_def wait_drained_poll_def event_poll_def)

theorem objection_consensus_witness:
  "snd (wait_drained_poll (fst (objection_drop (raise registry_new ''a'') ''a'')) 0) = Ready ()"
proof -
  have "obj_reachable (fst (objection_drop (raise registry_new ''a'') ''a'')) (remove1 ''a'' ([] @ [''a'']))"
    by (intro obj_reachable.intros) simp
  from objection_consensus [OF this, of 0] show ?thesis
    by (simp add: objection_drop_def raise_def Let_def)
qed

text \<open>The drop that brings the count to zero wakes every task parked on the drained event, and
  no other drop wakes anyone.\<close>

theorem last_drop_wakes_all:
  assumes "obj_reachable r gs" "d \<in> set gs"
  shows "snd (objection_drop r d) = (if gs = [d] then ev_waiters (ob_drained r) else [])"
proof -
  have c: "ob_count r = length gs" using obj_reachable_inv [OF assms(1)] by (simp add: obj_inv_def)
  have "length gs - 1 = 0 \<longleftrightarrow> gs = [d]" using assms(2) by (cases gs rule: remdups_adj.cases) auto
  then show ?thesis by (simp add: objection_drop_def Let_def c event_set_def)
qed

theorem last_drop_wakes_all_witness:
  "snd (objection_drop (fst (wait_drained_poll (raise registry_new ''a'') 5)) ''a'') = [5]"
proof -
  have "obj_reachable (fst (wait_drained_poll (raise registry_new ''a'') 5)) ([] @ [''a''])"
    by (intro obj_reachable.intros)
  from last_drop_wakes_all [OF this, of "''a''"] show ?thesis
    by (simp add: wait_drained_poll_def event_poll_def raise_def registry_new_def event_new_def event_clear_def)
qed

end
