(* ===== verification/Queue_Model.thy ===== *)
theory Queue_Model
  imports Fifo_Spec
begin

text \<open>
  The sim-aware FIFO queue of \<open>rustdv-sim/src/queue.rs\<close>. \<open>qinner\<close> is the shared
  \<open>QInner\<close> with its two waiter lists; \<open>try_put\<close>, \<open>try_get\<close> and \<open>try_peek\<close> are the
  immediate operations, and one definition per future (\<open>Put\<close>, \<open>Get\<close>, \<open>Peek\<close>,
  \<open>Space\<close>) is its \<open>poll\<close>. An operation returns the new queue and the wakers it woke.
  The step relation \<open>queue_step\<close> has one rule per way a task can touch a queue; its
  invariant is that nobody is parked on a condition that already holds.
\<close>

section \<open>State and operations\<close>

record 'a qinner =
  q_buf :: "'a list"
  q_cap :: "nat option"
  q_get_waiters :: "waker list"
  q_put_waiters :: "waker list"

definition queue_new :: "nat option \<Rightarrow> 'a qinner" where
  "queue_new cap = \<lparr>q_buf = [], q_cap = cap, q_get_waiters = [], q_put_waiters = []\<rparr>"

definition queue_unbounded :: "'a qinner" where
  "queue_unbounded = queue_new None"

definition queue_has_space :: "'a qinner \<Rightarrow> bool" where
  "queue_has_space q = (case q_cap q of None \<Rightarrow> True | Some c \<Rightarrow> length (q_buf q) < c)"

definition queue_len :: "'a qinner \<Rightarrow> nat" where
  "queue_len q = length (q_buf q)"

definition queue_is_empty :: "'a qinner \<Rightarrow> bool" where
  "queue_is_empty q = (q_buf q = [])"

definition wake_getters :: "'a qinner \<Rightarrow> 'a qinner \<times> waker list" where
  "wake_getters q = (q\<lparr>q_get_waiters := []\<rparr>, q_get_waiters q)"

definition wake_putters :: "'a qinner \<Rightarrow> 'a qinner \<times> waker list" where
  "wake_putters q = (q\<lparr>q_put_waiters := []\<rparr>, q_put_waiters q)"

text \<open>\<open>Result<(), T>\<close>: a refused item comes back as \<open>Inl\<close>.\<close>

definition try_put :: "'a qinner \<Rightarrow> 'a \<Rightarrow> ('a qinner \<times> waker list) \<times> ('a + unit)" where
  "try_put q item =
     (if queue_has_space q
      then (wake_getters (q\<lparr>q_buf := q_buf q @ [item]\<rparr>), Inr ())
      else ((q, []), Inl item))"

definition try_get :: "'a qinner \<Rightarrow> ('a qinner \<times> waker list) \<times> 'a option" where
  "try_get q =
     (case q_buf q of
        [] \<Rightarrow> ((q, []), None)
      | x # xs \<Rightarrow> (wake_putters (q\<lparr>q_buf := xs\<rparr>), Some x))"

definition try_peek :: "'a qinner \<Rightarrow> 'a option" where
  "try_peek q = (case q_buf q of [] \<Rightarrow> None | x # _ \<Rightarrow> Some x)"

text \<open>
  The future of \<open>put\<close> owns its item until it is handed over, so its state is an option; a
  poll after completion finds it empty and panics.
\<close>

definition put_poll :: "waker \<Rightarrow> 'a option \<Rightarrow> 'a qinner
    \<Rightarrow> ('a option \<times> ('a qinner \<times> waker list) \<times> unit poll) may_panic" where
  "put_poll w item q =
     (if queue_has_space q
      then (case item of
              None \<Rightarrow> panics ''Put polled after completion''
            | Some x \<Rightarrow> Inr (None, wake_getters (q\<lparr>q_buf := q_buf q @ [x]\<rparr>), Ready ()))
      else Inr (item, (q\<lparr>q_put_waiters := q_put_waiters q @ [w]\<rparr>, []), Pending))"

definition get_poll :: "waker \<Rightarrow> 'a qinner \<Rightarrow> ('a qinner \<times> waker list) \<times> 'a poll" where
  "get_poll w q =
     (case q_buf q of
        x # xs \<Rightarrow> (wake_putters (q\<lparr>q_buf := xs\<rparr>), Ready x)
      | [] \<Rightarrow> ((q\<lparr>q_get_waiters := q_get_waiters q @ [w]\<rparr>, []), Pending))"

definition peek_poll :: "waker \<Rightarrow> 'a qinner \<Rightarrow> ('a qinner \<times> waker list) \<times> 'a poll" where
  "peek_poll w q =
     (case q_buf q of
        x # _ \<Rightarrow> ((q, []), Ready x)
      | [] \<Rightarrow> ((q\<lparr>q_get_waiters := q_get_waiters q @ [w]\<rparr>, []), Pending))"

definition space_poll :: "waker \<Rightarrow> 'a qinner \<Rightarrow> ('a qinner \<times> waker list) \<times> unit poll" where
  "space_poll w q =
     (if queue_has_space q then ((q, []), Ready ())
      else ((q\<lparr>q_put_waiters := q_put_waiters q @ [w]\<rparr>, []), Pending))"

lemmas queue_defs = queue_new_def queue_unbounded_def queue_has_space_def queue_len_def
  queue_is_empty_def wake_getters_def wake_putters_def try_put_def try_get_def try_peek_def
  put_poll_def get_poll_def peek_poll_def space_poll_def

lemma queue_has_space_room: "queue_has_space q = has_room (q_cap q) (q_buf q)"
  by (simp add: queue_has_space_def has_room_def)

section \<open>The queue is a bounded FIFO\<close>

definition queue_put_now :: "'a qinner \<Rightarrow> 'a \<Rightarrow> 'a qinner \<times> bool" where
  "queue_put_now q x = (case try_put q x of ((q', _), r) \<Rightarrow> (q', r = Inr ()))"

definition queue_take_now :: "'a qinner \<Rightarrow> 'a qinner \<times> 'a option" where
  "queue_take_now q = (case try_get q of ((q', _), r) \<Rightarrow> (q', r))"

interpretation qnow: bounded_fifo "\<lambda>q. True" q_buf q_cap queue_put_now queue_take_now
  by unfold_locales
    (auto simp: queue_put_now_def queue_take_now_def try_put_def try_get_def wake_getters_def
      wake_putters_def queue_has_space_room split: list.splits)

text \<open>The same contract for the futures, each polled with some task's waker.\<close>

definition queue_put_poll_now :: "waker \<Rightarrow> 'a qinner \<Rightarrow> 'a \<Rightarrow> 'a qinner \<times> bool" where
  "queue_put_poll_now w q x =
     (case put_poll w (Some x) q of
        Inl _ \<Rightarrow> (q, False)
      | Inr (_, (q', _), r) \<Rightarrow> (q', r = Ready ()))"

definition queue_get_poll_now :: "waker \<Rightarrow> 'a qinner \<Rightarrow> 'a qinner \<times> 'a option" where
  "queue_get_poll_now w q =
     (case get_poll w q of
        ((q', _), Pending) \<Rightarrow> (q', None)
      | ((q', _), Ready x) \<Rightarrow> (q', Some x))"

interpretation qpoll: bounded_fifo "\<lambda>q. True" q_buf q_cap
    "queue_put_poll_now w" "queue_get_poll_now w" for w
  by unfold_locales
    (auto simp: queue_put_poll_now_def queue_get_poll_now_def put_poll_def get_poll_def
      wake_getters_def wake_putters_def queue_has_space_room split: list.splits)

section \<open>No lost wake-up\<close>

inductive queue_step :: "'a qinner \<Rightarrow> 'a qinner \<times> waker list \<Rightarrow> bool" where
  s_try_put: "try_put q x = (e, r) \<Longrightarrow> queue_step q e"
| s_try_get: "try_get q = (e, r) \<Longrightarrow> queue_step q e"
| s_put: "put_poll w item q = Inr (item', e, r) \<Longrightarrow> queue_step q e"
| s_get: "get_poll w q = (e, r) \<Longrightarrow> queue_step q e"
| s_peek: "peek_poll w q = (e, r) \<Longrightarrow> queue_step q e"
| s_space: "space_poll w q = (e, r) \<Longrightarrow> queue_step q e"

inductive queue_reachable :: "nat option \<Rightarrow> 'a qinner \<Rightarrow> bool" for cap where
  q_start: "queue_reachable cap (queue_new cap)"
| q_step: "queue_reachable cap q \<Longrightarrow> queue_step q (q', ws) \<Longrightarrow> queue_reachable cap q'"

definition queue_inv :: "nat option \<Rightarrow> 'a qinner \<Rightarrow> bool" where
  "queue_inv cap q \<longleftrightarrow> q_cap q = cap \<and> within cap (q_buf q) \<and>
     (q_get_waiters q \<noteq> [] \<longrightarrow> q_buf q = []) \<and>
     (q_put_waiters q \<noteq> [] \<longrightarrow> \<not> queue_has_space q)"

lemma queue_inv_new: "queue_inv cap (queue_new cap)"
  by (simp add: queue_inv_def queue_new_def)

lemma queue_step_inv [keeps]:
  "queue_step q e \<Longrightarrow> queue_inv cap q \<Longrightarrow> queue_inv cap (fst e)"
  by (induction rule: queue_step.induct)
    (auto simp: queue_inv_def queue_defs within_def has_room_def
       split: if_splits list.splits option.splits)

lemma queue_reachable_inv: "queue_reachable cap q \<Longrightarrow> queue_inv cap q"
  by (induction rule: queue_reachable.induct)
    (auto simp: queue_inv_new dest: queue_step_inv)

text \<open>
  What a step wakes: exactly the parked tasks of the side whose condition it made true.
\<close>

lemma queue_step_wakes:
  assumes "queue_step q (q', ws)"
  shows "(q_get_waiters q \<noteq> [] \<and> q_buf q' \<noteq> [] \<longrightarrow> q_buf q = [] \<longrightarrow> ws = q_get_waiters q) \<and>
    (q_put_waiters q \<noteq> [] \<and> queue_has_space q' \<longrightarrow> \<not> queue_has_space q \<longrightarrow>
       ws = q_put_waiters q)"
  using assms
  by (cases rule: queue_step.cases)
    (auto simp: queue_defs split: if_splits list.splits option.splits)

text \<open>Over any sequence of try_put and try_get on a fresh queue, the items handed out,
  followed by the items still buffered, are exactly the accepted items in the order they were
  accepted, and the buffer never exceeds the declared capacity.\<close>

theorem queue_fifo:
  assumes "fifo_run queue_put_now queue_take_now (queue_new cap) ops = (q, accepted, delivered)"
  shows "accepted = delivered @ q_buf q \<and> within cap (q_buf q)"
  using qnow.run_from_empty [OF _ _ assms] by (simp add: queue_new_def)

theorem queue_fifo_witness:
  "fifo_run queue_put_now queue_take_now (queue_new (Some 2))
      [Put_op (1::nat), Put_op 2, Put_op 3, Take_op, Put_op 4] =
     (\<lparr>q_buf = [2, 4], q_cap = Some 2, q_get_waiters = [], q_put_waiters = []\<rparr>, [1, 2, 4], [1])
   \<and> [1, 2, 4] = [1] @ [2, 4::nat] \<and> within (Some 2) [2, 4::nat]"
proof -
  have r: "fifo_run queue_put_now queue_take_now (queue_new (Some 2))
      [Put_op (1::nat), Put_op 2, Put_op 3, Take_op, Put_op 4] =
     (\<lparr>q_buf = [2, 4], q_cap = Some 2, q_get_waiters = [], q_put_waiters = []\<rparr>, [1, 2, 4], [1])"
    by (simp add: queue_put_now_def queue_take_now_def queue_defs)
  from r queue_fifo [OF r] show ?thesis by simp
qed

text \<open>C1: In every reachable queue no task is parked on a condition that already holds: a
  waiting getter means the buffer is empty, a waiting putter means the queue is full. (No
  wake-up is lost between the futures and the immediate operations, in any interleaving.)\<close>

theorem queue_no_lost_wakeup:
  assumes "queue_reachable cap q"
  shows "(q_get_waiters q \<noteq> [] \<longrightarrow> queue_is_empty q) \<and>
    (q_put_waiters q \<noteq> [] \<longrightarrow> \<not> queue_has_space q) \<and> within cap (q_buf q)"
  using queue_reachable_inv [OF assms] by (simp add: queue_inv_def queue_is_empty_def)

lemma reachable_example:
  "queue_reachable (Some 1)
     \<lparr>q_buf = [5::nat], q_cap = Some 1, q_get_waiters = [], q_put_waiters = [9]\<rparr>"
proof -
  have a: "queue_reachable (Some 1)
     \<lparr>q_buf = [5::nat], q_cap = Some 1, q_get_waiters = [], q_put_waiters = []\<rparr>"
    by (rule q_step [OF q_start [of "Some 1"]], rule s_try_put [where x = 5])
      (simp add: queue_defs)
  show ?thesis
    by (rule q_step [OF a], rule s_put [where w = 9 and item = "Some 6"])
      (simp add: queue_defs)
qed

theorem queue_no_lost_wakeup_witness:
  "queue_reachable (Some 1)
     \<lparr>q_buf = [5::nat], q_cap = Some 1, q_get_waiters = [], q_put_waiters = [9]\<rparr> \<and>
   \<not> queue_has_space
     \<lparr>q_buf = [5::nat], q_cap = Some 1, q_get_waiters = [], q_put_waiters = [9]\<rparr>"
  using reachable_example queue_no_lost_wakeup [OF reachable_example] by simp

end
