(* ===== verification/Tlm_Model.thy ===== *)
theory Tlm_Model
  imports Queue_Model
begin

text \<open>
  TLM wiring and transport: ports and \<open>bind\<close> of \<open>rustdv-methodology/src/port.rs\<close>, the tapped
  FIFO of \<open>fifo.rs\<close> and the broadcast hub of \<open>analysis.rs\<close>. A port's binding cell is a cell of
  a heap, because the component and the exporter hold two references to it; its interface type
  is a number that the downcast compares. Subscribers are testbench code: the operations take
  what delivering an item to a subscriber does as an argument, and \<open>deliver_shared\<close> is the
  one implementation the framework has, a subscriber that owns its state.
\<close>

section \<open>Ports\<close>

datatype connect_error =
    NoSuchPort string string
  | WrongInterface string string
  | NoSubscriber string string

record 'i port_cell =
  pc_iface_type :: nat
  pc_slot :: "'i option"

record port_owner =
  po_label :: string
  po_slots :: "string \<rightharpoonup> nat"

type_synonym 'i port_heap = "nat \<Rightarrow> 'i port_cell"

definition port_bind :: "'i port_heap \<Rightarrow> port_owner \<Rightarrow> nat \<Rightarrow> string \<Rightarrow> 'i \<Rightarrow> connect_error + 'i port_heap" where
  "port_bind h owner ity name iface =
     (case po_slots owner name of
        None \<Rightarrow> Inl (NoSuchPort (po_label owner) name)
      | Some c \<Rightarrow>
          if pc_iface_type (h c) \<noteq> ity then Inl (WrongInterface (po_label owner) name)
          else Inr (h(c := (h c)\<lparr>pc_slot := Some iface\<rparr>)))"

definition sink_of :: "'i port_heap \<Rightarrow> port_owner \<Rightarrow> nat \<Rightarrow> string \<Rightarrow> connect_error + 'i" where
  "sink_of h owner ity name =
     (case po_slots owner name of
        None \<Rightarrow> Inl (NoSuchPort (po_label owner) name)
      | Some c \<Rightarrow>
          if pc_iface_type (h c) \<noteq> ity then Inl (WrongInterface (po_label owner) name)
          else (case pc_slot (h c) of
              None \<Rightarrow> Inl (NoSubscriber (po_label owner) name)
            | Some sink \<Rightarrow> Inr sink))"

fun connect_error_display :: "connect_error \<Rightarrow> string" where
  "connect_error_display (NoSuchPort owner name) = ''connect: '' @ owner @ '' has no port named '' @ [CHR 0x27] @
     name @ [CHR 0x27] @ '' (is the field marked #[port(..)]? is the child slot built?)''"
| "connect_error_display (WrongInterface owner name) = ''connect: '' @ owner @ [CHR 0x27] @ ''s port '' @ [CHR 0x27] @
     name @ [CHR 0x27] @ '' wants a different interface (put/get/peek mismatch, or a different transaction type)''"
| "connect_error_display (NoSubscriber owner name) = ''connect: '' @ owner @ [CHR 0x27] @ ''s subscribe port '' @
     [CHR 0x27] @ name @ [CHR 0x27] @ '' has no subscriber - call `self.'' @ name @ ''.subscribe(handle)` in '' @
     owner @ [CHR 0x27] @ ''s build phase''"

definition bind_or_panic :: "'i port_heap \<Rightarrow> port_owner \<Rightarrow> nat \<Rightarrow> string \<Rightarrow> 'i \<Rightarrow> 'i port_heap may_panic" where
  "bind_or_panic h owner ity name iface =
     (case port_bind h owner ity name iface of
        Inl e \<Rightarrow> panics (connect_error_display e)
      | Inr h' \<Rightarrow> Inr h')"

definition port_is_bound :: "'i port_heap \<Rightarrow> nat \<Rightarrow> bool" where
  "port_is_bound h c = (pc_slot (h c) \<noteq> None)"

definition port_subscribe :: "'i port_heap \<Rightarrow> nat \<Rightarrow> 'i \<Rightarrow> 'i port_heap" where
  "port_subscribe h c sink = h(c := (h c)\<lparr>pc_slot := Some sink\<rparr>)"

definition port_iface :: "'i port_heap \<Rightarrow> nat \<Rightarrow> 'i may_panic" where
  "port_iface h c =
     (case pc_slot (h c) of
        Some i \<Rightarrow> Inr i
      | None \<Rightarrow> panics (''a TLM port was used before it was connected - connect it in the parent'' @ [CHR 0x27] @
          ''s connect phase with `fifo.<kind>_export().connect(owner, Owner::PORT_NAME)`''))"

section \<open>The tapped FIFO\<close>

text \<open>\<open>fw_env\<close> is whatever else a subscriber's handler can change.\<close>

record ('a, 's) fifo_inner =
  fi_q :: "'a qinner"
  fi_size :: "nat option"
  fi_put_taps :: "nat list"
  fi_get_taps :: "nat list"
  fi_env :: 's

type_synonym ('a, 's) deliver = "nat \<Rightarrow> 'a \<Rightarrow> ('a, 's) fifo_inner \<Rightarrow> ('a, 's) fifo_inner \<times> waker list"

definition fifo_new :: "nat option \<Rightarrow> 's \<Rightarrow> ('a, 's) fifo_inner" where
  "fifo_new sz env =
     \<lparr>fi_q = (case sz of Some n \<Rightarrow> queue_new (Some n) | None \<Rightarrow> queue_unbounded), fi_size = sz,
      fi_put_taps = [], fi_get_taps = [], fi_env = env\<rparr>"

definition fifo_is_full :: "('a, 's) fifo_inner \<Rightarrow> bool" where
  "fifo_is_full f = (case fi_size f of None \<Rightarrow> False | Some s \<Rightarrow> queue_len (fi_q f) \<ge> s)"

text \<open>The subscriber list is copied out before the loop runs.\<close>

fun tap :: "('a, 's) deliver \<Rightarrow> nat list \<Rightarrow> 'a \<Rightarrow> ('a, 's) fifo_inner \<Rightarrow> ('a, 's) fifo_inner \<times> waker list" where
  "tap deliver [] item f = (f, [])"
| "tap deliver (sub # subs) item f =
     (let (f', ws) = deliver sub item f; (f'', ws') = tap deliver subs item f' in (f'', ws @ ws'))"

definition put_tapped_poll :: "('a, 's) deliver \<Rightarrow> waker \<Rightarrow> 'a \<Rightarrow> ('a, 's) fifo_inner
    \<Rightarrow> (('a, 's) fifo_inner \<times> waker list) \<times> unit poll" where
  "put_tapped_poll deliver w item f =
     (case space_poll w (fi_q f) of
        ((q, ws), Pending) \<Rightarrow> ((f\<lparr>fi_q := q\<rparr>, ws), Pending)
      | ((q, ws), Ready _) \<Rightarrow>
          let (f', ws') = tap deliver (fi_put_taps f) item (f\<lparr>fi_q := q\<rparr>);
              ((q', ws''), _) = try_put (fi_q f') item
          in ((f'\<lparr>fi_q := q'\<rparr>, ws @ ws' @ ws''), Ready ()))"

definition try_put_tapped :: "('a, 's) deliver \<Rightarrow> 'a \<Rightarrow> ('a, 's) fifo_inner
    \<Rightarrow> (('a, 's) fifo_inner \<times> waker list) \<times> ('a + unit)" where
  "try_put_tapped deliver item f =
     (if \<not> queue_has_space (fi_q f) then ((f, []), Inl item)
      else
        let (f', ws) = tap deliver (fi_put_taps f) item f;
            ((q, ws'), r) = try_put (fi_q f') item
        in ((f'\<lparr>fi_q := q\<rparr>, ws @ ws'), r))"

definition tap_get :: "('a, 's) deliver \<Rightarrow> 'a option \<Rightarrow> ('a, 's) fifo_inner \<Rightarrow> ('a, 's) fifo_inner \<times> waker list" where
  "tap_get deliver item f = (case item of Some v \<Rightarrow> tap deliver (fi_get_taps f) v f | None \<Rightarrow> (f, []))"

definition fifo_try_get :: "('a, 's) deliver \<Rightarrow> ('a, 's) fifo_inner
    \<Rightarrow> (('a, 's) fifo_inner \<times> waker list) \<times> 'a option" where
  "fifo_try_get deliver f =
     (let ((q, ws), item) = try_get (fi_q f); (f', ws') = tap_get deliver item (f\<lparr>fi_q := q\<rparr>)
      in ((f', ws @ ws'), item))"

definition fifo_get_poll :: "('a, 's) deliver \<Rightarrow> waker \<Rightarrow> ('a, 's) fifo_inner
    \<Rightarrow> (('a, 's) fifo_inner \<times> waker list) \<times> 'a poll" where
  "fifo_get_poll deliver w f =
     (case get_poll w (fi_q f) of
        ((q, ws), Pending) \<Rightarrow> ((f\<lparr>fi_q := q\<rparr>, ws), Pending)
      | ((q, ws), Ready x) \<Rightarrow>
          let (f', ws') = tap deliver (fi_get_taps f) x (f\<lparr>fi_q := q\<rparr>) in ((f', ws @ ws'), Ready x))"

definition fifo_peek_poll :: "waker \<Rightarrow> ('a, 's) fifo_inner \<Rightarrow> (('a, 's) fifo_inner \<times> waker list) \<times> 'a poll" where
  "fifo_peek_poll w f = (case peek_poll w (fi_q f) of ((q, ws), r) \<Rightarrow> ((f\<lparr>fi_q := q\<rparr>, ws), r))"

definition fifo_try_peek :: "('a, 's) fifo_inner \<Rightarrow> 'a option" where
  "fifo_try_peek f = try_peek (fi_q f)"

definition can_put :: "('a, 's) fifo_inner \<Rightarrow> bool" where
  "can_put f = (\<not> fifo_is_full f)"

definition can_get :: "('a, 's) fifo_inner \<Rightarrow> bool" where
  "can_get f = (\<not> queue_is_empty (fi_q f))"

text \<open>\<open>flush\<close> takes items until there is none: it ends because each round removes one.\<close>

function flush_q :: "'a qinner \<Rightarrow> 'a qinner \<times> waker list" where
  "flush_q q =
     (case try_get q of
        ((q', ws), Some _) \<Rightarrow> (let (q'', ws') = flush_q q' in (q'', ws @ ws'))
      | ((q', ws), None) \<Rightarrow> (q', ws))"
  by pat_completeness auto
termination
  by (relation "measure (\<lambda>q. length (q_buf q))")
    (auto simp: try_get_def wake_putters_def split: list.splits)

declare flush_q.simps [simp del]

definition fifo_flush :: "('a, 's) fifo_inner \<Rightarrow> ('a, 's) fifo_inner \<times> waker list" where
  "fifo_flush f = (let (q, ws) = flush_q (fi_q f) in (f\<lparr>fi_q := q\<rparr>, ws))"

definition tap_connect :: "nat port_heap \<Rightarrow> ('a, 's) fifo_inner \<Rightarrow> bool \<Rightarrow> port_owner \<Rightarrow> nat \<Rightarrow> string
    \<Rightarrow> ('a, 's) fifo_inner may_panic" where
  "tap_connect h f on_put owner ity name =
     (case sink_of h owner ity name of
        Inr sink \<Rightarrow>
          Inr (if on_put then f\<lparr>fi_put_taps := fi_put_taps f @ [sink]\<rparr>
               else f\<lparr>fi_get_taps := fi_get_taps f @ [sink]\<rparr>)
      | Inl e \<Rightarrow> panics (connect_error_display e))"

section \<open>Subscribers and the hub\<close>

text \<open>\<open>SinkHandle for RustdvShared<S>\<close>: the subscriber's \<open>write\<close> runs on its own state. A handler is user code
  and could do anything, come back to the FIFO included: then it is another \<open>deliver\<close>, and the last lemma
  of this theory shows what goes wrong.\<close>

definition deliver_shared :: "(nat \<Rightarrow> 'a \<Rightarrow> 's \<Rightarrow> 's) \<Rightarrow> ('a, 's) deliver" where
  "deliver_shared write sub item f = (f\<lparr>fi_env := write sub item (fi_env f)\<rparr>, [])"

record hub_inner =
  hub_subs :: "nat list"

definition bus_new :: hub_inner where
  "bus_new = \<lparr>hub_subs = []\<rparr>"

definition broadcast :: "(nat \<Rightarrow> 'a \<Rightarrow> 's \<Rightarrow> 's) \<Rightarrow> hub_inner \<Rightarrow> 'a \<Rightarrow> 's \<Rightarrow> 's" where
  "broadcast deliver hub item s = fold (\<lambda>sub. deliver sub item) (hub_subs hub) s"

definition sub_connect :: "nat port_heap \<Rightarrow> hub_inner \<Rightarrow> port_owner \<Rightarrow> nat \<Rightarrow> string \<Rightarrow> hub_inner may_panic" where
  "sub_connect h hub owner ity name =
     (case sink_of h owner ity name of
        Inr sink \<Rightarrow> Inr (hub\<lparr>hub_subs := hub_subs hub @ [sink]\<rparr>)
      | Inl e \<Rightarrow> panics (connect_error_display e))"

definition subscriber_count :: "hub_inner \<Rightarrow> nat" where
  "subscriber_count hub = length (hub_subs hub)"

text \<open>A publish port that was never connected drops the item.\<close>

definition publish_write :: "(nat \<Rightarrow> 'a \<Rightarrow> 's \<Rightarrow> 's) \<Rightarrow> hub_inner port_heap \<Rightarrow> nat \<Rightarrow> 'a \<Rightarrow> 's \<Rightarrow> 's" where
  "publish_write deliver h c item s =
     (case pc_slot (h c) of Some hub \<Rightarrow> broadcast deliver hub item s | None \<Rightarrow> s)"

section \<open>With state-owning subscribers the FIFO keeps the contract\<close>

lemma tap_shared:
  "tap (deliver_shared write) subs x f = (f\<lparr>fi_env := fold (\<lambda>sub. write sub x) subs (fi_env f)\<rparr>, [])"
  by (induction subs arbitrary: f) (auto simp: deliver_shared_def)

definition fifo_push :: "(nat \<Rightarrow> 'a \<Rightarrow> 's \<Rightarrow> 's) \<Rightarrow> ('a, 's) fifo_inner \<Rightarrow> 'a \<Rightarrow> ('a, 's) fifo_inner \<times> bool" where
  "fifo_push write f x = (case try_put_tapped (deliver_shared write) x f of ((f', _), r) \<Rightarrow> (f', r = Inr ()))"

definition fifo_pop :: "(nat \<Rightarrow> 'a \<Rightarrow> 's \<Rightarrow> 's) \<Rightarrow> ('a, 's) fifo_inner \<Rightarrow> ('a, 's) fifo_inner \<times> 'a option" where
  "fifo_pop write f = (case fifo_try_get (deliver_shared write) f of ((f', _), r) \<Rightarrow> (f', r))"

lemma fifo_push_eq:
  "fifo_push write f x =
     (if queue_has_space (fi_q f)
      then (f\<lparr>fi_q := (fi_q f)\<lparr>q_buf := q_buf (fi_q f) @ [x], q_get_waiters := []\<rparr>,
              fi_env := fold (\<lambda>sub. write sub x) (fi_put_taps f) (fi_env f)\<rparr>, True)
      else (f, False))"
  by (simp add: fifo_push_def try_put_tapped_def tap_shared try_put_def wake_getters_def)

lemma fifo_pop_eq:
  "fifo_pop write f =
     (case q_buf (fi_q f) of
        [] \<Rightarrow> (f, None)
      | x # xs \<Rightarrow> (f\<lparr>fi_q := (fi_q f)\<lparr>q_buf := xs, q_put_waiters := []\<rparr>,
              fi_env := fold (\<lambda>sub. write sub x) (fi_get_taps f) (fi_env f)\<rparr>, Some x))"
  by (simp add: fifo_pop_def fifo_try_get_def try_get_def tap_get_def tap_shared wake_putters_def split: list.splits)

interpretation tf: bounded_fifo "\<lambda>f. True" "\<lambda>f. q_buf (fi_q f)" "\<lambda>f. q_cap (fi_q f)" "fifo_push wr" "fifo_pop wr"
  for wr
  by unfold_locales (auto simp: fifo_push_eq fifo_pop_eq queue_has_space_room split: list.splits)

text \<open>A recording subscriber: the log of who saw what.\<close>

definition record_sub :: "nat \<Rightarrow> 'a \<Rightarrow> (nat \<times> 'a) list \<Rightarrow> (nat \<times> 'a) list" where
  "record_sub sub x log = log @ [(sub, x)]"

definition seen_by :: "nat \<Rightarrow> (nat \<times> 'a) list \<Rightarrow> 'a list" where
  "seen_by sub log = map snd (filter (\<lambda>e. fst e = sub) log)"

lemma fold_record: "fold (\<lambda>sub. record_sub sub x) subs log = log @ map (\<lambda>s. (s, x)) subs"
  by (induction subs arbitrary: log) (auto simp: record_sub_def)

lemma seen_by_append: "seen_by sub (l @ m) = seen_by sub l @ seen_by sub m"
  by (simp add: seen_by_def)

lemma seen_by_tap:
  "distinct subs \<Longrightarrow> seen_by sub (map (\<lambda>s. (s, x)) subs) = (if sub \<in> set subs then [x] else [])"
  by (induction subs) (auto simp: seen_by_def)

text \<open>Any subscriber that owns its state, together with the log of what was delivered to whom.\<close>

definition watched :: "(nat \<Rightarrow> 'a \<Rightarrow> 's \<Rightarrow> 's) \<Rightarrow> nat \<Rightarrow> 'a \<Rightarrow> 's \<times> (nat \<times> 'a) list \<Rightarrow> 's \<times> (nat \<times> 'a) list" where
  "watched write sub x s = (write sub x (fst s), record_sub sub x (snd s))"

lemma fold_watched: "snd (fold (\<lambda>sub. watched write sub x) subs s) = snd s @ map (\<lambda>s. (s, x)) subs"
  by (induction subs arbitrary: s) (auto simp: watched_def record_sub_def)

text \<open>Everything that moves items through a FIFO, the blocking operations poll by poll. An operation gives the
  items it accepted and those it removed, with whether they went to a caller of get.\<close>

datatype 'a fifo_op = Fo_try_put 'a | Fo_put waker 'a | Fo_try_get | Fo_get waker | Fo_peek waker | Fo_flush

fun fifo_do :: "('a, 's) deliver \<Rightarrow> 'a fifo_op \<Rightarrow> ('a, 's) fifo_inner \<Rightarrow> ('a, 's) fifo_inner \<times> 'a list \<times> ('a \<times> bool) list" where
  "fifo_do d (Fo_try_put x) f = (case try_put_tapped d x f of ((f', _), r) \<Rightarrow> (f', if r = Inr () then [x] else [], []))"
| "fifo_do d (Fo_put w x) f = (case put_tapped_poll d w x f of ((f', _), r) \<Rightarrow> (f', if r = Ready () then [x] else [], []))"
| "fifo_do d Fo_try_get f =
     (case fifo_try_get d f of ((f', _), r) \<Rightarrow> (f', [], case r of Some x \<Rightarrow> [(x, True)] | None \<Rightarrow> []))"
| "fifo_do d (Fo_get w) f =
     (case fifo_get_poll d w f of ((f', _), r) \<Rightarrow> (f', [], case r of Ready x \<Rightarrow> [(x, True)] | Pending \<Rightarrow> []))"
| "fifo_do d (Fo_peek w) f = (case fifo_peek_poll w f of ((f', _), _) \<Rightarrow> (f', [], []))"
| "fifo_do d Fo_flush f = (fst (fifo_flush f), [], map (\<lambda>x. (x, False)) (q_buf (fi_q f)))"

fun fifo_ops :: "('a, 's) deliver \<Rightarrow> 'a fifo_op list \<Rightarrow> ('a, 's) fifo_inner \<Rightarrow> ('a, 's) fifo_inner \<times> 'a list \<times> ('a \<times> bool) list" where
  "fifo_ops d [] f = (f, [], [])"
| "fifo_ops d (x # xs) f =
     (let (f1, acc, rem) = fifo_do d x f; (f2, acc', rem') = fifo_ops d xs f1 in (f2, acc @ acc', rem @ rem'))"

definition taken_out :: "('a \<times> bool) list \<Rightarrow> 'a list" where
  "taken_out rem = map fst (filter snd rem)"

lemma flush_q_empties: "fst (flush_q q) = (if q_buf q = [] then q else q\<lparr>q_buf := [], q_put_waiters := []\<rparr>)"
proof (induction q rule: flush_q.induct)
  case (1 q)
  show ?case
  proof (cases "q_buf q")
    case Nil
    then show ?thesis by (subst flush_q.simps) (simp add: try_get_def)
  next
    case (Cons x xs)
    then have t: "try_get q = ((q\<lparr>q_buf := xs, q_put_waiters := []\<rparr>, q_put_waiters q), Some x)"
      by (simp add: try_get_def wake_putters_def)
    have "fst (flush_q q) = fst (flush_q (q\<lparr>q_buf := xs, q_put_waiters := []\<rparr>))"
      by (subst flush_q.simps) (simp add: t case_prod_beta)
    then show ?thesis using 1 [OF t [symmetric] refl refl] Cons by simp
  qed
qed

text \<open>One operation: the data path, and what the taps are given.\<close>

lemma fifo_do_effect:
  "fifo_do (deliver_shared (watched write)) x f = (f', acc, rem) \<Longrightarrow>
     q_buf (fi_q f) @ acc = map fst rem @ q_buf (fi_q f') \<and> fi_put_taps f' = fi_put_taps f \<and> fi_get_taps f' = fi_get_taps f \<and>
     snd (fi_env f') = snd (fi_env f) @ concat (map (\<lambda>x. map (\<lambda>s. (s, x)) (fi_put_taps f)) acc) @
       concat (map (\<lambda>x. map (\<lambda>s. (s, x)) (fi_get_taps f)) (taken_out rem))"
  by (cases x)
    (auto simp: try_put_tapped_def put_tapped_poll_def fifo_try_get_def fifo_get_poll_def fifo_peek_poll_def
      fifo_flush_def tap_get_def tap_shared fold_watched flush_q_empties try_put_def try_get_def get_poll_def space_poll_def
      peek_poll_def wake_getters_def wake_putters_def taken_out_def case_prod_beta Let_def comp_def
      split: if_splits list.splits)

lemmas fifo_do_step = fifo_do_effect [THEN conjunct1] fifo_do_effect [THEN conjunct2, THEN conjunct1]
  fifo_do_effect [THEN conjunct2, THEN conjunct2, THEN conjunct1] fifo_do_effect [THEN conjunct2, THEN conjunct2, THEN conjunct2]

lemma seen_by_taps:
  "distinct subs \<Longrightarrow> seen_by sub (concat (map (\<lambda>x. map (\<lambda>s. (s, x)) subs) xs)) = (if sub \<in> set subs then xs else [])"
  by (induction xs) (auto simp: seen_by_append seen_by_tap, simp_all add: seen_by_def)

lemma fifo_ops_taps:
  assumes "fifo_ops (deliver_shared (watched write)) ops f = (g, acc, rem)"
    and "distinct (fi_put_taps f)" "distinct (fi_get_taps f)"
    and "sub \<in> set (fi_put_taps f) \<longleftrightarrow> p" "sub \<in> set (fi_get_taps f) \<longleftrightarrow> \<not> p"
  shows "seen_by sub (snd (fi_env g)) = seen_by sub (snd (fi_env f)) @ (if p then acc else taken_out rem)"
  using assms
proof (induction ops arbitrary: f g acc rem)
  case Nil
  then show ?case by (auto simp: taken_out_def)
next
  case (Cons x xs)
  obtain f1 acc1 rem1 where 1: "fifo_do (deliver_shared (watched write)) x f = (f1, acc1, rem1)"
    by (cases "fifo_do (deliver_shared (watched write)) x f")
  obtain acc2 rem2 where 2: "fifo_ops (deliver_shared (watched write)) xs f1 = (g, acc2, rem2)"
    "acc = acc1 @ acc2" "rem = rem1 @ rem2"
    using Cons.prems(1) 1 by (auto split: prod.splits)
  note s = fifo_do_step [OF 1]
  have "seen_by sub (snd (fi_env g)) = seen_by sub (snd (fi_env f1)) @ (if p then acc2 else taken_out rem2)"
    by (rule Cons.IH [OF 2(1)]) (use Cons.prems s in auto)
  moreover have "seen_by sub (snd (fi_env f1)) = seen_by sub (snd (fi_env f)) @ (if p then acc1 else taken_out rem1)"
    using Cons.prems(2-5) by (auto simp: s(4) seen_by_append seen_by_taps)
  ultimately show ?case by (auto simp: 2 taken_out_def)
qed

lemma fifo_ops_data:
  "fifo_ops (deliver_shared (watched write)) ops f = (g, acc, rem) \<Longrightarrow> q_buf (fi_q f) @ acc = map fst rem @ q_buf (fi_q g)"
proof (induction ops arbitrary: f acc rem)
  case (Cons x xs)
  obtain f1 acc1 rem1 where 1: "fifo_do (deliver_shared (watched write)) x f = (f1, acc1, rem1)"
    by (cases "fifo_do (deliver_shared (watched write)) x f")
  obtain acc2 rem2 where 2: "fifo_ops (deliver_shared (watched write)) xs f1 = (g, acc2, rem2)"
    "acc = acc1 @ acc2" "rem = rem1 @ rem2"
    using Cons.prems 1 by (auto split: prod.splits)
  have "(q_buf (fi_q f) @ acc1) @ acc2 = map fst rem1 @ (q_buf (fi_q f1) @ acc2)" using fifo_do_step(1) [OF 1] by simp
  with Cons.IH [OF 2(1)] show ?case by (simp add: 2)
qed simp

section \<open>Operations through a port\<close>

definition put_port_try_put :: "('a, 's) deliver \<Rightarrow> nat port_heap \<Rightarrow> (nat \<Rightarrow> ('a, 's) fifo_inner) \<Rightarrow> nat \<Rightarrow> 'a
    \<Rightarrow> ((nat \<Rightarrow> ('a, 's) fifo_inner) \<times> waker list \<times> ('a + unit)) may_panic" where
  "put_port_try_put deliver h fifos c item =
     (case port_iface h c of
        Inl p \<Rightarrow> Inl p
      | Inr i \<Rightarrow> (case try_put_tapped deliver item (fifos i) of ((f, ws), r) \<Rightarrow> Inr (fifos(i := f), ws, r)))"

definition get_port_try_get :: "('a, 's) deliver \<Rightarrow> nat port_heap \<Rightarrow> (nat \<Rightarrow> ('a, 's) fifo_inner) \<Rightarrow> nat
    \<Rightarrow> ((nat \<Rightarrow> ('a, 's) fifo_inner) \<times> waker list \<times> 'a option) may_panic" where
  "get_port_try_get deliver h fifos c =
     (case port_iface h c of
        Inl p \<Rightarrow> Inl p
      | Inr i \<Rightarrow> (case fifo_try_get deliver (fifos i) of ((f, ws), r) \<Rightarrow> Inr (fifos(i := f), ws, r)))"

lemma port_bind_Inr:
  "port_bind h owner ity name i = Inr h' \<longleftrightarrow>
     (\<exists>c. po_slots owner name = Some c \<and> pc_iface_type (h c) = ity \<and> h' = h(c := (h c)\<lparr>pc_slot := Some i\<rparr>))"
  by (auto simp: port_bind_def split: option.splits if_splits)

section \<open>Properties\<close>


definition tapped_demo :: "(nat, nat \<times> (nat \<times> nat) list) fifo_inner" where
  "tapped_demo = (fifo_new (Some 1) (0, []))\<lparr>fi_put_taps := [7], fi_get_taps := [8]\<rparr>"


text \<open>A producer and a consumer whose ports were connected to one FIFO exchange items without
  knowing each other: what goes in at the put port comes out at the get port.\<close>

theorem connected_ports_transport:
  assumes "port_bind h producer put_ty pn i = Inr h1" "port_bind h1 consumer get_ty cn i = Inr h2"
    and "put_ty \<noteq> get_ty" "po_slots producer pn = Some cp" "po_slots consumer cn = Some cc"
    and "queue_has_space (fi_q (fifos i))" "q_buf (fi_q (fifos i)) = []"
  shows "\<exists>fifos1 ws fifos2 ws'.
     put_port_try_put (deliver_shared wr) h2 fifos cp x = Inr (fifos1, ws, Inr ()) \<and>
     get_port_try_get (deliver_shared wr) h2 fifos1 cc = Inr (fifos2, ws', Some x) \<and>
     q_buf (fi_q (fifos2 i)) = []"
proof -
  have "cp \<noteq> cc" using assms(1-5) by (auto simp: port_bind_Inr)
  then have slots: "pc_slot (h2 cp) = Some i" "pc_slot (h2 cc) = Some i"
    using assms(1,2,4,5) by (auto simp: port_bind_Inr)
  show ?thesis
    using slots assms(6,7)
    by (simp add: put_port_try_put_def get_port_try_get_def port_iface_def try_put_tapped_def tap_shared try_put_def
        wake_getters_def fifo_try_get_def try_get_def tap_get_def wake_putters_def)
qed

theorem connected_ports_transport_witness:
  "\<exists>fifos1 ws fifos2 ws' h2.
     put_port_try_put (deliver_shared (watched (\<lambda>_ _ n. n))) h2 (\<lambda>_. tapped_demo) 0 9 = Inr (fifos1, ws, Inr ()) \<and>
     get_port_try_get (deliver_shared (watched (\<lambda>_ _ n. n))) h2 fifos1 1 = Inr (fifos2, ws', Some 9)"
proof -
  let ?h = "\<lambda>c :: nat. \<lparr>pc_iface_type = c, pc_slot = None :: nat option\<rparr>"
  let ?p = "\<lparr>po_label = ''P'', po_slots = [''put'' \<mapsto> 0]\<rparr>" and ?c = "\<lparr>po_label = ''C'', po_slots = [''get'' \<mapsto> 1]\<rparr>"
  obtain h1 where 1: "port_bind ?h ?p 0 ''put'' 5 = Inr h1" by (simp add: port_bind_def)
  then obtain h2 where 2: "port_bind h1 ?c 1 ''get'' 5 = Inr h2" by (auto simp: port_bind_def)
  from connected_ports_transport [OF 1 2, of 0 1 "\<lambda>_. tapped_demo" "watched (\<lambda>_ _ n. n)" 9]
  show ?thesis by (simp add: tapped_demo_def fifo_new_def queue_new_def queue_has_space_def) blast
qed

text \<open>Broadcast reaches every subscriber of the hub exactly once per item and in the order
  written, whatever the connection order, and a hub nobody subscribed to changes nothing.\<close>

theorem broadcast_reaches_all:
  assumes "distinct (hub_subs hub)"
  shows "seen_by sub (fold (broadcast record_sub hub) items log) =
    seen_by sub log @ (if sub \<in> set (hub_subs hub) then items else [])"
  using assms
  by (induction items arbitrary: log)
    (auto simp: broadcast_def fold_record seen_by_append seen_by_tap)

theorem broadcast_reaches_all_witness:
  "seen_by 2 (fold (broadcast record_sub \<lparr>hub_subs = [1, 2]\<rparr>) [10, 20 :: nat] []) = [10, 20]"
  using broadcast_reaches_all [of "\<lparr>hub_subs = [1, 2]\<rparr>" 2 "[10, 20 :: nat]" "[]"] by (simp add: seen_by_def)

definition refill :: "(nat, unit) deliver" where
  "refill sub item f = (case try_put (fi_q f) 99 of ((q, ws), _) \<Rightarrow> (f\<lparr>fi_q := q\<rparr>, ws))"

text \<open>The handover in put_tapped ignores the result of its try_put. A tap subscriber that itself
  puts into the same FIFO can take the last place, and then the put completes although its item
  is in nobody's hands.\<close>

theorem reentrant_tap_loses_item:
  "\<exists>f' ws. put_tapped_poll refill 0 1 ((fifo_new (Some 1) ())\<lparr>fi_put_taps := [0]\<rparr>) = ((f', ws), Ready ())
     \<and> q_buf (fi_q f') = [99]"
  by (simp add: put_tapped_poll_def space_poll_def fifo_new_def queue_new_def queue_has_space_def refill_def
      try_put_def wake_getters_def)

end
