(* ===== verification/Rng_Model.thy ===== *)
theory Rng_Model
  imports Rustdv_Prelude "HOL-Library.Word"
begin

text \<open>
  The pseudo-random generator of \<open>rustdv-sim/src/rng.rs\<close> (SplitMix64) on 64-bit words. The
  output function is shown to be a permutation of the words and the state to run through all of
  them, so one stream repeats no output within its period of 2 to the 64.
\<close>

unbundle bit_operations_syntax

type_synonym u64 = "64 word"
type_synonym u8 = "8 word"

record rng =
  rng_state :: u64

definition rng_new :: "u64 \<Rightarrow> rng" where
  "rng_new seed = \<lparr>rng_state = seed\<rparr>"

definition mix :: "u64 \<Rightarrow> u64" where
  "mix z0 =
     (let z1 = (z0 XOR drop_bit 30 z0) * 0xBF58476D1CE4E5B9;
          z2 = (z1 XOR drop_bit 27 z1) * 0x94D049BB133111EB
      in z2 XOR drop_bit 31 z2)"

definition next_u64 :: "rng \<Rightarrow> rng \<times> u64" where
  "next_u64 r = (let s = rng_state r + 0x9E3779B97F4A7C15 in (r\<lparr>rng_state := s\<rparr>, mix s))"

definition below :: "rng \<Rightarrow> u64 \<Rightarrow> (rng \<times> u64) may_panic" where
  "below r n =
     (let (r', x) = next_u64 r in
      if n = 0 then panics ''attempt to calculate the remainder with a divisor of zero''
      else Inr (r', x mod n))"

definition rng_u8 :: "rng \<Rightarrow> rng \<times> u8" where
  "rng_u8 r = (let (r', x) = next_u64 r in (r', ucast (x AND 0xFF)))"

definition rng_bool :: "rng \<Rightarrow> rng \<times> bool" where
  "rng_bool r = (let (r', x) = next_u64 r in (r', x AND 1 = 1))"

fun stream :: "nat \<Rightarrow> rng \<Rightarrow> u64 list" where
  "stream 0 r = []"
| "stream (Suc k) r = (let (r', x) = next_u64 r in x # stream k r')"

section \<open>The output function is injective\<close>

lemma xorshift_inj:
  assumes "(x :: 'a::len word) XOR drop_bit k x = y XOR drop_bit k y" "0 < k"
  shows "x = y"
proof (rule bit_word_eqI)
  have eq: "(bit x n \<noteq> bit x (n + k)) = (bit y n \<noteq> bit y (n + k))" for n
    using arg_cong [OF assms(1), of "\<lambda>z. bit z n"] by (simp add: bit_xor_iff bit_drop_bit_eq add.commute)
  have "bit x (LENGTH('a) - m) = bit y (LENGTH('a) - m)" if "m \<le> LENGTH('a)" for m
    using that
  proof (induction m rule: less_induct)
    case (less m)
    show ?case
    proof (cases "m \<le> k")
      case True
      then have "LENGTH('a) \<le> LENGTH('a) - m + k" using less.prems by simp
      then have "\<not> bit x (LENGTH('a) - m + k)" "\<not> bit y (LENGTH('a) - m + k)"
        by (meson bit_imp_le_length leD)+
      with eq [of "LENGTH('a) - m"] show ?thesis by simp
    next
      case False
      have "LENGTH('a) - (m - k) = LENGTH('a) - m + k" using False less.prems by simp
      moreover have "bit x (LENGTH('a) - (m - k)) = bit y (LENGTH('a) - (m - k))"
        by (rule less.IH) (use False assms(2) less.prems in auto)
      ultimately show ?thesis using eq [of "LENGTH('a) - m"] by auto
    qed
  qed
  from this [of "LENGTH('a) - n" for n] show "bit x n = bit y n" if "n < LENGTH('a)" for n
    using that by (metis diff_diff_cancel diff_le_self less_imp_le)
qed

lemma mult_inv_inj:
  assumes "x * c = y * c" "c * c' = (1 :: 'a::len word)"
  shows "x = y"
  using assms by (metis mult.assoc mult.right_neutral)

lemma mix_inj: "mix x = mix y \<Longrightarrow> x = y"
  unfolding mix_def Let_def
  by (rule xorshift_inj [where k = 30], rule mult_inv_inj [where c = "0xBF58476D1CE4E5B9" and c' = "0x96DE1B173F119089"],
      rule xorshift_inj [where k = 27], rule mult_inv_inj [where c = "0x94D049BB133111EB" and c' = "0x319642B2D24D8EC3"],
      erule xorshift_inj) simp_all

lemma stream_length [simp]: "length (stream k r) = k"
  by (induction k arbitrary: r) (auto simp: split_def Let_def)

lemma stream_nth: "i < k \<Longrightarrow> stream k r ! i = mix (rng_state r + of_nat (Suc i) * 0x9E3779B97F4A7C15)"
proof (induction k arbitrary: r i)
  case (Suc k)
  show ?case
  proof (cases i)
    case 0
    then show ?thesis by (simp add: next_u64_def Let_def)
  next
    case (Suc j)
    with Suc.prems Suc.IH [of j "fst (next_u64 r)"] show ?thesis
      by (simp add: next_u64_def Let_def algebra_simps)
  qed
qed simp

lemma state_step_inj:
  assumes "(s :: u64) + of_nat i * 0x9E3779B97F4A7C15 = s + of_nat j * 0x9E3779B97F4A7C15" "i < 2 ^ 64" "j < 2 ^ 64"
  shows "i = j"
proof -
  have "(of_nat i :: u64) = of_nat j"
    by (rule mult_inv_inj [where c = "0x9E3779B97F4A7C15" and c' = "0xF1DE83E19937733D"]) (use assms(1) in simp_all)
  then have "unat (of_nat i :: u64) = unat (of_nat j :: u64)" by (rule arg_cong)
  then have "i mod 2 ^ 64 = j mod 2 ^ 64" by (simp add: unat_of_nat)
  with assms(2,3) show ?thesis by simp
qed

section \<open>Properties\<close>

text \<open>Within one stream no value is produced twice in 2 to the 64 draws, whatever the seed, and a
  stream of that length contains every 64-bit value.\<close>

theorem rng_full_period:
  "distinct (stream (2 ^ 64) (rng_new seed)) \<and> x \<in> set (stream (2 ^ 64) (rng_new seed))"
proof -
  let ?n = "2 ^ 64 :: nat"
  have nth: "stream ?n (rng_new seed) ! i = mix ((seed + 0x9E3779B97F4A7C15) + of_nat i * 0x9E3779B97F4A7C15)" if "i < ?n" for i
    by (subst stream_nth [OF that]) (simp add: rng_new_def algebra_simps)
  have d: "distinct (stream ?n (rng_new seed))"
    unfolding distinct_conv_nth stream_length
  proof (intro allI impI)
    fix i j assume ij: "i < ?n" "j < ?n" "i \<noteq> j"
    show "stream ?n (rng_new seed) ! i \<noteq> stream ?n (rng_new seed) ! j"
      unfolding nth [OF ij(1)] nth [OF ij(2)]
    proof
      assume "mix (seed + 0x9E3779B97F4A7C15 + of_nat i * 0x9E3779B97F4A7C15) =
        mix (seed + 0x9E3779B97F4A7C15 + of_nat j * 0x9E3779B97F4A7C15)"
      from state_step_inj [OF mix_inj [OF this] ij(1,2)] ij(3) show False by simp
    qed
  qed
  have "card (set (stream ?n (rng_new seed))) = ?n" using distinct_card [OF d] by (simp only: stream_length)
  also have "?n = card (UNIV :: u64 set)" by (simp add: card_word)
  finally have "set (stream ?n (rng_new seed)) = UNIV" by (intro card_subset_eq) simp_all
  with d show ?thesis by simp
qed

text \<open>\<open>below\<close> panics exactly for a zero bound and otherwise returns a value below it, advancing the
  generator by one draw.\<close>

theorem below_in_range:
  "case below r n of
     Inl _ \<Rightarrow> n = 0
   | Inr (r', x) \<Rightarrow> n \<noteq> 0 \<and> x < n \<and> r' = fst (next_u64 r) \<and> x = snd (next_u64 r) mod n"
proof (cases "n = 0")
  case False
  then have "snd (next_u64 r) mod n < n" by (simp add: word_mod_less_divisor word_gt_0)
  with False show ?thesis by (simp add: below_def split_def Let_def)
qed (simp add: below_def split_def)

end
