(* ===== verification/Sequence_Model.thy ===== *)
theory Sequence_Model
  imports Queue_Model Sync_Model Path_Model Rng_Model
begin

text \<open>
  The sequencer of \<open>rustdv-methodology/src/sequence.rs\<close>: the response queue, the handshake
  between a sequence (\<open>start_item\<close>, \<open>finish_item\<close>) and a driver (\<open>get_next_item\<close>,
  \<open>try_next_item\<close>, \<open>item_done\<close>, \<open>put_response\<close>), and the sequence overrides. An item slot is
  shared by both sides, so slots live in a heap. Each \<open>async fn\<close> is the poll function of its
  state machine, one state per await. Ticket numbers are 64-bit counters in the code and
  naturals here.
\<close>

section \<open>Responses\<close>

record 'r resp_queue =
  rq_items :: "(nat \<times> 'r) list"
  rq_waiters :: "waker list"

definition resp_new :: "'r resp_queue" where
  "resp_new = \<lparr>rq_items = [], rq_waiters = []\<rparr>"

definition resp_push :: "'r resp_queue \<Rightarrow> nat \<Rightarrow> 'r \<Rightarrow> 'r resp_queue \<times> waker list" where
  "resp_push q tid rsp = (q\<lparr>rq_items := rq_items q @ [(tid, rsp)], rq_waiters := []\<rparr>, rq_waiters q)"

definition resp_index :: "'r resp_queue \<Rightarrow> nat option \<Rightarrow> nat option" where
  "resp_index q txn =
     (case txn of
        None \<Rightarrow> if rq_items q \<noteq> [] then Some 0 else None
      | Some tid \<Rightarrow> position (\<lambda>(i, _). i = tid) (rq_items q))"

definition try_get_response :: "'r resp_queue \<Rightarrow> nat option \<Rightarrow> 'r resp_queue \<times> 'r option" where
  "try_get_response q txn =
     (case resp_index q txn of
        None \<Rightarrow> (q, None)
      | Some i \<Rightarrow> (q\<lparr>rq_items := remove_at i (rq_items q)\<rparr>, Some (snd (rq_items q ! i))))"

definition get_response_poll :: "waker \<Rightarrow> nat option \<Rightarrow> 'r resp_queue \<Rightarrow> 'r resp_queue \<times> 'r poll" where
  "get_response_poll w txn q =
     (case resp_index q txn of
        Some i \<Rightarrow> (q\<lparr>rq_items := remove_at i (rq_items q)\<rparr>, Ready (snd (rq_items q ! i)))
      | None \<Rightarrow> (q\<lparr>rq_waiters := rq_waiters q @ [w]\<rparr>, Pending))"

section \<open>The sequencer\<close>

record 'q item_slot =
  sl_id :: nat
  sl_granted :: event
  sl_ready :: event
  sl_done :: event
  sl_payload :: "'q option"

record ('q, 'r) seqr_inner =
  se_slots :: "nat \<Rightarrow> 'q item_slot"
  se_alloc :: nat
  se_queue :: "nat qinner"
  se_next_id :: nat
  se_responses :: "'r resp_queue"
  se_current :: "nat option"

definition fresh_slot :: "nat \<Rightarrow> 'q item_slot" where
  "fresh_slot tid = \<lparr>sl_id = tid, sl_granted = event_new, sl_ready = event_new, sl_done = event_new, sl_payload = None\<rparr>"

definition sequencer_new :: "('q, 'r) seqr_inner" where
  "sequencer_new = \<lparr>se_slots = (\<lambda>_. fresh_slot 0), se_alloc = 0, se_queue = queue_unbounded, se_next_id = 1,
     se_responses = resp_new, se_current = None\<rparr>"

definition upd_slot :: "('q, 'r) seqr_inner \<Rightarrow> nat \<Rightarrow> ('q item_slot \<Rightarrow> 'q item_slot) \<Rightarrow> ('q, 'r) seqr_inner" where
  "upd_slot s n f = s\<lparr>se_slots := (se_slots s)(n := f (se_slots s n))\<rparr>"

definition set_granted :: "('q, 'r) seqr_inner \<Rightarrow> nat \<Rightarrow> ('q, 'r) seqr_inner \<times> waker list" where
  "set_granted s n = (case event_set (sl_granted (se_slots s n)) of
     (e, ws) \<Rightarrow> (upd_slot s n (\<lambda>sl. sl\<lparr>sl_granted := e\<rparr>), ws))"

section \<open>The driver's side\<close>

type_synonym 'q seq_item = "nat \<times> 'q"

datatype gni = Gni_start | Gni_queue | Gni_ready nat | Gni_finished

type_synonym ('q, 'r) gni_result =
  "((('q, 'r) seqr_inner \<times> waker list) \<times> gni \<times> 'q seq_item poll) may_panic"

definition gni_ready :: "waker \<Rightarrow> nat \<Rightarrow> ('q, 'r) seqr_inner \<Rightarrow> waker list \<Rightarrow> ('q, 'r) gni_result" where
  "gni_ready w n s ws =
     (case event_poll (sl_ready (se_slots s n)) w of
        (e, Pending) \<Rightarrow> Inr ((upd_slot s n (\<lambda>sl. sl\<lparr>sl_ready := e\<rparr>), ws), Gni_ready n, Pending)
      | (e, Ready _) \<Rightarrow>
          (case sl_payload (se_slots s n) of
             None \<Rightarrow> panics ''item ready but payload missing (rustdv bug)''
           | Some p \<Rightarrow>
               Inr (((upd_slot s n (\<lambda>sl. sl\<lparr>sl_payload := None\<rparr>))\<lparr>se_current := Some n\<rparr>, ws),
                 Gni_finished, Ready (sl_id (se_slots s n), p))))"

definition gni_queue :: "waker \<Rightarrow> ('q, 'r) seqr_inner \<Rightarrow> ('q, 'r) gni_result" where
  "gni_queue w s =
     (case get_poll w (se_queue s) of
        ((q, ws), Pending) \<Rightarrow> Inr ((s\<lparr>se_queue := q\<rparr>, ws), Gni_queue, Pending)
      | ((q, ws), Ready n) \<Rightarrow>
          (case set_granted (s\<lparr>se_queue := q\<rparr>) n of (s', ws') \<Rightarrow> gni_ready w n s' (ws @ ws')))"

definition get_next_item_poll :: "waker \<Rightarrow> gni \<Rightarrow> ('q, 'r) seqr_inner \<Rightarrow> ('q, 'r) gni_result" where
  "get_next_item_poll w st s =
     (case st of
        Gni_start \<Rightarrow>
          if se_current s \<noteq> None then panics ''get_next_item called twice without item_done''
          else gni_queue w s
      | Gni_queue \<Rightarrow> gni_queue w s
      | Gni_ready n \<Rightarrow> gni_ready w n s []
      | Gni_finished \<Rightarrow> panics ''`async fn` resumed after completion'')"

definition try_next_item :: "('q, 'r) seqr_inner
    \<Rightarrow> ((('q, 'r) seqr_inner \<times> waker list) \<times> 'q seq_item option) may_panic" where
  "try_next_item s =
     (if se_current s \<noteq> None then panics ''try_next_item called without item_done''
      else
        (case try_get (se_queue s) of
           ((q, ws), None) \<Rightarrow> Inr ((s\<lparr>se_queue := q\<rparr>, ws), None)
         | ((q, ws), Some n) \<Rightarrow>
             (case set_granted (s\<lparr>se_queue := q\<rparr>) n of (s', ws') \<Rightarrow>
                (case sl_payload (se_slots s' n) of
                   None \<Rightarrow>
                     (case try_put (se_queue s') n of ((q', ws''), _) \<Rightarrow>
                        Inr ((s'\<lparr>se_queue := q'\<rparr>, ws @ ws' @ ws''), None))
                 | Some p \<Rightarrow>
                     Inr (((upd_slot s' n (\<lambda>sl. sl\<lparr>sl_payload := None\<rparr>))\<lparr>se_current := Some n\<rparr>, ws @ ws'),
                       Some (sl_id (se_slots s' n), p))))))"

definition item_done :: "('q, 'r) seqr_inner \<Rightarrow> 'r option \<Rightarrow> (('q, 'r) seqr_inner \<times> waker list) may_panic" where
  "item_done s rsp =
     (case se_current s of
        None \<Rightarrow> panics ''item_done without get_next_item''
      | Some n \<Rightarrow>
          let (rs, ws) = (case rsp of
                Some r \<Rightarrow> resp_push (se_responses s) (sl_id (se_slots s n)) r
              | None \<Rightarrow> (se_responses s, []));
              (e, ws') = event_set (sl_done (se_slots s n))
          in Inr ((upd_slot s n (\<lambda>sl. sl\<lparr>sl_done := e\<rparr>))\<lparr>se_current := None, se_responses := rs\<rparr>, ws @ ws'))"

definition put_response :: "('q, 'r) seqr_inner \<Rightarrow> nat \<Rightarrow> 'r \<Rightarrow> ('q, 'r) seqr_inner \<times> waker list" where
  "put_response s tid rsp = (case resp_push (se_responses s) tid rsp of (rs, ws) \<Rightarrow> (s\<lparr>se_responses := rs\<rparr>, ws))"

section \<open>The sequence's side\<close>

record seq_ctx =
  cx_has_seqr :: bool
  cx_current :: "nat option"
  cx_name :: string
  cx_seq_logger :: rustdv_path
  cx_seq_seed :: u64

type_synonym seq_error = string

definition seq_ctx_new :: "bool \<Rightarrow> string \<Rightarrow> u64 \<Rightarrow> seq_ctx" where
  "seq_ctx_new has_seqr name seed =
     \<lparr>cx_has_seqr = has_seqr, cx_current = None, cx_name = name, cx_seq_logger = path_root name, cx_seq_seed = seed\<rparr>"

datatype si = Si_start | Si_put nat "nat option" | Si_granted nat | Si_finished

type_synonym ('q, 'r) si_result =
  "(seq_ctx \<times> (('q, 'r) seqr_inner \<times> waker list) \<times> si \<times> (seq_error + unit) poll) may_panic"

definition si_granted :: "waker \<Rightarrow> nat \<Rightarrow> seq_ctx \<Rightarrow> ('q, 'r) seqr_inner \<Rightarrow> waker list \<Rightarrow> ('q, 'r) si_result" where
  "si_granted w n ctx s ws =
     (case event_poll (sl_granted (se_slots s n)) w of
        (e, Pending) \<Rightarrow> Inr (ctx, (upd_slot s n (\<lambda>sl. sl\<lparr>sl_granted := e\<rparr>), ws), Si_granted n, Pending)
      | (e, Ready _) \<Rightarrow> Inr (ctx, (s, ws), Si_finished, Ready (Inr ())))"

definition si_put :: "waker \<Rightarrow> nat \<Rightarrow> nat option \<Rightarrow> seq_ctx \<Rightarrow> ('q, 'r) seqr_inner \<Rightarrow> ('q, 'r) si_result" where
  "si_put w n item ctx s =
     (case put_poll w item (se_queue s) of
        Inl p \<Rightarrow> Inl p
      | Inr (item', (q, ws), Pending) \<Rightarrow> Inr (ctx, (s\<lparr>se_queue := q\<rparr>, ws), Si_put n item', Pending)
      | Inr (item', (q, ws), Ready _) \<Rightarrow> si_granted w n ctx (s\<lparr>se_queue := q\<rparr>) ws)"

definition start_item_poll :: "waker \<Rightarrow> si \<Rightarrow> seq_ctx \<Rightarrow> ('q, 'r) seqr_inner \<Rightarrow> ('q, 'r) si_result" where
  "start_item_poll w st ctx s =
     (case st of
        Si_start \<Rightarrow>
          if cx_current ctx \<noteq> None
          then Inr (ctx, (s, []), Si_finished, Ready (Inl ''start_item called twice without finish_item''))
          else if \<not> cx_has_seqr ctx
          then Inr (ctx, (s, []), Si_finished, Ready (Inl (cx_name ctx @
            '': start_item in a virtual sequence - it was started without a sequencer'')))
          else
            let n = se_alloc s;
                s' = s\<lparr>se_alloc := Suc n, se_slots := (se_slots s)(n := fresh_slot (se_next_id s)),
                       se_next_id := se_next_id s + 1\<rparr>
            in si_put w n (Some n) (ctx\<lparr>cx_current := Some n\<rparr>) s'
      | Si_put n item \<Rightarrow> si_put w n item ctx s
      | Si_granted n \<Rightarrow> si_granted w n ctx s []
      | Si_finished \<Rightarrow> panics ''`async fn` resumed after completion'')"

datatype 'q fi = Fi_start 'q | Fi_done nat | Fi_finished

type_synonym ('q, 'r) fi_result =
  "(seq_ctx \<times> (('q, 'r) seqr_inner \<times> waker list) \<times> 'q fi \<times> (seq_error + nat) poll) may_panic"

definition fi_done :: "waker \<Rightarrow> nat \<Rightarrow> seq_ctx \<Rightarrow> ('q, 'r) seqr_inner \<Rightarrow> waker list \<Rightarrow> ('q, 'r) fi_result" where
  "fi_done w n ctx s ws =
     (case event_poll (sl_done (se_slots s n)) w of
        (e, Pending) \<Rightarrow> Inr (ctx, (upd_slot s n (\<lambda>sl. sl\<lparr>sl_done := e\<rparr>), ws), Fi_done n, Pending)
      | (e, Ready _) \<Rightarrow> Inr (ctx, (s, ws), Fi_finished, Ready (Inr (sl_id (se_slots s n)))))"

definition finish_item_poll :: "waker \<Rightarrow> 'q fi \<Rightarrow> seq_ctx \<Rightarrow> ('q, 'r) seqr_inner \<Rightarrow> ('q, 'r) fi_result" where
  "finish_item_poll w st ctx s =
     (case st of
        Fi_start item \<Rightarrow>
          (case cx_current ctx of
             None \<Rightarrow> Inr (ctx, (s, []), Fi_finished, Ready (Inl ''finish_item without start_item''))
           | Some n \<Rightarrow>
               (case event_set (sl_ready (se_slots s n)) of (e, ws) \<Rightarrow>
                  fi_done w n (ctx\<lparr>cx_current := None\<rparr>)
                    (upd_slot s n (\<lambda>sl. sl\<lparr>sl_payload := Some item, sl_ready := e\<rparr>)) ws))
      | Fi_done n \<Rightarrow> fi_done w n ctx s []
      | Fi_finished \<Rightarrow> panics ''`async fn` resumed after completion'')"

definition ctx_try_get_response :: "seq_ctx \<Rightarrow> ('q, 'r) seqr_inner \<Rightarrow> nat option \<Rightarrow> ('q, 'r) seqr_inner \<times> 'r option" where
  "ctx_try_get_response ctx s txn =
     (if \<not> cx_has_seqr ctx then (s, None)
      else (case try_get_response (se_responses s) txn of (rs, r) \<Rightarrow> (s\<lparr>se_responses := rs\<rparr>, r)))"

definition ctx_get_response_poll :: "waker \<Rightarrow> nat option \<Rightarrow> seq_ctx \<Rightarrow> ('q, 'r) seqr_inner
    \<Rightarrow> (('q, 'r) seqr_inner \<times> 'r poll) may_panic" where
  "ctx_get_response_poll w txn ctx s =
     (if \<not> cx_has_seqr ctx then panics ''get_response in a virtual sequence''
      else (case get_response_poll w txn (se_responses s) of (rs, r) \<Rightarrow> Inr (s\<lparr>se_responses := rs\<rparr>, r)))"

section \<open>Sequence overrides\<close>

type_synonym 'b seq_overrides = "nat \<rightharpoonup> nat \<times> (unit \<Rightarrow> 'b)"

definition clear_seq_overrides :: "'b seq_overrides \<Rightarrow> 'b seq_overrides" where
  "clear_seq_overrides ov = Map.empty"

definition set_seq_override :: "'b seq_overrides \<Rightarrow> nat \<Rightarrow> nat \<Rightarrow> (unit \<Rightarrow> 'b) \<Rightarrow> 'b seq_overrides" where
  "set_seq_override ov from_ty to_ty maker = ov(from_ty \<mapsto> (to_ty, maker))"

text \<open>The request and response types of an override are those of the type it replaces, by the
  bounds of \<open>set_seq_override\<close>, so the downcast of \<open>create_seq\<close> cannot fail.\<close>

definition create_seq :: "'b seq_overrides \<Rightarrow> nat \<Rightarrow> (unit \<Rightarrow> 'b) \<Rightarrow> 'b" where
  "create_seq ov ty dflt = (case ov ty of Some (_, mk) \<Rightarrow> mk () | None \<Rightarrow> dflt ())"

section \<open>Lemmas\<close>

lemmas seq_defs = start_item_poll_def si_put_def si_granted_def finish_item_poll_def fi_done_def get_next_item_poll_def
  gni_queue_def gni_ready_def set_granted_def upd_slot_def item_done_def put_response_def ctx_try_get_response_def
  ctx_get_response_poll_def

lemma position_append_new:
  "(\<And>x. x \<in> set xs \<Longrightarrow> \<not> P x) \<Longrightarrow> P y \<Longrightarrow> position P (xs @ [y]) = Some (length xs)"
  by (induction xs) auto

lemma resp_push_then_get:
  assumes "tid \<notin> fst ` set (rq_items q)"
  shows "snd (try_get_response (fst (resp_push q tid r)) (Some tid)) = Some r"
proof -
  have "position (\<lambda>(i, _). i = tid) (rq_items q @ [(tid, r)]) = Some (length (rq_items q))"
    by (rule position_append_new) (use assms in force)+
  then show ?thesis by (simp add: try_get_response_def resp_index_def resp_push_def)
qed

section \<open>Steps of the sequences and the driver\<close>

text \<open>Any poll of the futures in the states they can be in, and the immediate calls, except
  \<open>try_next_item\<close>.\<close>

inductive seq_step :: "('q, 'r) seqr_inner \<Rightarrow> ('q, 'r) seqr_inner \<Rightarrow> bool" where
  ss_start: "start_item_poll w Si_start ctx s = Inr (ctx', (s', ws), st', r) \<Longrightarrow> seq_step s s'"
| ss_wait: "start_item_poll w (Si_granted n) ctx s = Inr (ctx', (s', ws), st', r) \<Longrightarrow> seq_step s s'"
| ss_finish: "finish_item_poll w st ctx s = Inr (ctx', (s', ws), st', fr) \<Longrightarrow> seq_step s s'"
| ss_next: "get_next_item_poll w gst s = Inr ((s', ws), gst', gr) \<Longrightarrow> seq_step s s'"
| ss_done: "item_done s rsp = Inr (s', ws) \<Longrightarrow> seq_step s s'"
| ss_put: "put_response s tid v = (s', ws) \<Longrightarrow> seq_step s s'"
| ss_try: "ctx_try_get_response ctx s txn = (s', r') \<Longrightarrow> seq_step s s'"
| ss_resp: "ctx_get_response_poll w txn ctx s = Inr (s', pr) \<Longrightarrow> seq_step s s'"

inductive seq_reachable :: "('q, 'r) seqr_inner \<Rightarrow> bool" where
  sr_new: "seq_reachable sequencer_new"
| sr_step: "seq_reachable s \<Longrightarrow> seq_step s s' \<Longrightarrow> seq_reachable s'"

definition tickets :: "('q, 'r) seqr_inner \<Rightarrow> nat list" where
  "tickets s = map (\<lambda>n. sl_id (se_slots s n)) (q_buf (se_queue s))"

definition seq_inv :: "('q, 'r) seqr_inner \<Rightarrow> bool" where
  "seq_inv s \<longleftrightarrow> q_cap (se_queue s) = None \<and> sorted_wrt (<) (tickets s) \<and>
     (\<forall>n \<in> set (q_buf (se_queue s)). n < se_alloc s) \<and> (\<forall>t \<in> set (tickets s). t < se_next_id s)"

text \<open>Everything but a fresh \<open>start_item\<close> keeps the tickets of the slots and only shortens the
  queue from the front.\<close>

definition queue_suffix :: "('q, 'r) seqr_inner \<Rightarrow> ('q, 'r) seqr_inner \<Rightarrow> bool" where
  "queue_suffix s s' \<longleftrightarrow> q_cap (se_queue s') = q_cap (se_queue s) \<and>
     (\<forall>n. sl_id (se_slots s' n) = sl_id (se_slots s n)) \<and> se_alloc s' = se_alloc s \<and> se_next_id s' = se_next_id s \<and>
     (q_buf (se_queue s') = q_buf (se_queue s) \<or> q_buf (se_queue s') = tl (q_buf (se_queue s)))"

lemma queue_suffix_inv: "queue_suffix s s' \<Longrightarrow> seq_inv s \<Longrightarrow> seq_inv s'"
  by (cases "q_buf (se_queue s)") (auto simp: queue_suffix_def seq_inv_def tickets_def)

lemma upd_slot_simps [simp]:
  "se_queue (upd_slot s n f) = se_queue s" "se_alloc (upd_slot s n f) = se_alloc s"
  "se_next_id (upd_slot s n f) = se_next_id s" "se_current (upd_slot s n f) = se_current s"
  "se_responses (upd_slot s n f) = se_responses s"
  "se_slots (upd_slot s n f) m = (if m = n then f (se_slots s n) else se_slots s m)"
  by (simp_all add: upd_slot_def)

lemma gni_ready_suffix:
  "gni_ready w n s ws = Inr ((s', ws'), st, r) \<Longrightarrow> queue_suffix s s' \<and> se_queue s' = se_queue s"
  by (auto simp: gni_ready_def queue_suffix_def split: prod.splits poll.splits option.splits)

lemma gni_ready_frame:
  assumes "gni_ready w n s ws = Inr ((s', ws'), st, r)"
  shows "se_queue s' = se_queue s \<and> sl_granted (se_slots s' n) = sl_granted (se_slots s n) \<and>
    (\<forall>m. m \<noteq> n \<longrightarrow> se_slots s' m = se_slots s m)"
  using assms
  by (cases "event_poll (sl_ready (se_slots s n)) w"; cases "snd (event_poll (sl_ready (se_slots s n)) w)")
    (auto simp: gni_ready_def split: option.splits)

lemma gni_queue_suffix:
  assumes "gni_queue w s = Inr ((s', ws), st, r)"
  shows "queue_suffix s s'"
proof (cases "q_buf (se_queue s)")
  case Nil
  with assms show ?thesis by (auto simp: gni_queue_def get_poll_def queue_suffix_def)
next
  case (Cons n rest)
  obtain s1 ws1 where g: "set_granted (s\<lparr>se_queue := (se_queue s)\<lparr>q_buf := rest, q_put_waiters := []\<rparr>\<rparr>) n = (s1, ws1)"
    by (cases "set_granted (s\<lparr>se_queue := (se_queue s)\<lparr>q_buf := rest, q_put_waiters := []\<rparr>\<rparr>) n")
  then have 1: "queue_suffix s s1" "se_queue s1 = (se_queue s)\<lparr>q_buf := rest, q_put_waiters := []\<rparr>"
    using Cons by (auto simp: set_granted_def queue_suffix_def split: prod.splits)
  from assms Cons g have "gni_ready w n s1 (q_put_waiters (se_queue s) @ ws1) = Inr ((s', ws), st, r)"
    by (simp add: gni_queue_def get_poll_def wake_putters_def)
  from gni_ready_suffix [OF this] 1 show ?thesis by (auto simp: queue_suffix_def)
qed

lemma start_fresh_inv:
  assumes "start_item_poll w Si_start ctx s = Inr (ctx', (s', ws), st', r)" "seq_inv s"
  shows "seq_inv s'"
proof (cases "cx_current ctx = None \<and> cx_has_seqr ctx")
  case False
  with assms show ?thesis by (auto simp: start_item_poll_def split: if_splits)
next
  case True
  with assms have e: "q_buf (se_queue s') = q_buf (se_queue s) @ [se_alloc s]" "q_cap (se_queue s') = None"
    "se_alloc s' = Suc (se_alloc s)" "se_next_id s' = Suc (se_next_id s)"
    "\<And>n. n \<noteq> se_alloc s \<Longrightarrow> sl_id (se_slots s' n) = sl_id (se_slots s n)"
    "sl_id (se_slots s' (se_alloc s)) = se_next_id s"
    by (auto simp: start_item_poll_def si_put_def si_granted_def put_poll_def queue_has_space_def wake_getters_def
        seq_inv_def fresh_slot_def event_poll_def event_new_def Let_def)
  have "map (\<lambda>n. sl_id (se_slots s' n)) (q_buf (se_queue s)) = tickets s"
    using assms(2) e(5) by (auto simp: seq_inv_def tickets_def)
  then have "tickets s' = tickets s @ [se_next_id s]" using e by (simp add: tickets_def)
  with assms(2) e show ?thesis by (auto simp: seq_inv_def sorted_wrt_append less_Suc_eq)
qed

lemma seq_step_inv: "seq_step s s' \<Longrightarrow> seq_inv s \<Longrightarrow> seq_inv s'"
proof (induction rule: seq_step.induct)
  case (ss_start w ctx s ctx' s' ws st' r)
  then show ?case by (rule start_fresh_inv)
next
  case (ss_wait w n ctx s ctx' s' ws st' r)
  then show ?case
    by (auto simp: start_item_poll_def si_granted_def queue_suffix_def split: prod.splits poll.splits
        intro!: queue_suffix_inv [of s])
next
  case (ss_finish w st ctx s ctx' s' ws st' fr)
  then show ?case
    by (auto simp: finish_item_poll_def fi_done_def queue_suffix_def split: prod.splits poll.splits fi.splits option.splits
        intro!: queue_suffix_inv [of s])
next
  case (ss_next w gst s s' ws gst' gr)
  then show ?case
    by (auto simp: get_next_item_poll_def split: gni.splits if_splits dest: gni_queue_suffix gni_ready_suffix
        intro: queue_suffix_inv)
next
  case (ss_done s rsp s' ws)
  then show ?case
    by (auto simp: item_done_def queue_suffix_def Let_def split: prod.splits option.splits intro!: queue_suffix_inv [of s])
next
  case (ss_put s tid v s' ws)
  then show ?case
    by (auto simp: put_response_def queue_suffix_def split: prod.splits intro!: queue_suffix_inv [of s])
next
  case (ss_try ctx s txn s' r')
  then show ?case
    by (auto simp: ctx_try_get_response_def queue_suffix_def split: prod.splits if_splits intro!: queue_suffix_inv [of s])
next
  case (ss_resp w txn ctx s s' pr)
  then show ?case
    by (auto simp: ctx_get_response_poll_def queue_suffix_def split: prod.splits if_splits intro!: queue_suffix_inv [of s])
qed

lemma seq_reachable_inv: "seq_reachable s \<Longrightarrow> seq_inv s"
proof (induction rule: seq_reachable.induct)
  case sr_new
  show ?case by (simp add: seq_inv_def sequencer_new_def tickets_def queue_unbounded_def queue_new_def)
qed (rule seq_step_inv)

section \<open>Properties\<close>

text \<open>One complete handshake, from a sequencer with nothing queued: the sequence waits until the
  driver asks, is woken by the grant, hands over what it filled in after the grant, the driver
  receives exactly that item with its ticket, item_done releases the sequence with the same
  ticket, and asking for that ticket returns the driver's answer.\<close>

theorem handshake_delivers:
  assumes "se_current s = None" "q_buf (se_queue s) = []" "q_cap (se_queue s) = None"
    and "se_next_id s \<notin> fst ` set (rq_items (se_responses s))"
  shows "\<exists>n ctx1 s1 ws1 s2 ws2 ctx2 s3 ws3 ctx3 s4 ws4 s5 ws5 s6 ws6 ctx4 s7 ws7.
    start_item_poll w Si_start (seq_ctx_new True name seed) s = Inr (ctx1, (s1, ws1), Si_granted n, Pending) \<and>
    get_next_item_poll v Gni_start s1 = Inr ((s2, ws2), Gni_ready n, Pending) \<and> w \<in> set ws2 \<and>
    start_item_poll w (Si_granted n) ctx1 s2 = Inr (ctx2, (s3, ws3), Si_finished, Ready (Inr ())) \<and>
    finish_item_poll w (Fi_start item) ctx2 s3 = Inr (ctx3, (s4, ws4), Fi_done n, Pending) \<and> v \<in> set ws4 \<and>
    get_next_item_poll v (Gni_ready n) s4 = Inr ((s5, ws5), Gni_finished, Ready (se_next_id s, item)) \<and>
    item_done s5 (Some rsp) = Inr (s6, ws6) \<and> w \<in> set ws6 \<and>
    finish_item_poll w (Fi_done n) ctx3 s6 = Inr (ctx4, (s7, ws7), Fi_finished, Ready (Inr (se_next_id s))) \<and>
    snd (ctx_try_get_response ctx4 s7 (Some (se_next_id s))) = Some rsp"
proof -
  have r: "\<And>q. rq_items q = rq_items (se_responses s) \<Longrightarrow>
      snd (try_get_response (fst (resp_push q (se_next_id s) rsp)) (Some (se_next_id s))) = Some rsp"
    by (rule resp_push_then_get) (use assms(4) in simp)
  show ?thesis
    using assms r [of "se_responses s"]
    by (simp add: seq_defs Let_def seq_ctx_new_def put_poll_def queue_has_space_def wake_getters_def get_poll_def
        wake_putters_def fresh_slot_def event_defs resp_push_def case_prod_beta)
qed

theorem handshake_delivers_witness:
  "\<exists>n ctx1 s1 ws1. start_item_poll 1 Si_start (seq_ctx_new True ''seq'' 1) (sequencer_new :: (nat, nat) seqr_inner) =
     Inr (ctx1, (s1, ws1), Si_granted n, Pending)"
  using handshake_delivers [of "sequencer_new :: (nat, nat) seqr_inner" 1 "''seq''" 1 5 6]
  by (simp add: sequencer_new_def queue_unbounded_def queue_new_def resp_new_def) blast

text \<open>FIFO arbitration: in any state the sequences and a driver using get_next_item can reach,
  the queued tickets are in the order they were issued, so the item the driver takes next is the
  oldest request waiting.\<close>

theorem arbitration_is_fifo:
  assumes "seq_reachable s" "q_buf (se_queue s) = n # rest" "se_current s = None"
  shows "(\<forall>m \<in> set rest. sl_id (se_slots s n) < sl_id (se_slots s m)) \<and>
    (\<forall>s' ws st r. get_next_item_poll w Gni_start s = Inr ((s', ws), st, r) \<longrightarrow>
       q_buf (se_queue s') = rest \<and> ev_is_set (sl_granted (se_slots s' n)) \<and>
       (\<forall>m. m \<noteq> n \<longrightarrow> se_slots s' m = se_slots s m))"
proof (intro conjI allI impI)
  show "\<forall>m \<in> set rest. sl_id (se_slots s n) < sl_id (se_slots s m)"
    using seq_reachable_inv [OF assms(1)] assms(2) by (simp add: seq_inv_def tickets_def)
next
  fix s' ws st r
  assume g: "get_next_item_poll w Gni_start s = Inr ((s', ws), st, r)"
  let ?s1 = "fst (set_granted (s\<lparr>se_queue := (se_queue s)\<lparr>q_buf := rest, q_put_waiters := []\<rparr>\<rparr>) n)"
  obtain ws0 where "gni_ready w n ?s1 ws0 = Inr ((s', ws), st, r)"
    using g assms(2,3)
    by (auto simp: get_next_item_poll_def gni_queue_def get_poll_def wake_putters_def case_prod_beta)
  note gni_ready_frame [OF this]
  moreover have "q_buf (se_queue ?s1) = rest" "ev_is_set (sl_granted (se_slots ?s1 n))"
    "\<And>m. m \<noteq> n \<Longrightarrow> se_slots ?s1 m = se_slots s m"
    by (simp_all add: set_granted_def event_set_def)
  ultimately show "q_buf (se_queue s') = rest" "ev_is_set (sl_granted (se_slots s' n))"
    "m \<noteq> n \<Longrightarrow> se_slots s' m = se_slots s m" for m
    by simp_all
qed

definition one_waiting :: "(nat, nat) seqr_inner" where
  "one_waiting = (case start_item_poll 1 Si_start (seq_ctx_new True ''a'' 1) sequencer_new of
     Inr (_, (s, _), _, _) \<Rightarrow> s | Inl _ \<Rightarrow> sequencer_new)"

lemma one_waiting_reachable:
  "seq_reachable one_waiting" "q_buf (se_queue one_waiting) = [0]" "se_current one_waiting = None"
proof -
  obtain ctx' s ws st r where e: "start_item_poll 1 Si_start (seq_ctx_new True ''a'' 1)
      (sequencer_new :: (nat, nat) seqr_inner) = Inr (ctx', (s, ws), st, r)"
    "q_buf (se_queue s) = [0]" "se_current s = None"
    by (simp add: seq_defs Let_def seq_ctx_new_def put_poll_def queue_has_space_def wake_getters_def fresh_slot_def
        event_defs sequencer_new_def queue_unbounded_def queue_new_def)
  show "seq_reachable one_waiting" "q_buf (se_queue one_waiting) = [0]" "se_current one_waiting = None"
    using e sr_step [OF sr_new ss_start [OF e(1)]] by (simp_all add: one_waiting_def)
qed

theorem arbitration_is_fifo_witness:
  "\<exists>s' ws st r. get_next_item_poll 2 Gni_start one_waiting = Inr ((s', ws), st, r) \<and> q_buf (se_queue s') = []"
proof -
  have "\<exists>s' ws st r. get_next_item_poll 2 Gni_start one_waiting = Inr ((s', ws), st, r)"
    by (simp add: one_waiting_def seq_defs Let_def seq_ctx_new_def put_poll_def queue_has_space_def wake_getters_def
        fresh_slot_def event_defs sequencer_new_def queue_unbounded_def queue_new_def get_poll_def wake_putters_def case_prod_beta)
  then show ?thesis using arbitration_is_fifo [OF one_waiting_reachable] by blast
qed

text \<open>Responses are collected by ticket: asking for a ticket returns the first answer filed under
  it and leaves every other answer, in order; asking for one that is not there changes nothing.\<close>

theorem response_by_ticket:
  "(case try_get_response q (Some tid) of
      (q', None) \<Rightarrow> q' = q \<and> tid \<notin> fst ` set (rq_items q)
    | (q', Some r) \<Rightarrow> \<exists>xs ys. rq_items q = xs @ (tid, r) # ys \<and> tid \<notin> fst ` set xs \<and> rq_items q' = xs @ ys)"
proof (cases "position (\<lambda>(i, _). i = tid) (rq_items q)")
  case None
  then have "tid \<notin> fst ` set (rq_items q)" by (auto simp: position_None_iff)
  with None show ?thesis by (simp add: try_get_response_def resp_index_def)
next
  case (Some i)
  from remove_at_position [OF Some] obtain xs ys where
    x: "rq_items q = xs @ rq_items q ! i # ys" "remove_at i (rq_items q) = xs @ ys"
      "\<forall>y \<in> set xs. \<not> (case y of (j, _) \<Rightarrow> j = tid)" by blast
  have "rq_items q ! i = (tid, snd (rq_items q ! i))" using position_SomeD [OF Some] by (auto split: prod.splits)
  moreover have "tid \<notin> fst ` set xs" using x(3) by auto
  ultimately show ?thesis using x(1,2) Some
    by (simp add: try_get_response_def resp_index_def) metis
qed

text \<open>A non-blocking request for an item that is queued but not filled in yet moves that request
  to the back of the queue, behind requests that were issued after it.\<close>

theorem try_next_item_rotates:
  assumes "se_current s = None" "q_buf (se_queue s) = n # rest" "q_cap (se_queue s) = None"
    and "sl_payload (se_slots s n) = None"
  shows "\<exists>s' ws. try_next_item s = Inr ((s', ws), None) \<and> q_buf (se_queue s') = rest @ [n]"
  using assms
  by (simp add: try_next_item_def try_get_def wake_putters_def set_granted_def event_set_def try_put_def
      queue_has_space_def wake_getters_def)

theorem try_next_item_rotates_witness:
  "\<exists>s' ws. try_next_item one_waiting = Inr ((s', ws), None) \<and> q_buf (se_queue s') = [0]"
proof -
  have "sl_payload (se_slots one_waiting 0) = None" "q_cap (se_queue one_waiting) = None"
    by (simp_all add: one_waiting_def seq_defs Let_def seq_ctx_new_def put_poll_def queue_has_space_def
        wake_getters_def fresh_slot_def event_defs sequencer_new_def queue_unbounded_def queue_new_def)
  with try_next_item_rotates [OF one_waiting_reachable(3,2)] show ?thesis by simp
qed

end
