(* ===== verification/Log_Model.thy ===== *)
theory Log_Model
  imports Path_Model "HOL-Library.Sublist"
begin

text \<open>
  The logger of \<open>rustdv-sim/src/log.rs\<close>: a global threshold, per-subtree levels, per-subtree
  console switches and file handlers. The thread-local cells are one record; what a call
  prints or writes is returned as a list of sink and line. The simulation time stamp, a
  formatted float, is an argument, and so is the outcome of opening a file, which the
  operating system decides.
\<close>

section \<open>Levels\<close>

datatype level = Debug | Info | Warning | Error | Critical | Off

fun level_rank :: "level \<Rightarrow> nat" where
  "level_rank Debug = 0" | "level_rank Info = 1" | "level_rank Warning = 2"
| "level_rank Error = 3" | "level_rank Critical = 4" | "level_rank Off = 5"

lemma level_rank_inj: "level_rank a = level_rank b \<longleftrightarrow> a = b"
  by (cases a; cases b) auto

text \<open>The derived \<open>Ord\<close> compares discriminants.\<close>

instantiation level :: linorder
begin

definition less_eq_level :: "level \<Rightarrow> level \<Rightarrow> bool" where
  "less_eq_level a b = (level_rank a \<le> level_rank b)"

definition less_level :: "level \<Rightarrow> level \<Rightarrow> bool" where
  "less_level a b = (level_rank a < level_rank b)"

instance
  by standard (auto simp: less_eq_level_def less_level_def level_rank_inj)

end

fun level_as_str :: "level \<Rightarrow> string" where
  "level_as_str Debug = ''DEBUG''" | "level_as_str Info = ''INFO''"
| "level_as_str Warning = ''WARNING''" | "level_as_str Error = ''ERROR''"
| "level_as_str Critical = ''CRITICAL''" | "level_as_str Off = ''OFF''"

section \<open>Configuration\<close>

type_synonym file_id = nat

datatype sink = Console | File file_id

record log_config =
  lc_threshold :: level
  lc_levels :: "(string \<times> level) list"
  lc_file :: "file_id option"
  lc_files :: "(string \<times> file_id) list"
  lc_console :: "(string \<times> bool) list"

definition log_default :: log_config where
  "log_default = \<lparr>lc_threshold = Info, lc_levels = [], lc_file = None, lc_files = [], lc_console = []\<rparr>"

text \<open>Both per-subtree tables replace an entry by dropping it and pushing the new one, and both
  answer a query with the covering entry of greatest prefix length.\<close>

definition set_target :: "(string \<times> 'v) list \<Rightarrow> string \<Rightarrow> 'v \<Rightarrow> (string \<times> 'v) list" where
  "set_target v pre x = filter (\<lambda>(p, _). p \<noteq> pre) v @ [(pre, x)]"

definition target_value :: "(string \<times> 'v) list \<Rightarrow> string \<Rightarrow> 'v option" where
  "target_value v path =
     map_option snd (max_by_key (\<lambda>(p, _). length p) (filter (\<lambda>(p, _). str_is_under path p) v))"

definition set_level :: "log_config \<Rightarrow> level \<Rightarrow> log_config" where
  "set_level c l = c\<lparr>lc_threshold := l\<rparr>"

definition set_level_for :: "log_config \<Rightarrow> string \<Rightarrow> level \<Rightarrow> log_config" where
  "set_level_for c pre l = c\<lparr>lc_levels := set_target (lc_levels c) pre l\<rparr>"

definition set_console_for :: "log_config \<Rightarrow> string \<Rightarrow> bool \<Rightarrow> log_config" where
  "set_console_for c pre on = c\<lparr>lc_console := set_target (lc_console c) pre on\<rparr>"

text \<open>\<open>opened\<close> is the result of \<open>open_log\<close>: no file when the operating system refuses.\<close>

definition log_to_file :: "log_config \<Rightarrow> file_id option \<Rightarrow> log_config \<times> bool" where
  "log_to_file c opened = (case opened of None \<Rightarrow> (c, False) | Some f \<Rightarrow> (c\<lparr>lc_file := Some f\<rparr>, True))"

definition remove_log_file :: "log_config \<Rightarrow> log_config" where
  "remove_log_file c = c\<lparr>lc_file := None\<rparr>"

definition add_file_for :: "log_config \<Rightarrow> string \<Rightarrow> file_id option \<Rightarrow> log_config \<times> bool" where
  "add_file_for c pre opened =
     (case opened of None \<Rightarrow> (c, False) | Some f \<Rightarrow> (c\<lparr>lc_files := lc_files c @ [(pre, f)]\<rparr>, True))"

definition reset_config :: "log_config \<Rightarrow> log_config" where
  "reset_config c = c\<lparr>lc_threshold := Info, lc_levels := [], lc_files := [], lc_console := [], lc_file := None\<rparr>"

section \<open>Emission\<close>

definition console_enabled_for :: "log_config \<Rightarrow> string \<Rightarrow> bool" where
  "console_enabled_for c path = (case target_value (lc_console c) path of None \<Rightarrow> True | Some on \<Rightarrow> on)"

definition file_part :: "log_config \<Rightarrow> string \<Rightarrow> (sink \<times> string) list" where
  "file_part c line = (case lc_file c of None \<Rightarrow> [] | Some f \<Rightarrow> [(File f, line)])"

definition emit_for :: "log_config \<Rightarrow> string \<Rightarrow> string \<Rightarrow> (sink \<times> string) list" where
  "emit_for c path line =
     (if console_enabled_for c path then [(Console, line)] else []) @
     map (\<lambda>(_, f). (File f, line)) (filter (\<lambda>(pre, _). str_is_under path pre) (lc_files c)) @
     file_part c line"

definition emit :: "log_config \<Rightarrow> string \<Rightarrow> (sink \<times> string) list" where
  "emit c line = (Console, line) # file_part c line"

text \<open>\<open>stamp\<close> is the time in nanoseconds already formatted in ten columns.\<close>

definition log_free :: "log_config \<Rightarrow> string \<Rightarrow> level \<Rightarrow> string \<Rightarrow> (sink \<times> string) list" where
  "log_free c stamp lvl msg =
     (if lc_threshold c \<le> lvl
      then emit c (stamp @ ''ns '' @ pad_right 8 (level_as_str lvl) @ '' '' @ msg)
      else [])"

definition logger_enabled :: "log_config \<Rightarrow> rustdv_path \<Rightarrow> level \<Rightarrow> bool" where
  "logger_enabled c p lvl =
     (case target_value (lc_levels c) (rp_rendered p) of
        Some l \<Rightarrow> l \<le> lvl
      | None \<Rightarrow> lc_threshold c \<le> lvl)"

definition logger_log :: "log_config \<Rightarrow> rustdv_path \<Rightarrow> string \<Rightarrow> level \<Rightarrow> string \<Rightarrow> (sink \<times> string) list" where
  "logger_log c p stamp lvl msg =
     (if logger_enabled c p lvl
      then emit_for c (rp_rendered p)
        (stamp @ ''ns '' @ pad_right 8 (level_as_str lvl) @ '' ['' @ rp_rendered p @ '']: '' @ msg)
      else [])"

section \<open>The tables\<close>

definition log_inv :: "log_config \<Rightarrow> bool" where
  "log_inv c \<longleftrightarrow> distinct (map fst (lc_levels c)) \<and> distinct (map fst (lc_console c))"

inductive log_reachable :: "log_config \<Rightarrow> bool" where
  lr_init: "log_reachable log_default"
| lr_level: "log_reachable c \<Longrightarrow> log_reachable (set_level c l)"
| lr_level_for: "log_reachable c \<Longrightarrow> log_reachable (set_level_for c p l)"
| lr_console: "log_reachable c \<Longrightarrow> log_reachable (set_console_for c p on)"
| lr_file: "log_reachable c \<Longrightarrow> log_reachable (fst (log_to_file c opened))"
| lr_unfile: "log_reachable c \<Longrightarrow> log_reachable (remove_log_file c)"
| lr_add: "log_reachable c \<Longrightarrow> log_reachable (fst (add_file_for c p opened))"
| lr_reset: "log_reachable c \<Longrightarrow> log_reachable (reset_config c)"

lemmas log_ops = set_level_def set_level_for_def set_console_for_def log_to_file_def
  remove_log_file_def add_file_for_def reset_config_def log_default_def

lemma distinct_set_target [keeps]:
  "distinct (map fst v) \<Longrightarrow> distinct (map fst (set_target v p x))"
  by (auto simp: set_target_def distinct_map inj_on_def)

lemma log_reachable_inv: "log_reachable c \<Longrightarrow> log_inv c"
  by (induction rule: log_reachable.induct)
    (auto simp: log_inv_def log_ops intro: keeps split: option.splits)

text \<open>A covering prefix is a textual prefix, so covering prefixes of one path are told apart by
  their length: the longest one is unique.\<close>

lemma str_is_under_prefix: "str_is_under path p \<Longrightarrow> Sublist.prefix p path"
proof (cases "p = []")
  case False
  moreover assume "str_is_under path p"
  ultimately show ?thesis using str_is_under_text [of p path] by (auto simp: Sublist.prefix_def)
qed simp

lemma covering_length_inj:
  assumes "str_is_under path p" "str_is_under path q" "length p = length q"
  shows "p = q"
  using str_is_under_prefix [OF assms(1)] str_is_under_prefix [OF assms(2)] assms(3)
  by (metis prefix_length_prefix prefix_order.antisym order_refl)

lemma target_value_longest:
  assumes "distinct (map fst v)" "(q, x) \<in> set v" "str_is_under path q"
    and "\<And>p y. (p, y) \<in> set v \<Longrightarrow> str_is_under path p \<Longrightarrow> length p \<le> length q"
  shows "target_value v path = Some x"
proof -
  let ?f = "filter (\<lambda>(p, _). str_is_under path p) v"
  have in_f: "(q, x) \<in> set ?f" using assms(2,3) by simp
  then obtain m y where m: "max_by_key (\<lambda>(p, _). length p) ?f = Some (m, y)"
    using max_by_key_None [of _ ?f] by (metis empty_iff empty_set not_Some_eq surj_pair)
  note max_by_key_SomeD [OF m]
  with in_f assms(4) have "(m, y) \<in> set v" "str_is_under path m" "length m = length q"
    by (fastforce simp: le_antisym)+
  with covering_length_inj [OF _ assms(3)] assms(1,2) have "y = x"
    by (metis eq_key_imp_eq_value)
  with m show ?thesis by (simp add: target_value_def)
qed

lemma target_value_None:
  "target_value v path = None \<longleftrightarrow> (\<forall>(p, y) \<in> set v. \<not> str_is_under path p)"
  by (auto simp: target_value_def filter_empty_conv)

lemma target_value_SomeD:
  assumes "target_value v path = Some x"
  shows "\<exists>q. (q, x) \<in> set v \<and> str_is_under path q \<and>
    (\<forall>p y. (p, y) \<in> set v \<longrightarrow> str_is_under path p \<longrightarrow> length p \<le> length q)"
proof -
  let ?f = "filter (\<lambda>(p, _). str_is_under path p) v"
  from assms obtain q where q: "max_by_key (\<lambda>(p, _). length p) ?f = Some (q, x)"
    by (auto simp: target_value_def)
  from max_by_key_SomeD [OF q] show ?thesis by (intro exI [of _ q]) fastforce
qed

lemma set_target_elem:
  "(p, y) \<in> set (set_target v q x) \<longleftrightarrow> (p = q \<and> y = x) \<or> (p \<noteq> q \<and> (p, y) \<in> set v)"
  by (auto simp: set_target_def)

lemma target_value_set_target:
  assumes "distinct (map fst v)"
  shows "target_value (set_target v q x) path =
    (if str_is_under path q \<and> (\<forall>(p, y) \<in> set v. str_is_under path p \<longrightarrow> length p \<le> length q)
     then Some x else target_value v path)"
proof (cases "str_is_under path q \<and> (\<forall>(p, y) \<in> set v. str_is_under path p \<longrightarrow> length p \<le> length q)")
  case True
  have "target_value (set_target v q x) path = Some x"
    by (rule target_value_longest [of _ q])
      (use True assms in \<open>auto simp: set_target_elem intro: keeps\<close>)
  then show ?thesis by (simp only: if_P [OF True])
next
  case False
  have "target_value (set_target v q x) path = target_value v path"
  proof (cases "target_value v path")
    case None
    then have no: "\<And>p y. (p, y) \<in> set v \<Longrightarrow> \<not> str_is_under path p"
      by (auto simp: target_value_None)
    with False have "\<not> str_is_under path q" by auto
    with no have "target_value (set_target v q x) path = None"
      by (auto simp: target_value_None set_target_elem)
    with None show ?thesis by simp
  next
    case (Some z)
    obtain r where r: "(r, z) \<in> set v" "str_is_under path r"
      "\<And>p y. (p, y) \<in> set v \<Longrightarrow> str_is_under path p \<Longrightarrow> length p \<le> length r"
      using target_value_SomeD [OF Some] by metis
    have ne: "r \<noteq> q" using False r by auto
    have "str_is_under path q \<Longrightarrow> length q \<le> length r"
      using False r(3) by fastforce
    then have "target_value (set_target v q x) path = Some z"
      using r ne assms
      by (intro target_value_longest [of _ r]) (auto simp: set_target_elem intro: keeps)
    with Some show ?thesis by simp
  qed
  then show ?thesis by (simp only: if_not_P [OF False])
qed

section \<open>Properties\<close>

text \<open>Setting the level of a subtree, in any configuration the logging calls can produce,
  decides exactly the loggers it covers that no longer prefix already covers, and every other
  logger keeps its verdict: the longest prefix wins.\<close>

theorem set_level_for_effect:
  assumes "log_reachable c"
  shows "logger_enabled (set_level_for c q l) p lvl =
    (if str_is_under (rp_rendered p) q \<and>
        (\<forall>(r, k) \<in> set (lc_levels c). str_is_under (rp_rendered p) r \<longrightarrow> length r \<le> length q)
     then l \<le> lvl else logger_enabled c p lvl)"
  using target_value_set_target [of "lc_levels c" q l "rp_rendered p"] log_reachable_inv [OF assms]
  by (cases "target_value (lc_levels c) (rp_rendered p)")
    (auto simp: logger_enabled_def set_level_for_def log_inv_def)

theorem set_level_for_effect_witness:
  "logger_enabled (set_level_for (set_level_for log_default ''top'' Error) ''top.env'' Debug)
     (path_root ''top.env.agent'') Info"
proof -
  have r: "log_reachable (set_level_for log_default ''top'' Error)" by (intro log_reachable.intros)
  have l: "lc_levels (set_level_for log_default ''top'' Error) = [(''top'', Error)]"
    by (simp add: set_level_for_def set_target_def log_default_def)
  have u: "rp_rendered (path_root x) = x" for x by (simp add: path_root_def)
  show ?thesis
    unfolding set_level_for_effect [OF r] l u by (simp add: str_is_under_def less_eq_level_def)
qed

text \<open>A subtree set to Off prints nothing at any real level and writes to no file, unless a
  longer prefix below it was configured: disabling one component cannot leak a line.\<close>

theorem off_silences_subtree:
  assumes "log_reachable c" "str_is_under (rp_rendered p) q" "lvl \<noteq> Off"
    and "\<And>r k. (r, k) \<in> set (lc_levels c) \<Longrightarrow> str_is_under (rp_rendered p) r \<Longrightarrow> length r \<le> length q"
  shows "logger_log (set_level_for c q Off) p stamp lvl msg = []"
proof -
  have "target_value (lc_levels (set_level_for c q Off)) (rp_rendered p) = Some Off"
    using target_value_set_target [of "lc_levels c" q Off "rp_rendered p"]
      log_reachable_inv [OF assms(1)] assms(2,4)
    by (auto simp: set_level_for_def log_inv_def)
  moreover have "\<not> Off \<le> lvl" using assms(3) by (cases lvl) (auto simp: less_eq_level_def)
  ultimately show ?thesis by (simp add: logger_log_def logger_enabled_def)
qed

theorem off_silences_subtree_witness:
  "logger_log (set_level_for log_default ''top'' Off) (path_root ''top.a'') ''0'' Critical ''x'' = []"
  by (rule off_silences_subtree [OF lr_init]) (auto simp: path_root_def str_is_under_def log_default_def)

end
