(* ===== verification/Seq_Slot.thy ===== *)
theory Seq_Slot
  imports Sequence_Model Factory_Model Log_Model Tlm_Model
begin

text \<open>
  How a sequence gets to run (the second half of \<open>rustdv-methodology/src/sequence.rs\<close>) and what a type is
  called (\<open>comp_name\<close> and \<open>seq_name\<close>, both cut out of \<open>std::any::type_name\<close>). A sequence is user code:
  a name, a fresh body and what one poll of that body does with its context and the rest of the
  world. The slot \<open>RustdvSeq\<close>, the seed of the thread, and both ways of starting are the code's own.
  A type name is an argument.
\<close>

section \<open>Names of types\<close>

text \<open>\<open>rsplit("::").next()\<close>: what follows the last pair of colons, or everything.\<close>

abbreviation colon :: char where
  "colon \<equiv> CHR '':''"

fun has_sep :: "string \<Rightarrow> bool" where
  "has_sep (a # b # s) = ((a = colon \<and> b = colon) \<or> has_sep (b # s))"
| "has_sep s = False"

fun last_segment :: "string \<Rightarrow> string" where
  "last_segment (a # b # s) =
     (if has_sep (b # s) then last_segment (b # s)
      else if a = colon \<and> b = colon then s
      else a # b # s)"
| "last_segment s = s"

definition comp_name :: "string \<Rightarrow> string" where
  "comp_name type_name = last_segment type_name"

definition seq_name :: "string \<Rightarrow> string" where
  "seq_name type_name = last_segment type_name"

definition new_comp :: "'n maker \<Rightarrow> 'n rustdv_comp" where
  "new_comp dflt = comp_fixed (dflt ())"

definition create_comp :: "'n maker \<Rightarrow> string \<Rightarrow> 'n rustdv_comp" where
  "create_comp dflt type_name = comp_overridable (dflt ()) (comp_name type_name)"

text \<open>The typed front ends of the factory name both types the same way.\<close>

definition type_override :: "('v, 'n) fdb \<Rightarrow> string \<Rightarrow> string \<Rightarrow> 'n maker \<Rightarrow> ('v, 'n) fdb" where
  "type_override db from_type to_type to_default =
     set_type_override db (comp_name from_type) (comp_name to_type) to_default"

definition inst_override :: "('v, 'n) fdb \<Rightarrow> string \<Rightarrow> string \<Rightarrow> string \<Rightarrow> string \<Rightarrow> 'n maker \<Rightarrow> ('v, 'n) fdb" where
  "inst_override db ctx path from_type to_type to_default =
     set_inst_override db ctx path (comp_name from_type) (comp_name to_type) to_default"

section \<open>The thread's seed\<close>

definition seed_default :: u64 where
  "seed_default = 1"

definition set_sequence_seed :: "u64 \<Rightarrow> u64 \<Rightarrow> u64" where
  "set_sequence_seed cell seed = seed"

definition current_seed :: "u64 \<Rightarrow> u64" where
  "current_seed cell = cell"

section \<open>What a sequence may ask of its context\<close>

definition seq_rng :: "seq_ctx \<Rightarrow> rng" where
  "seq_rng ctx = rng_new (cx_seq_seed ctx)"

definition seq_log :: "log_config \<Rightarrow> seq_ctx \<Rightarrow> string \<Rightarrow> level \<Rightarrow> string \<Rightarrow> (sink \<times> string) list" where
  "seq_log cfg ctx stamp lvl msg = logger_log cfg (cx_seq_logger ctx) stamp lvl msg"

definition seq_error_display :: "seq_error \<Rightarrow> string" where
  "seq_error_display e = ''sequence error: '' @ e"

section \<open>The sequencer's export\<close>

text \<open>An export hands the sequencer's interface to a driver's port: by the owner and the port's name, or
  directly to the port's cell.\<close>

definition seq_item_export_connect :: "'i port_heap \<Rightarrow> 'i \<Rightarrow> port_owner \<Rightarrow> nat \<Rightarrow> string \<Rightarrow> 'i port_heap may_panic" where
  "seq_item_export_connect h iface owner ity name = bind_or_panic h owner ity name iface"

definition bind_iface :: "'i port_heap \<Rightarrow> nat \<Rightarrow> 'i \<Rightarrow> 'i port_heap" where
  "bind_iface h c iface = h(c := (h c)\<lparr>pc_slot := Some iface\<rparr>)"

definition connect_port :: "'i port_heap \<Rightarrow> 'i \<Rightarrow> nat \<Rightarrow> 'i port_heap" where
  "connect_port h iface c = bind_iface h c iface"

section \<open>Sequences and slots\<close>

text \<open>A sequence has fields of its own (\<open>'s\<close>) that outlive a run; a body in progress is a \<open>'p\<close>. A poll of
  the body may change both, the context and the world \<open>'w\<close>: its own sequencer, others, the database,
  whatever it reaches.\<close>

type_synonym ('s, 'p, 'w) body_poll =
  "waker \<Rightarrow> 'p \<Rightarrow> 's \<Rightarrow> seq_ctx \<Rightarrow> 'w \<Rightarrow> 'p \<times> 's \<times> seq_ctx \<times> 'w \<times> (seq_error + unit) poll"

record ('s, 'p, 'w) dyn_sequence =
  ds_self :: 's
  ds_name :: "'s \<Rightarrow> string"
  ds_body :: 'p
  ds_poll :: "('s, 'p, 'w) body_poll"

record ('s, 'p, 'w) rustdv_seq =
  rs_inner :: "('s, 'p, 'w) dyn_sequence option"

definition dyn_name :: "('s, 'p, 'w) dyn_sequence \<Rightarrow> string" where
  "dyn_name sq = ds_name sq (ds_self sq)"

definition slot_default :: "('s, 'p, 'w) rustdv_seq" where
  "slot_default = \<lparr>rs_inner = None\<rparr>"

definition slot_new :: "('s, 'p, 'w) dyn_sequence \<Rightarrow> ('s, 'p, 'w) rustdv_seq" where
  "slot_new sq = \<lparr>rs_inner = Some sq\<rparr>"

definition slot_name :: "('s, 'p, 'w) rustdv_seq \<Rightarrow> string" where
  "slot_name slot = (case rs_inner slot of Some sq \<Rightarrow> dyn_name sq | None \<Rightarrow> ''<empty>'')"

definition slot_get :: "('s, 'p, 'w) rustdv_seq \<Rightarrow> seq_error + ('s, 'p, 'w) dyn_sequence" where
  "slot_get slot = (case rs_inner slot of Some sq \<Rightarrow> Inr sq | None \<Rightarrow> Inl ''an empty sequence slot'')"

text \<open>What \<open>create_seq\<close> returns is the chosen sequence in a slot.\<close>

definition create_seq_slot :: "('s, 'p, 'w) dyn_sequence seq_overrides \<Rightarrow> nat \<Rightarrow> (unit \<Rightarrow> ('s, 'p, 'w) dyn_sequence)
    \<Rightarrow> ('s, 'p, 'w) rustdv_seq" where
  "create_seq_slot ov ty dflt = slot_new (create_seq ov ty dflt)"

section \<open>Starting\<close>

text \<open>The future of \<open>start\<close>: nothing happens before its first poll, which makes the context (and reads
  the seed) and polls the body; later polls go to the body, with the context it left. The flag says
  whether there is a sequencer: \<open>start\<close> and \<open>start_virtual\<close> differ in nothing else.\<close>

datatype 'p start_state = St_start | St_body 'p seq_ctx | St_finished

type_synonym ('s, 'p, 'w) start_result =
  "(('s, 'p, 'w) dyn_sequence \<times> 'p start_state \<times> 'w \<times> (seq_error + unit) poll) may_panic"

definition body_step :: "('s, 'p, 'w) dyn_sequence \<Rightarrow> waker \<Rightarrow> 'p \<Rightarrow> seq_ctx \<Rightarrow> 'w \<Rightarrow> ('s, 'p, 'w) start_result" where
  "body_step sq w p ctx x =
     (case ds_poll sq w p (ds_self sq) ctx x of
        (p', s', ctx', x', Pending) \<Rightarrow> Inr (sq\<lparr>ds_self := s'\<rparr>, St_body p' ctx', x', Pending)
      | (p', s', ctx', x', Ready r) \<Rightarrow> Inr (sq\<lparr>ds_self := s'\<rparr>, St_finished, x', Ready r))"

definition seq_start_poll :: "bool \<Rightarrow> u64 \<Rightarrow> waker \<Rightarrow> ('s, 'p, 'w) dyn_sequence \<Rightarrow> 'p start_state \<Rightarrow> 'w
    \<Rightarrow> ('s, 'p, 'w) start_result" where
  "seq_start_poll has_seqr seed w sq st x =
     (case st of
        St_start \<Rightarrow> body_step sq w (ds_body sq) (seq_ctx_new has_seqr (dyn_name sq) (current_seed seed)) x
      | St_body p ctx \<Rightarrow> body_step sq w p ctx x
      | St_finished \<Rightarrow> panics ''`async fn` resumed after completion'')"

text \<open>While the body runs the future borrows the sequence out of the slot, so the slot stays full.\<close>

definition slot_start_poll :: "bool \<Rightarrow> u64 \<Rightarrow> waker \<Rightarrow> ('s, 'p, 'w) rustdv_seq \<Rightarrow> 'p start_state \<Rightarrow> 'w
    \<Rightarrow> (('s, 'p, 'w) rustdv_seq \<times> 'p start_state \<times> 'w \<times> (seq_error + unit) poll) may_panic" where
  "slot_start_poll has_seqr seed w slot st x =
     (if st = St_finished then panics ''`async fn` resumed after completion''
      else (case slot_get slot of
          Inl e \<Rightarrow> Inr (slot, St_finished, x, Ready (Inl e))
        | Inr sq \<Rightarrow> (case seq_start_poll has_seqr seed w sq st x of
              Inl p \<Rightarrow> Inl p
            | Inr (sq', st', x', r) \<Rightarrow> Inr (slot\<lparr>rs_inner := Some sq'\<rparr>, st', x', r))))"

section \<open>Runs\<close>

text \<open>A run is a list of moments at which the future is polled: the waker, the value the seed has then,
  and what everybody else did to the world since the last poll. A run ends with a result, or is
  still pending.\<close>

type_synonym 'w moment = "waker \<times> u64 \<times> ('w \<Rightarrow> 'w)"

fun slot_run :: "bool \<Rightarrow> ('s, 'p, 'w) rustdv_seq \<Rightarrow> 'p start_state \<Rightarrow> 'w \<Rightarrow> 'w moment list
    \<Rightarrow> (('s, 'p, 'w) rustdv_seq \<times> 'w \<times> (seq_error + unit) option) may_panic" where
  "slot_run has_seqr slot st x [] = Inr (slot, x, None)"
| "slot_run has_seqr slot st x ((w, seed, others) # ms) =
     (case slot_start_poll has_seqr seed w slot st (others x) of
        Inl p \<Rightarrow> Inl p
      | Inr (slot', st', x', Ready r) \<Rightarrow> Inr (slot', x', Some r)
      | Inr (slot', st', x', Pending) \<Rightarrow> slot_run has_seqr slot' st' x' ms)"

text \<open>The specification: the body alone, polled at the same moments with one context.\<close>

fun body_run :: "('s, 'p, 'w) body_poll \<Rightarrow> 'p \<Rightarrow> 's \<Rightarrow> seq_ctx \<Rightarrow> 'w \<Rightarrow> (waker \<times> ('w \<Rightarrow> 'w)) list
    \<Rightarrow> 's \<times> 'w \<times> (seq_error + unit) option" where
  "body_run pf p s ctx x [] = (s, x, None)"
| "body_run pf p s ctx x ((w, others) # ms) =
     (case pf w p s ctx (others x) of
        (p', s', ctx', x', Ready r) \<Rightarrow> (s', x', Some r)
      | (p', s', ctx', x', Pending) \<Rightarrow> body_run pf p' s' ctx' x' ms)"

definition without_seed :: "'w moment \<Rightarrow> waker \<times> ('w \<Rightarrow> 'w)" where
  "without_seed m = (fst m, snd (snd m))"

section \<open>Lemmas\<close>

lemma has_sep_append: "has_sep (p @ colon # colon # s)"
  by (induction p rule: has_sep.induct) auto

lemma last_segment_no_sep: "\<not> has_sep s \<Longrightarrow> last_segment s = s"
  by (induction s rule: last_segment.induct) auto

lemma last_segment_append:
  assumes "\<not> has_sep (colon # n)"
  shows "last_segment (p @ colon # colon # n) = n"
proof (induction p)
  case Nil
  from assms show ?case by simp
next
  case (Cons a p)
  then show ?case using has_sep_append [of p n] by (cases "p @ colon # colon # n") auto
qed

lemma last_segment_free: "\<not> has_sep (last_segment s)"
  by (induction s rule: last_segment.induct) (auto elim: has_sep.elims)

lemma has_sep_closed: "\<not> has_sep (s @ [c]) \<longleftrightarrow> \<not> has_sep s \<and> \<not> (s \<noteq> [] \<and> last s = colon \<and> c = colon)"
  by (induction s rule: has_sep.induct) auto

lemma last_segment_suffix: "has_sep s \<Longrightarrow> \<exists>p. s = p @ colon # colon # last_segment s"
proof (induction s rule: last_segment.induct)
  case (1 a b s)
  show ?case
  proof (cases "has_sep (b # s)")
    case True
    with 1 obtain p where "b # s = p @ colon # colon # last_segment (b # s)" by blast
    with True have "a # b # s = (a # p) @ colon # colon # last_segment (a # b # s)" by simp
    then show ?thesis by blast
  next
    case False
    with 1(2) show ?thesis by auto
  qed
qed auto

text \<open>For a plain type the key is its short name, as the derive macro registers it.\<close>

lemma comp_name_plain: "\<not> has_sep (colon # n) \<Longrightarrow> comp_name (m @ colon # colon # n) = n"
  by (simp add: comp_name_def last_segment_append)

text \<open>For a generic type the key is the short name of its last argument and the closing bracket.\<close>

lemma comp_name_generic:
  assumes "\<not> has_sep (colon # arg)"
  shows "comp_name (g @ ''<'' @ m @ colon # colon # arg @ ''>'') = arg @ ''>''"
  using last_segment_append [of "arg @ ''>''" "g @ ''<'' @ m"] assms has_sep_closed [of "colon # arg" "CHR ''>''"]
  by (simp add: comp_name_def)

lemma slot_run_body:
  "slot_run has_seqr (slot_new sq) (St_body p ctx) x ms =
     (case body_run (ds_poll sq) p (ds_self sq) ctx x (map without_seed ms) of
        (s', x', r) \<Rightarrow> Inr (slot_new (sq\<lparr>ds_self := s'\<rparr>), x', r))"
proof (induction ms arbitrary: sq p ctx x)
  case (Cons m ms)
  obtain w seed others where m: "m = (w, seed, others)" by (cases m)
  obtain p' s' ctx' x' r where b: "ds_poll sq w p (ds_self sq) ctx (others x) = (p', s', ctx', x', r)"
    by (cases "ds_poll sq w p (ds_self sq) ctx (others x)")
  show ?case
  proof (cases r)
    case Pending
    with Cons [of "sq\<lparr>ds_self := s'\<rparr>" p' ctx' x'] b m show ?thesis
      by (simp add: slot_start_poll_def slot_get_def slot_new_def seq_start_poll_def body_step_def without_seed_def)
  next
    case (Ready y)
    with b m show ?thesis
      by (simp add: slot_start_poll_def slot_get_def slot_new_def seq_start_poll_def body_step_def without_seed_def)
  qed
qed (simp add: slot_new_def)

text \<open>The first poll makes the context; from then on the slot is the body.\<close>

lemma slot_start_first:
  "slot_start_poll has_seqr seed w (slot_new sq) St_start x =
   slot_start_poll has_seqr seed' w (slot_new sq)
     (St_body (ds_body sq) (seq_ctx_new has_seqr (dyn_name sq) seed)) x"
  by (simp add: slot_start_poll_def slot_get_def slot_new_def seq_start_poll_def current_seed_def)

lemma slot_run_start:
  "slot_run has_seqr (slot_new sq) St_start x ((w, seed, others) # ms) =
   slot_run has_seqr (slot_new sq) (St_body (ds_body sq) (seq_ctx_new has_seqr (dyn_name sq) seed)) x
     ((w, seed, others) # ms)"
  by (simp add: slot_start_first [of has_seqr seed w sq "others x" seed])

lemma create_seq_override:
  "create_seq (set_seq_override ov from_ty to_ty mk) ty dflt = (if ty = from_ty then mk () else create_seq ov ty dflt)"
  by (simp add: create_seq_def set_seq_override_def)

text \<open>Both ways of connecting agree, when the named port is of the driver's kind and there.\<close>

lemma connect_by_name_or_cell:
  assumes "po_slots owner name = Some c" "pc_iface_type (h c) = ity"
  shows "seq_item_export_connect h iface owner ity name = Inr (connect_port h iface c) \<and>
    port_iface (connect_port h iface c) c = Inr iface"
  using assms
  by (simp add: seq_item_export_connect_def bind_or_panic_def port_bind_def connect_port_def bind_iface_def port_iface_def)

text \<open>An empty slot refuses to start and touches nothing.\<close>

lemma empty_slot_start:
  "slot_run has_seqr slot_default St_start x ((w, seed, others) # ms) =
     Inr (slot_default, others x, Some (Inl ''an empty sequence slot''))"
  by (simp add: slot_start_poll_def slot_get_def slot_default_def)

text \<open>A virtual sequence that asks for an item gets an error with its name in it, the sequencer's state
  untouched.\<close>

lemma virtual_start_item:
  "start_item_poll w Si_start (seq_ctx_new False name seed) s =
     Inr (seq_ctx_new False name seed, (s, []), Si_finished, Ready (Inl (name @
       '': start_item in a virtual sequence - it was started without a sequencer'')))"
  by (simp add: start_item_poll_def seq_ctx_new_def)

section \<open>Properties\<close>

text \<open>C29: Starting what the sequence factory built is running the body of the sequence it chose: over
  any moments the slot is polled at and whatever other tasks do in between, the slot goes through
  what the body alone goes through, with one context that carries the chosen sequence's name and the
  seed at the first poll (later seeds do not matter), and the sequence's own fields stay in the slot.
  The chosen sequence is the override for exactly the overridden type.\<close>

theorem slot_runs_chosen_body:
  "slot_run has_seqr (create_seq_slot (set_seq_override ov from_ty to_ty mk) ty dflt) St_start x
       ((w, seed, others) # ms) =
     (let sq = (if ty = from_ty then mk () else create_seq ov ty dflt) in
      case body_run (ds_poll sq) (ds_body sq) (ds_self sq) (seq_ctx_new has_seqr (dyn_name sq) seed) x
             (map without_seed ((w, seed, others) # ms)) of
        (s', x', r) \<Rightarrow> Inr (slot_new (sq\<lparr>ds_self := s'\<rparr>), x', r))"
  by (simp only: create_seq_slot_def create_seq_override slot_run_start slot_run_body Let_def)

text \<open>Two generic components whose last type argument has the same short name share one override
  key: a type override installed for the one replaces the other in the build walk, whatever the two
  components are.\<close>

theorem generic_override_collides:
  assumes "config_reachable (db :: ('v, 'n) fdb)" "\<not> has_sep (colon # arg)" "ctx \<noteq> []"
    and "\<forall>pat. winner (db_store db) pat (override_key (arg @ ''>'')) = None"
  shows "rc_inner (comp_resolve
      (type_override db (g @ ''<'' @ m @ colon # colon # arg @ ''>'') to_type mk)
      (create_comp dflt (g' @ ''<'' @ m' @ colon # colon # arg @ ''>'')) ctx name) = Some (mk ())"
  using type_override_scope [OF assms(1), of "[]" "arg @ ''>''" "comp_name to_type" mk "dflt ()" ctx name] assms(3,4)
  by (simp add: type_override_def create_comp_def comp_name_generic [OF assms(2)] del: append_Cons append_Nil)

theorem generic_override_collides_witness:
  "rc_inner (comp_resolve
      (type_override factory_demo ''tb::BaseTester<tb::RandomOps>'' ''tb::Stub'' (\<lambda>_. ''stub''))
      (create_comp (\<lambda>_. ''env'') ''tb::AluEnv<tb::RandomOps>'') ''top'' ''env'') = Some ''stub''"
proof -
  have "config_reachable factory_demo" by (simp add: factory_demo_def cr_init)
  moreover have "\<forall>pat. winner (db_store factory_demo) pat (override_key (''RandomOps'' @ ''>'')) = None"
    by (simp add: factory_demo_def config_init_def winner_def precs_def)
  ultimately show ?thesis
    using generic_override_collides [of factory_demo "''RandomOps''" "''top''" "''tb::BaseTester''" "''tb''" "''tb::Stub''"
        "\<lambda>_. ''stub''" "\<lambda>_. ''env''" "''tb::AluEnv''" "''tb''" "''env''"] by simp
qed

end
