(* ===== verification/Time_Model.thy ===== *)
theory Time_Model
  imports Rng_Model
begin

text \<open>
  Simulation time (\<open>rustdv-sim/src/time.rs\<close>) and the clock generator (\<open>clock.rs\<close>). Durations
  are 64-bit counts of simulator precision steps. The precision, an exponent of ten reported by
  the simulator, is an argument. Rust arithmetic either checks for overflow (the dev profile) or
  wraps (the release profile): \<open>chk\<close> says which.
\<close>

section \<open>Machine arithmetic\<close>

definition mul_u64 :: "bool \<Rightarrow> u64 \<Rightarrow> u64 \<Rightarrow> u64 may_panic" where
  "mul_u64 chk a b =
     (if chk \<and> 2 ^ 64 \<le> unat a * unat b then panics ''attempt to multiply with overflow'' else Inr (a * b))"

definition pow10_u64 :: "bool \<Rightarrow> nat \<Rightarrow> u64 may_panic" where
  "pow10_u64 chk e =
     (if chk \<and> 2 ^ 64 \<le> (10 :: nat) ^ e then panics ''attempt to multiply with overflow'' else Inr (10 ^ e))"

definition is_multiple_of :: "u64 \<Rightarrow> u64 \<Rightarrow> bool" where
  "is_multiple_of n d \<longleftrightarrow> (if d = 0 then n = 0 else n mod d = 0)"

definition div_u64 :: "u64 \<Rightarrow> u64 \<Rightarrow> u64 may_panic" where
  "div_u64 a b = (if b = 0 then panics ''attempt to divide by zero'' else Inr (a div b))"

section \<open>Durations\<close>

record sim_duration =
  sd_steps :: u64

definition dur_steps :: "u64 \<Rightarrow> sim_duration" where
  "dur_steps n = \<lparr>sd_steps = n\<rparr>"

definition from_pow10 :: "bool \<Rightarrow> int \<Rightarrow> u64 \<Rightarrow> int \<Rightarrow> sim_duration may_panic" where
  "from_pow10 chk prec n exp =
     (if prec \<le> exp then
        (case pow10_u64 chk (nat (exp - prec)) of
           Inl e \<Rightarrow> Inl e
         | Inr factor \<Rightarrow>
             (case mul_u64 chk n factor of Inl e \<Rightarrow> Inl e | Inr s \<Rightarrow> Inr \<lparr>sd_steps = s\<rparr>))
      else
        (case pow10_u64 chk (nat (prec - exp)) of
           Inl e \<Rightarrow> Inl e
         | Inr d \<Rightarrow>
             if \<not> is_multiple_of n d
             then panics (''duration '' @ dec_string (unat n) @ ''e'' @ int_string exp @
               '' is below simulator precision 1e'' @ int_string prec)
             else (case div_u64 n d of Inl e \<Rightarrow> Inl e | Inr s \<Rightarrow> Inr \<lparr>sd_steps = s\<rparr>)))"

definition dur_fs :: "bool \<Rightarrow> int \<Rightarrow> u64 \<Rightarrow> sim_duration may_panic" where
  "dur_fs chk prec n = from_pow10 chk prec n (- 15)"

definition dur_ps :: "bool \<Rightarrow> int \<Rightarrow> u64 \<Rightarrow> sim_duration may_panic" where
  "dur_ps chk prec n = from_pow10 chk prec n (- 12)"

definition dur_ns :: "bool \<Rightarrow> int \<Rightarrow> u64 \<Rightarrow> sim_duration may_panic" where
  "dur_ns chk prec n = from_pow10 chk prec n (- 9)"

definition dur_us :: "bool \<Rightarrow> int \<Rightarrow> u64 \<Rightarrow> sim_duration may_panic" where
  "dur_us chk prec n = from_pow10 chk prec n (- 6)"

definition dur_ms :: "bool \<Rightarrow> int \<Rightarrow> u64 \<Rightarrow> sim_duration may_panic" where
  "dur_ms chk prec n = from_pow10 chk prec n (- 3)"

definition dur_sec :: "bool \<Rightarrow> int \<Rightarrow> u64 \<Rightarrow> sim_duration may_panic" where
  "dur_sec chk prec n = from_pow10 chk prec n 0"

definition from_unit :: "bool \<Rightarrow> int \<Rightarrow> u64 \<Rightarrow> string \<Rightarrow> sim_duration may_panic" where
  "from_unit chk prec n unit =
     (if unit = ''fs'' then dur_fs chk prec n
      else if unit = ''ps'' then dur_ps chk prec n
      else if unit = ''ns'' then dur_ns chk prec n
      else if unit = ''us'' then dur_us chk prec n
      else if unit = ''ms'' then dur_ms chk prec n
      else if unit = ''s'' \<or> unit = ''sec'' then dur_sec chk prec n
      else if unit = ''step'' \<or> unit = ''steps'' then Inr (dur_steps n)
      else panics (''unknown time unit '' @ [CHR 0x27] @ unit @ [CHR 0x27]))"

section \<open>The clock\<close>

definition timer_new :: "sim_duration \<Rightarrow> u64 may_panic" where
  "timer_new d = (if sd_steps d = 0 then panics ''Timer duration must be positive (cocotb rule)'' else Inr (sd_steps d))"

definition clock_new :: "sim_duration \<Rightarrow> sim_duration may_panic" where
  "clock_new d = (if sd_steps d < 2 then panics ''clock period must be at least 2 precision steps'' else Inr d)"

definition clock_high :: "sim_duration \<Rightarrow> u64" where
  "clock_high d = sd_steps d div 2"

definition clock_low :: "sim_duration \<Rightarrow> u64" where
  "clock_low d = sd_steps d - clock_high d"

text \<open>The writes of the first \<open>k\<close> iterations of the clock task started at time \<open>t\<close>, when a timer
  completes as many steps after it was started as it was given.\<close>

fun clock_writes :: "sim_duration \<Rightarrow> nat \<Rightarrow> nat \<Rightarrow> ((nat \<times> u64) list) may_panic" where
  "clock_writes d 0 t = Inr []"
| "clock_writes d (Suc k) t =
     (case timer_new (dur_steps (clock_high d)) of
        Inl e \<Rightarrow> Inl e
      | Inr high \<Rightarrow>
          (case timer_new (dur_steps (clock_low d)) of
             Inl e \<Rightarrow> Inl e
           | Inr low \<Rightarrow>
               (case clock_writes d k (t + unat high + unat low) of
                  Inl e \<Rightarrow> Inl e
                | Inr ws \<Rightarrow> Inr ((t, 1) # (t + unat high, 0) # ws))))"

text \<open>What the signal carries at a time: the last write not after it.\<close>

definition level_at :: "(nat \<times> u64) list \<Rightarrow> nat \<Rightarrow> u64 option" where
  "level_at ws t = (case filter (\<lambda>(u, _). u \<le> t) ws of [] \<Rightarrow> None | w # rest \<Rightarrow> Some (snd (last (w # rest))))"

section \<open>Exact durations\<close>

text \<open>Two counts of powers of ten denote the same span.\<close>

definition same_span :: "nat \<Rightarrow> int \<Rightarrow> nat \<Rightarrow> int \<Rightarrow> bool" where
  "same_span a p b q \<longleftrightarrow> a * 10 ^ nat (p - min p q) = b * 10 ^ nat (q - min p q)"

lemma unat_mul: "unat a * unat b < 2 ^ 64 \<Longrightarrow> unat ((a :: u64) * b) = unat a * unat b"
  by (simp add: unat_word_ariths(2))

lemma unat_pow10: "(10 :: nat) ^ e < 2 ^ 64 \<Longrightarrow> unat ((10 :: u64) ^ e) = 10 ^ e"
proof (induction e)
  case (Suc e)
  then have "(10 :: nat) ^ e < 2 ^ 64" by (simp add: power_Suc)
  with Suc have "unat ((10 :: u64) ^ e) = 10 ^ e" by simp
  with Suc.prems show ?case using unat_mul [of 10 "10 ^ e"] by simp
qed simp

lemma mul_up:
  assumes "n \<noteq> 0"
  shows "case (case pow10_u64 True e of Inl err \<Rightarrow> Inl err | Inr f \<Rightarrow> mul_u64 True n f) of
    Inr s \<Rightarrow> unat s = unat n * 10 ^ e | Inl _ \<Rightarrow> 2 ^ 64 \<le> unat n * 10 ^ e"
proof (cases "(10 :: nat) ^ e < 2 ^ 64")
  case True
  with unat_pow10 [OF True] show ?thesis by (auto simp: pow10_u64_def mul_u64_def unat_mul)
next
  case False
  have "(2 :: nat) ^ 64 \<le> 10 ^ e" using False by simp
  also have "\<dots> \<le> unat n * 10 ^ e" using assms by (simp add: unat_gt_0 Suc_leI)
  finally show ?thesis using False by (simp add: pow10_u64_def)
qed

lemma div_down:
  assumes "n \<noteq> 0"
  shows "case (case pow10_u64 True e of Inl err \<Rightarrow> Inl err
      | Inr d \<Rightarrow> if \<not> is_multiple_of n d then Inl err2 else div_u64 n d) of
    Inr s \<Rightarrow> unat s * 10 ^ e = unat n | Inl _ \<Rightarrow> \<not> 10 ^ e dvd unat n"
proof (cases "(10 :: nat) ^ e < 2 ^ 64")
  case True
  note u = unat_pow10 [OF True]
  have nz: "(10 :: u64) ^ e \<noteq> 0" using u by (metis power_not_zero unat_0 zero_neq_numeral)
  have "is_multiple_of n (10 ^ e) \<longleftrightarrow> unat n mod 10 ^ e = 0"
  proof -
    have "n mod 10 ^ e = 0 \<longleftrightarrow> unat (n mod 10 ^ e) = 0" by (simp only: unat_eq_0)
    with nz u show ?thesis by (simp add: is_multiple_of_def unat_mod_distrib)
  qed
  then show ?thesis using True nz u
    by (auto simp: pow10_u64_def div_u64_def unat_div_distrib dvd_eq_mod_eq_0)
next
  case False
  have "\<not> 10 ^ e dvd unat n"
  proof
    assume "10 ^ e dvd unat n"
    then have "10 ^ e \<le> unat n" using assms by (intro dvd_imp_le) (auto simp: unat_gt_0)
    also have "\<dots> < 2 ^ 64" using unsigned_less [of n] by simp
    finally show False using False by simp
  qed
  then show ?thesis using False by (simp add: pow10_u64_def)
qed

section \<open>Properties\<close>

text \<open>C36: With overflow checks a unit constructor is exact: the duration it returns is the requested one
  in simulator steps, and it panics exactly when no 64-bit step count denotes that duration.\<close>

theorem from_pow10_exact:
  assumes "n \<noteq> 0"
  shows "case from_pow10 True prec n exp of
    Inr d \<Rightarrow> same_span (unat (sd_steps d)) prec (unat n) exp
  | Inl _ \<Rightarrow> \<not> (\<exists>s :: u64. same_span (unat s) prec (unat n) exp)"
proof (cases "prec \<le> exp")
  case True
  have "same_span a prec (unat n) exp \<longleftrightarrow> a = unat n * 10 ^ nat (exp - prec)" for a
    using True by (simp add: same_span_def min_def)
  moreover have "(\<exists>s :: u64. unat s = x) \<Longrightarrow> x < 2 ^ 64" for x
    using unsigned_less [where 'b = 64 and 'a = nat] by auto
  ultimately show ?thesis
    using mul_up [OF assms, of "nat (exp - prec)"] True
    by (fastforce simp: from_pow10_def not_less split: sum.splits)
next
  case False
  have "same_span a prec (unat n) exp \<longleftrightarrow> a * 10 ^ nat (prec - exp) = unat n" for a
    using False by (simp add: same_span_def min_def)
  moreover have "a * 10 ^ nat (prec - exp) = unat n \<Longrightarrow> 10 ^ nat (prec - exp) dvd unat n" for a
    by (metis dvd_triv_right)
  ultimately show ?thesis
    using div_down [OF assms, of "nat (prec - exp)"] False
    by (auto simp: from_pow10_def split: sum.splits if_splits)
qed

theorem from_pow10_exact_witness:
  "(case from_pow10 True (- 12) 2 (- 9) of Inr d \<Rightarrow> same_span (unat (sd_steps d)) (- 12) 2 (- 9) | Inl _ \<Rightarrow> False)"
proof -
  have "from_pow10 True (- 12) 2 (- 9) = Inr \<lparr>sd_steps = 2000\<rparr>"
    by (simp add: from_pow10_def pow10_u64_def mul_u64_def)
  with from_pow10_exact [of 2 "- 12" "- 9"] show ?thesis by simp
qed

text \<open>Without overflow checks the product wraps silently: eighteen million seconds at a picosecond
  precision come out shorter than one.\<close>

theorem from_pow10_wraps:
  "from_pow10 False (- 12) 18446745 0 = Inr \<lparr>sd_steps = 926290448384\<rparr>"
  by (simp add: from_pow10_def pow10_u64_def mul_u64_def)

lemma clock_halves:
  assumes "2 \<le> sd_steps d"
  shows "unat (clock_high d) = unat (sd_steps d) div 2" "unat (clock_low d) = unat (sd_steps d) - unat (sd_steps d) div 2"
    "clock_high d \<noteq> 0" "clock_low d \<noteq> 0"
proof -
  have u: "2 \<le> unat (sd_steps d)" using assms by (simp add: word_le_nat_alt)
  show h: "unat (clock_high d) = unat (sd_steps d) div 2" by (simp add: clock_high_def unat_div_distrib)
  have "clock_high d \<le> sd_steps d" by (simp add: word_le_nat_alt h)
  then show l: "unat (clock_low d) = unat (sd_steps d) - unat (sd_steps d) div 2"
    by (simp add: clock_low_def unat_sub h)
  show "clock_high d \<noteq> 0" "clock_low d \<noteq> 0" using h l u by (auto simp flip: unat_eq_0)
qed

lemma level_at_skip: "u \<le> t \<Longrightarrow> v \<le> t \<Longrightarrow> level_at ((u, x) # (v, y) # ws) t = (case level_at ws t of None \<Rightarrow> Some y | Some z \<Rightarrow> Some z)"
  by (simp add: level_at_def split: list.split)

lemma clock_writes_late: "clock_writes d k t = Inr ws \<Longrightarrow> (u, x) \<in> set ws \<Longrightarrow> t \<le> u"
proof (induction k arbitrary: t ws)
  case (Suc k)
  then show ?case by (fastforce split: sum.splits)
qed simp

text \<open>A clock accepted by the constructor never stops on a zero timer, and its signal is high for the
  first half (rounded down) of every period and low for the rest, for every period length.\<close>

theorem clock_waveform:
  assumes "clock_new d = Inr d"
  shows "\<exists>ws. clock_writes d k t0 = Inr ws \<and>
    (\<forall>t. t0 \<le> t \<and> t < t0 + k * unat (sd_steps d) \<longrightarrow>
       level_at ws t = Some (if (t - t0) mod unat (sd_steps d) < unat (sd_steps d) div 2 then 1 else 0))"
proof -
  have ge: "2 \<le> sd_steps d" using assms by (auto simp: clock_new_def split: if_splits)
  note h = clock_halves [OF ge]
  let ?p = "unat (sd_steps d)"
  have p: "2 \<le> ?p" using ge by (simp add: word_le_nat_alt)
  show ?thesis
  proof (induction k arbitrary: t0)
    case (Suc k)
    obtain ws where ws: "clock_writes d k (t0 + ?p) = Inr ws"
      "\<And>t. t0 + ?p \<le> t \<and> t < t0 + ?p + k * ?p \<Longrightarrow>
         level_at ws t = Some (if (t - (t0 + ?p)) mod ?p < ?p div 2 then 1 else 0)"
      using Suc.IH [of "t0 + ?p"] by auto
    have sum: "t0 + unat (clock_high d) + unat (clock_low d) = t0 + ?p" using h(1,2) by simp
    have w: "clock_writes d (Suc k) t0 = Inr ((t0, 1) # (t0 + ?p div 2, 0) # ws)"
      using ws(1) h sum by (simp add: timer_new_def dur_steps_def)
    have "level_at ((t0, 1) # (t0 + ?p div 2, 0) # ws) t = Some (if (t - t0) mod ?p < ?p div 2 then 1 else 0)"
      if t: "t0 \<le> t" "t < t0 + Suc k * ?p" for t
    proof (cases "t < t0 + ?p")
      case True
      then have "filter (\<lambda>(u, _). u \<le> t) ws = []"
        using clock_writes_late [OF ws(1)] by (fastforce simp: filter_empty_conv)
      then show ?thesis using t True by (auto simp: level_at_def)
    next
      case False
      then have "(t - t0) mod ?p = (t - (t0 + ?p)) mod ?p"
        by (metis diff_diff_left le_mod_geq not_less add.commute add_le_imp_le_diff)
      then show ?thesis using False t ws(2) [of t] by (subst level_at_skip) auto
    qed
    with w show ?case by blast
  qed (simp add: level_at_def)
qed

theorem clock_waveform_witness:
  "\<exists>ws. clock_writes \<lparr>sd_steps = 5\<rparr> 2 10 = Inr ws \<and> level_at ws 16 = Some 1 \<and> level_at ws 17 = Some 0"
proof -
  have "clock_new \<lparr>sd_steps = 5\<rparr> = Inr \<lparr>sd_steps = 5\<rparr>" by (simp add: clock_new_def)
  from clock_waveform [OF this, of 2 10] show ?thesis by auto
qed

end
