(* ===== verification/Trigger_Model.thy ===== *)
theory Trigger_Model
  imports Time_Model
begin

text \<open>
  The triggers backed by simulator callbacks (\<open>rustdv-sim/src/triggers.rs\<close>) and the combinators
  over futures (\<open>combinators.rs\<close>). A timer or edge future shares one cell with the callback it
  registers on its first poll, and nobody else does, so the cell is a field of the future here;
  the callback is an operation on the future. The value and width a value-change callback reads
  are arguments: the simulator supplies them.
\<close>

section \<open>The fire and waker cell\<close>

record trig =
  tg_fired :: bool
  tg_waker :: "waker option"

definition trig_new :: trig where
  "trig_new = \<lparr>tg_fired = False, tg_waker = None\<rparr>"

definition trig_fire :: "trig \<Rightarrow> trig \<times> waker list" where
  "trig_fire t = (t\<lparr>tg_fired := True, tg_waker := None\<rparr>, (case tg_waker t of None \<Rightarrow> [] | Some w \<Rightarrow> [w]))"

definition trig_set_waker :: "trig \<Rightarrow> waker \<Rightarrow> trig" where
  "trig_set_waker t w = t\<lparr>tg_waker := Some w\<rparr>"

section \<open>Timer\<close>

record timer =
  tm_steps :: u64
  tm_shared :: "trig option"
  tm_cb :: bool

definition timer_make :: "sim_duration \<Rightarrow> timer may_panic" where
  "timer_make d =
     (case timer_new d of Inl e \<Rightarrow> Inl e | Inr n \<Rightarrow> Inr \<lparr>tm_steps = n, tm_shared = None, tm_cb = False\<rparr>)"

definition timer_poll :: "timer \<Rightarrow> waker \<Rightarrow> timer \<times> unit poll" where
  "timer_poll t w =
     (case tm_shared t of
        None \<Rightarrow> (t\<lparr>tm_shared := Some (trig_set_waker trig_new w), tm_cb := True\<rparr>, Pending)
      | Some sh \<Rightarrow>
          if tg_fired sh then (t, Ready ())
          else (t\<lparr>tm_shared := Some (trig_set_waker sh w)\<rparr>, Pending))"

text \<open>The registered callback, without the executor drain that follows the wake.\<close>

definition timer_callback :: "timer \<Rightarrow> timer \<times> waker list" where
  "timer_callback t =
     (case tm_shared t of
        None \<Rightarrow> (t, [])
      | Some sh \<Rightarrow> (let (sh', ws) = trig_fire sh in (t\<lparr>tm_shared := Some sh'\<rparr>, ws)))"

section \<open>Edges\<close>

datatype edge_kind = Rising | Falling | AnyChange

record edge =
  eg_kind :: edge_kind
  eg_shared :: "trig option"
  eg_cb :: bool

definition edge_new :: "edge_kind \<Rightarrow> edge" where
  "edge_new k = \<lparr>eg_kind = k, eg_shared = None, eg_cb = False\<rparr>"

definition edge_poll :: "edge \<Rightarrow> waker \<Rightarrow> edge \<times> unit poll" where
  "edge_poll e w =
     (case eg_shared e of
        None \<Rightarrow> (e\<lparr>eg_shared := Some (trig_set_waker trig_new w), eg_cb := True\<rparr>, Pending)
      | Some sh \<Rightarrow>
          if tg_fired sh then (e, Ready ())
          else (e\<lparr>eg_shared := Some (trig_set_waker sh w)\<rparr>, Pending))"

text \<open>\<open>size\<close> is the width of the signal, \<open>v\<close> what \<open>get_u64\<close> returns: no value when a bit is X or Z.\<close>

fun edge_hit :: "edge_kind \<Rightarrow> nat \<Rightarrow> u64 option \<Rightarrow> bool" where
  "edge_hit AnyChange wd v \<longleftrightarrow> True"
| "edge_hit Rising wd v \<longleftrightarrow> wd = 1 \<and> v = Some 1"
| "edge_hit Falling wd v \<longleftrightarrow> wd = 1 \<and> v = Some 0"

definition edge_callback :: "edge \<Rightarrow> nat \<Rightarrow> u64 option \<Rightarrow> edge \<times> waker list" where
  "edge_callback e wd v =
     (case eg_shared e of
        None \<Rightarrow> (e, [])
      | Some sh \<Rightarrow>
          if tg_fired sh then (e, [])
          else if edge_hit (eg_kind e) wd v
          then (let (sh', ws) = trig_fire sh in (e\<lparr>eg_shared := Some sh'\<rparr>, ws))
          else (e, []))"

section \<open>NullTrigger\<close>

definition null_trigger_poll :: "bool \<Rightarrow> waker \<Rightarrow> bool \<times> waker list \<times> unit poll" where
  "null_trigger_poll yielded w = (if yielded then (yielded, [], Ready ()) else (True, [w], Pending))"

section \<open>Combinators\<close>

text \<open>A boxed future is its state together with what a poll does to it and to the world. A future
  that has returned \<open>Ready\<close> may not be polled again.\<close>

type_synonym ('f, 'w, 'a) poller = "'f \<Rightarrow> waker \<Rightarrow> 'w \<Rightarrow> 'f \<times> 'w \<times> 'a poll"

datatype ('a, 'b) either = First 'a | Second 'b

definition first2_poll :: "('f, 'w, 'a) poller \<Rightarrow> ('g, 'w, 'b) poller \<Rightarrow> ('f \<times> 'g, 'w, ('a, 'b) either) poller" where
  "first2_poll pa pb fg w s =
     (let (f', s1, ra) = pa (fst fg) w s in
      case ra of
        Ready v \<Rightarrow> ((f', snd fg), s1, Ready (First v))
      | Pending \<Rightarrow>
          (let (g', s2, rb) = pb (snd fg) w s1 in
           case rb of
             Ready v \<Rightarrow> ((f', g'), s2, Ready (Second v))
           | Pending \<Rightarrow> ((f', g'), s2, Pending)))"

record ('f, 'g, 'a, 'b) join2 =
  j_a :: 'f
  j_b :: 'g
  j_ra :: "'a option"
  j_rb :: "'b option"

definition join2 :: "'f \<Rightarrow> 'g \<Rightarrow> ('f, 'g, 'a, 'b) join2" where
  "join2 f g = \<lparr>j_a = f, j_b = g, j_ra = None, j_rb = None\<rparr>"

definition poll_to_option :: "'a poll \<Rightarrow> 'a option" where
  "poll_to_option r = (case r of Ready v \<Rightarrow> Some v | Pending \<Rightarrow> None)"

definition join2_poll :: "('f, 'w, 'a) poller \<Rightarrow> ('g, 'w, 'b) poller
    \<Rightarrow> (('f, 'g, 'a, 'b) join2, 'w, 'a \<times> 'b) poller" where
  "join2_poll pa pb j w s =
     (let (j1, s1) =
            (if j_ra j = None
             then (let (f', s', r) = pa (j_a j) w s in (j\<lparr>j_a := f', j_ra := poll_to_option r\<rparr>, s'))
             else (j, s));
          (j2, s2) =
            (if j_rb j1 = None
             then (let (g', s', r) = pb (j_b j1) w s1 in (j1\<lparr>j_b := g', j_rb := poll_to_option r\<rparr>, s'))
             else (j1, s1))
      in case (j_ra j2, j_rb j2) of
           (Some a, Some b) \<Rightarrow> (j2\<lparr>j_ra := None, j_rb := None\<rparr>, s2, Ready (a, b))
         | _ \<Rightarrow> (j2, s2, Pending))"

text \<open>\<open>JoinAll\<close> keeps a slot per future, emptied when it completes, and a slot per result.\<close>

record ('f, 'a) join_all =
  ja_futs :: "'f option list"
  ja_out :: "'a option list"

definition join_all :: "'f list \<Rightarrow> ('f, 'a) join_all" where
  "join_all fs = \<lparr>ja_futs = map Some fs, ja_out = map (\<lambda>_. None) fs\<rparr>"

fun poll_slots :: "('f, 'w, 'a) poller \<Rightarrow> waker \<Rightarrow> 'f option list \<Rightarrow> 'a option list \<Rightarrow> 'w
    \<Rightarrow> 'f option list \<times> 'a option list \<times> 'w \<times> bool" where
  "poll_slots p w (slot # futs) (out # outs) s =
     (let (slot', out', s', done) =
        (case slot of
           None \<Rightarrow> (None, out, s, True)
         | Some f \<Rightarrow>
             (case p f w s of
                (f', s', Ready v) \<Rightarrow> (None, Some v, s', True)
              | (f', s', Pending) \<Rightarrow> (Some f', out, s', False)));
          (futs', outs', s'', all_done) = poll_slots p w futs outs s'
      in (slot' # futs', out' # outs', s'', done \<and> all_done))"
| "poll_slots p w futs outs s = (futs, outs, s, True)"

definition join_all_poll :: "('f, 'w, 'a) poller \<Rightarrow> (('f, 'a) join_all, 'w, 'a list) poller" where
  "join_all_poll p j w s =
     (let (futs, outs, s', all_done) = poll_slots p w (ja_futs j) (ja_out j) s in
      if all_done then (\<lparr>ja_futs = futs, ja_out = map (\<lambda>_. None) outs\<rparr>, s', Ready (map the outs))
      else (\<lparr>ja_futs = futs, ja_out = outs\<rparr>, s', Pending))"

definition with_timeout_result :: "('a, unit) either \<Rightarrow> unit + 'a" where
  "with_timeout_result r = (case r of First v \<Rightarrow> Inr v | Second u \<Rightarrow> Inl ())"

definition timer_fut :: "(timer, 'w, unit) poller" where
  "timer_fut t w s = (let (t', r) = timer_poll t w in (t', s, r))"

definition with_timeout_poll :: "('f, 'w, 'a) poller \<Rightarrow> ('f \<times> timer, 'w, unit + 'a) poller" where
  "with_timeout_poll p ft w s =
     (case first2_poll p timer_fut ft w s of
        (ft', s', Ready e) \<Rightarrow> (ft', s', Ready (with_timeout_result e))
      | (ft', s', Pending) \<Rightarrow> (ft', s', Pending))"

section \<open>Polling a future until it completes\<close>

fun drive :: "('f, 'w, 'a) poller \<Rightarrow> nat \<Rightarrow> waker \<Rightarrow> 'f \<Rightarrow> 'w \<Rightarrow> 'f \<times> 'w \<times> 'a poll" where
  "drive p 0 w f s = (f, s, Pending)"
| "drive p (Suc k) w f s =
     (case drive p k w f s of
        (f', s', Ready v) \<Rightarrow> (f', s', Ready v)
      | (f', s', Pending) \<Rightarrow> p f' w s')"

text \<open>A future that depends on nothing but its own state, and what it comes to after some polls:
  the state it is in, or the value it completed with.\<close>

definition quiet :: "('f \<Rightarrow> 'f \<times> 'a poll) \<Rightarrow> ('f, 'w, 'a) poller" where
  "quiet q f w s = (fst (q f), s, snd (q f))"

fun solo :: "('f \<Rightarrow> 'f \<times> 'a poll) \<Rightarrow> nat \<Rightarrow> 'f \<Rightarrow> 'f + 'a" where
  "solo q 0 f = Inl f"
| "solo q (Suc k) f =
     (case solo q k f of
        Inr v \<Rightarrow> Inr v
      | Inl f' \<Rightarrow> (case snd (q f') of Ready v \<Rightarrow> Inr v | Pending \<Rightarrow> Inl (fst (q f'))))"

definition completed :: "('f \<Rightarrow> 'f \<times> 'a poll) \<Rightarrow> nat \<Rightarrow> 'f \<Rightarrow> 'a option" where
  "completed q k f = (case solo q k f of Inr v \<Rightarrow> Some v | Inl _ \<Rightarrow> None)"

definition running :: "('f \<Rightarrow> 'f \<times> 'a poll) \<Rightarrow> nat \<Rightarrow> 'f \<Rightarrow> 'f option" where
  "running q k f = (case solo q k f of Inr _ \<Rightarrow> None | Inl f' \<Rightarrow> Some f')"

lemma completed_0 [simp]: "completed q 0 f = None"
  by (simp add: completed_def)

lemma running_None: "running q k f = None \<longleftrightarrow> completed q k f \<noteq> None"
  by (simp add: running_def completed_def split: sum.split)

lemma completed_Suc:
  "completed q (Suc k) f = (case running q k f of None \<Rightarrow> completed q k f | Some f' \<Rightarrow> poll_to_option (snd (q f')))"
  by (simp add: completed_def running_def poll_to_option_def split: sum.split poll.split)

lemma running_Suc:
  "running q (Suc k) f = (case running q k f of None \<Rightarrow> None
     | Some f' \<Rightarrow> (case snd (q f') of Ready _ \<Rightarrow> None | Pending \<Rightarrow> Some (fst (q f'))))"
  by (simp add: completed_def running_def split: sum.split poll.split)

lemma running_completed: "running q k f = Some f' \<Longrightarrow> completed q k f = None"
  by (simp add: completed_def running_def split: sum.splits)

lemma completed_mono: "completed q k f = Some v \<Longrightarrow> k \<le> m \<Longrightarrow> completed q m f = Some v"
proof (induction m)
  case (Suc m)
  then show ?case by (cases "k = Suc m") (auto simp: completed_Suc split: option.split dest: running_completed)
qed simp

section \<open>Join and race\<close>

lemma poll_slots_quiet:
  "poll_slots (quiet q) w (map (running q k) fs) (map (completed q k) fs) s =
     (map (running q (Suc k)) fs, map (completed q (Suc k)) fs, s, list_all (\<lambda>f. completed q (Suc k) f \<noteq> None) fs)"
proof (induction fs)
  case (Cons f fs)
  show ?case
  proof (cases "running q k f")
    case None
    then show ?thesis using Cons
      by (simp add: completed_Suc [of q k f] running_Suc [of q k f]) (simp add: running_None)
  next
    case (Some f')
    then show ?thesis using Cons running_completed [OF Some]
      by (cases "snd (q f')") (simp_all add: completed_Suc [of q k f] running_Suc [of q k f] quiet_def poll_to_option_def)
  qed
qed simp

definition joined :: "('f \<Rightarrow> 'f \<times> 'a poll) \<Rightarrow> nat \<Rightarrow> 'f list \<Rightarrow> bool" where
  "joined q k fs \<longleftrightarrow> 0 < k \<and> list_all (\<lambda>f. completed q k f \<noteq> None) fs"

lemma drive_join_all:
  "\<exists>j. drive (join_all_poll (quiet q)) k w (join_all fs) s =
       (j, s, if joined q k fs then Ready (map (\<lambda>f. the (completed q k f)) fs) else Pending) \<and>
     (\<not> joined q k fs \<longrightarrow> j = \<lparr>ja_futs = map (running q k) fs, ja_out = map (completed q k) fs\<rparr>)"
proof (induction k)
  case 0
  then show ?case by (simp add: joined_def join_all_def running_def completed_def)
next
  case (Suc k)
  obtain j where j: "drive (join_all_poll (quiet q)) k w (join_all fs) s =
       (j, s, if joined q k fs then Ready (map (\<lambda>f. the (completed q k f)) fs) else Pending)"
    "\<not> joined q k fs \<Longrightarrow> j = \<lparr>ja_futs = map (running q k) fs, ja_out = map (completed q k) fs\<rparr>"
    using Suc.IH by blast
  show ?case
  proof (cases "joined q k fs")
    case True
    have m: "completed q (Suc k) f = completed q k f" if "f \<in> set fs" for f
      using True that completed_mono [of q k f _ "Suc k"] by (fastforce simp: joined_def list_all_iff)
    then have "map (\<lambda>f. the (completed q (Suc k) f)) fs = map (\<lambda>f. the (completed q k f)) fs" by auto
    moreover have "joined q (Suc k) fs" using True m by (simp add: joined_def list_all_iff)
    ultimately show ?thesis using True j(1) by simp
  next
    case False
    have "\<exists>j. join_all_poll (quiet q) \<lparr>ja_futs = map (running q k) fs, ja_out = map (completed q k) fs\<rparr> w s =
         (j, s, if joined q (Suc k) fs then Ready (map (\<lambda>f. the (completed q (Suc k) f)) fs) else Pending) \<and>
       (\<not> joined q (Suc k) fs \<longrightarrow> j = \<lparr>ja_futs = map (running q (Suc k)) fs, ja_out = map (completed q (Suc k)) fs\<rparr>)"
      by (simp add: join_all_poll_def joined_def poll_slots_quiet comp_def del: not_None_eq)
    with j False show ?thesis by simp
  qed
qed

text \<open>A race keeps polling both futures until one of them completes; when both complete at the
  same poll the first one wins.\<close>

definition race :: "('f \<Rightarrow> 'f \<times> 'a poll) \<Rightarrow> ('g \<Rightarrow> 'g \<times> 'b poll) \<Rightarrow> nat \<Rightarrow> 'f \<Rightarrow> 'g \<Rightarrow> ('a, 'b) either option" where
  "race q r k f g =
     (case completed q k f of
        Some v \<Rightarrow> Some (First v)
      | None \<Rightarrow> map_option Second (completed r k g))"

fun race_upto :: "('f \<Rightarrow> 'f \<times> 'a poll) \<Rightarrow> ('g \<Rightarrow> 'g \<times> 'b poll) \<Rightarrow> nat \<Rightarrow> 'f \<Rightarrow> 'g \<Rightarrow> ('a, 'b) either option" where
  "race_upto q r 0 f g = None"
| "race_upto q r (Suc k) f g = (case race_upto q r k f g of Some e \<Rightarrow> Some e | None \<Rightarrow> race q r (Suc k) f g)"

lemma race_upto_None: "race_upto q r k f g = None \<longleftrightarrow> completed q k f = None \<and> completed r k g = None"
proof (induction k)
  case (Suc k)
  have "completed q (Suc k) f = None \<Longrightarrow> completed q k f = None" "completed r (Suc k) g = None \<Longrightarrow> completed r k g = None"
    using completed_mono [of q k f _ "Suc k"] completed_mono [of r k g _ "Suc k"] by force+
  with Suc show ?case by (auto simp: race_def split: option.splits)
qed simp

lemma running_Some: "completed q k f = None \<Longrightarrow> \<exists>f'. running q k f = Some f'"
  by (simp add: running_def completed_def split: sum.splits)

lemma drive_first2:
  "\<exists>fg. drive (first2_poll (quiet q) (quiet r)) k w (f, g) s =
       (fg, s, case race_upto q r k f g of Some e \<Rightarrow> Ready e | None \<Rightarrow> Pending) \<and>
     (race_upto q r k f g = None \<longrightarrow> running q k f = Some (fst fg) \<and> running r k g = Some (snd fg))"
proof (induction k)
  case 0
  then show ?case by (simp add: running_def)
next
  case (Suc k)
  then obtain f' g' where IH: "drive (first2_poll (quiet q) (quiet r)) k w (f, g) s =
       ((f', g'), s, case race_upto q r k f g of Some e \<Rightarrow> Ready e | None \<Rightarrow> Pending)"
     "race_upto q r k f g = None \<Longrightarrow> running q k f = Some f' \<and> running r k g = Some g'" by auto
  show ?case
  proof (cases "race_upto q r k f g")
    case None
    with IH(2) have "running q k f = Some f'" "running r k g = Some g'" by auto
    then have "\<exists>fg. first2_poll (quiet q) (quiet r) (f', g') w s =
         (fg, s, case race q r (Suc k) f g of Some e \<Rightarrow> Ready e | None \<Rightarrow> Pending) \<and>
       (race q r (Suc k) f g = None \<longrightarrow> running q (Suc k) f = Some (fst fg) \<and> running r (Suc k) g = Some (snd fg))"
      by (simp add: first2_poll_def quiet_def race_def completed_Suc running_Suc poll_to_option_def split: poll.split)
    with None IH(1) show ?thesis by simp
  qed (use IH(1) in simp)
qed

lemma edge_callback_kind [simp]: "eg_kind (fst (edge_callback e wd v)) = eg_kind e"
  by (simp add: edge_callback_def split_def Let_def split: option.split)

text \<open>A sequence of value changes seen by one edge future, with every wake it causes.\<close>

fun edge_changes :: "edge \<Rightarrow> (nat \<times> u64 option) list \<Rightarrow> edge \<times> waker list" where
  "edge_changes e [] = (e, [])"
| "edge_changes e ((wd, v) # cs) =
     (let (e1, ws) = edge_callback e wd v; (e2, ws') = edge_changes e1 cs in (e2, ws @ ws'))"

lemma edge_changes_fired:
  "eg_shared e = Some sh \<Longrightarrow> tg_fired sh \<Longrightarrow> edge_changes e cs = (e, [])"
  by (induction e cs rule: edge_changes.induct) (simp_all add: edge_callback_def)

lemma edge_changes_parked:
  "eg_shared e = Some \<lparr>tg_fired = False, tg_waker = Some w\<rparr> \<Longrightarrow>
     (let (e', ws) = edge_changes e cs; hit = list_ex (\<lambda>(wd, v). edge_hit (eg_kind e) wd v) cs
      in ws = (if hit then [w] else []) \<and>
         eg_shared e' = Some \<lparr>tg_fired = hit, tg_waker = (if hit then None else Some w)\<rparr>)"
proof (induction e cs rule: edge_changes.induct)
  case (2 e wd v cs)
  show ?case
  proof (cases "edge_hit (eg_kind e) wd v")
    case True
    let ?e = "e\<lparr>eg_shared := Some \<lparr>tg_fired = True, tg_waker = None\<rparr>\<rparr>"
    have "edge_changes ?e cs = (?e, [])" by (rule edge_changes_fired [of _ "\<lparr>tg_fired = True, tg_waker = None\<rparr>"]) simp_all
    with True "2.prems" show ?thesis by (simp add: edge_callback_def trig_fire_def)
  next
    case False
    then have c: "edge_callback e wd v = (e, [])" using "2.prems" by (simp add: edge_callback_def)
    with "2.IH" [OF c [symmetric] refl "2.prems"] False show ?thesis by (simp add: split_def Let_def)
  qed
qed simp

section \<open>Properties\<close>

text \<open>Joining futures: after any number of polls the join has completed exactly if every future
  would have completed within as many polls of its own, and then it returns their values in the
  order the futures were given.\<close>

theorem join_all_joins:
  "snd (snd (drive (join_all_poll (quiet q)) k w (join_all fs) s)) =
     (if 0 < k \<and> list_all (\<lambda>f. completed q k f \<noteq> None) fs
      then Ready (map (\<lambda>f. the (completed q k f)) fs) else Pending)"
  using drive_join_all [of q k w fs s] by (auto simp: joined_def)

text \<open>Racing two futures: after any number of polls the race has the outcome of the earliest poll at
  which one of the two would have completed on its own, the first future winning ties, and it is
  pending as long as neither has completed.\<close>

theorem first2_races:
  "snd (snd (drive (first2_poll (quiet q) (quiet r)) k w (f, g) s)) =
     (case race_upto q r k f g of Some e \<Rightarrow> Ready e | None \<Rightarrow> Pending) \<and>
   (race_upto q r k f g = None \<longleftrightarrow> completed q k f = None \<and> completed r k g = None)"
  using drive_first2 [of q r k w f g s] by (auto simp: race_upto_None)

text \<open>An edge future that has been polled is woken exactly once, by the first value change that
  matches its kind, and stays pending through changes that do not match. A value with an X or Z
  bit is neither a rising nor a falling edge, and a signal wider than one bit has none.\<close>

theorem edge_fires_once:
  "(let e0 = fst (edge_poll (edge_new kind) w); (e1, ws) = edge_changes e0 cs;
        hit = list_ex (\<lambda>(wd, v). edge_hit kind wd v) cs
    in ws = (if hit then [w] else []) \<and> snd (edge_poll e1 w') = (if hit then Ready () else Pending))"
  using edge_changes_parked [of "fst (edge_poll (edge_new kind) w)" w cs]
  by (auto simp: edge_poll_def edge_new_def trig_new_def trig_set_waker_def split_def Let_def)

end
