(* ===== verification/Phase_Model.thy ===== *)
theory Phase_Model
  imports Trigger_Model
begin

text \<open>
  The phase hub of \<open>rustdv-sim/src/phase.rs\<close>: the simulator region the test code is in, the
  buffered writes, the futures waiting for the ReadWrite, ReadOnly and next-time-step callbacks,
  and which of the three callbacks is registered. The cells shared between a waiting future and
  the hub are a store; the hub holds weak references, so a dropped future is a cell that is no
  longer in the store. The writes handed to the simulator are kept as a list. A callback runs the
  executor until it is idle in the middle of its body; here it is split into what it does before
  and after, with the operations of the woken tasks in between as further steps.
  \<open>'b\<close>, \<open>'l\<close> and \<open>'r\<close> stand for big integers, logic vectors and floats, which are only passed on.
\<close>

section \<open>The hub\<close>

datatype sim_phase = Normal | ReadWrite | ReadOnly

datatype ('b, 'l, 'r) write_val =
    WBool bool | WU8 "8 word" | WU16 "16 word" | WU32 "32 word" | WU64 "64 word" | WU128 "128 word"
  | WBigInt 'b | WLogic 'l | WReal 'r | WString string

datatype write_target = TLogic nat | TReal nat | TString nat

type_synonym ('b, 'l, 'r) pending_write = "write_target \<times> ('b, 'l, 'r) write_val"

record ('b, 'l, 'r) hub =
  hb_phase :: sim_phase
  hb_rw_waiters :: "nat list"
  hb_rw_cb :: bool
  hb_ro_waiters :: "nat list"
  hb_ro_cb :: bool
  hb_nt_waiters :: "nat list"
  hb_nt_cb :: bool
  hb_writes :: "('b, 'l, 'r) pending_write list"
  hb_cells :: "nat \<rightharpoonup> trig"
  hb_next :: nat
  hb_applied :: "('b, 'l, 'r) pending_write list"

definition init_hub :: "('b, 'l, 'r) hub" where
  "init_hub = \<lparr>hb_phase = Normal, hb_rw_waiters = [], hb_rw_cb = False, hb_ro_waiters = [], hb_ro_cb = False,
     hb_nt_waiters = [], hb_nt_cb = False, hb_writes = [], hb_cells = Map.empty, hb_next = 0, hb_applied = []\<rparr>"

text \<open>Leaving the ReadOnly region costs one time step, otherwise nothing.\<close>

definition leave_read_only :: "('b, 'l, 'r) hub \<Rightarrow> timer option may_panic" where
  "leave_read_only h =
     (if hb_phase h \<noteq> ReadOnly then Inr None
      else (case timer_make (dur_steps 1) of Inl e \<Rightarrow> Inl e | Inr t \<Rightarrow> Inr (Some t)))"

section \<open>Writes\<close>

fun kind_ok :: "write_target \<Rightarrow> ('b, 'l, 'r) write_val \<Rightarrow> bool" where
  "kind_ok (TReal _) v = (case v of WReal _ \<Rightarrow> True | _ \<Rightarrow> False)"
| "kind_ok (TString _) v = (case v of WString _ \<Rightarrow> True | _ \<Rightarrow> False)"
| "kind_ok (TLogic _) v = (case v of WReal _ \<Rightarrow> False | WString _ \<Rightarrow> False | _ \<Rightarrow> True)"

definition nul_free :: "('b, 'l, 'r) write_val \<Rightarrow> bool" where
  "nul_free v = (case v of WString x \<Rightarrow> CHR 0x00 \<notin> set x | _ \<Rightarrow> True)"

definition apply_write :: "('b, 'l, 'r) hub \<Rightarrow> write_target \<Rightarrow> ('b, 'l, 'r) write_val \<Rightarrow> ('b, 'l, 'r) hub may_panic" where
  "apply_write h t v =
     (if \<not> kind_ok t v then panics ''internal error: entered unreachable code: write target/value mismatch''
      else if \<not> nul_free v then panics ''scheduled string was validated''
      else Inr (h\<lparr>hb_applied := hb_applied h @ [(t, v)]\<rparr>))"

definition deny_write_in_read_only :: "('b, 'l, 'r) hub \<Rightarrow> string \<Rightarrow> unit may_panic" where
  "deny_write_in_read_only h full_name =
     (if hb_phase h = ReadOnly
      then panics (''illegal write to '' @ [CHR 0x27] @ full_name @ [CHR 0x27] @ '' during the ReadOnly phase (cocotb rule, design-doc 4.4)'')
      else Inr ())"

definition prime_rw :: "('b, 'l, 'r) hub \<Rightarrow> ('b, 'l, 'r) hub" where
  "prime_rw h = (if hb_rw_cb h then h else h\<lparr>hb_rw_cb := True\<rparr>)"

definition prime_ro :: "('b, 'l, 'r) hub \<Rightarrow> ('b, 'l, 'r) hub" where
  "prime_ro h = (if hb_ro_cb h then h else h\<lparr>hb_ro_cb := True\<rparr>)"

definition prime_nt :: "('b, 'l, 'r) hub \<Rightarrow> ('b, 'l, 'r) hub" where
  "prime_nt h = (if hb_nt_cb h then h else h\<lparr>hb_nt_cb := True\<rparr>)"

text \<open>The first buffered write to the same target is replaced in place, otherwise the write is appended.\<close>

fun put_write :: "('k \<times> 'v) list \<Rightarrow> 'k \<Rightarrow> 'v \<Rightarrow> ('k \<times> 'v) list" where
  "put_write [] t v = [(t, v)]"
| "put_write ((t', v') # ws) t v = (if t' = t then (t', v) # ws else (t', v') # put_write ws t v)"

definition schedule :: "(write_target \<Rightarrow> string) \<Rightarrow> ('b, 'l, 'r) hub \<Rightarrow> write_target \<Rightarrow> ('b, 'l, 'r) write_val
    \<Rightarrow> ('b, 'l, 'r) hub may_panic" where
  "schedule full_name h t v =
     (case hb_phase h of
        ReadOnly \<Rightarrow> (case deny_write_in_read_only h (full_name t) of Inl e \<Rightarrow> Inl e | Inr _ \<Rightarrow> Inr h)
      | ReadWrite \<Rightarrow> apply_write h t v
      | Normal \<Rightarrow> Inr (prime_rw (h\<lparr>hb_writes := put_write (hb_writes h) t v\<rparr>)))"

text \<open>The immediate methods of the handles: the same rule, then the simulator.\<close>

definition write_now :: "(write_target \<Rightarrow> string) \<Rightarrow> ('b, 'l, 'r) hub \<Rightarrow> write_target \<Rightarrow> ('b, 'l, 'r) write_val
    \<Rightarrow> ('b, 'l, 'r) hub may_panic" where
  "write_now full_name h t v =
     (case deny_write_in_read_only h (full_name t) of
        Inl e \<Rightarrow> Inl e
      | Inr _ \<Rightarrow> apply_write h t v)"

fun apply_all :: "('b, 'l, 'r) pending_write list \<Rightarrow> ('b, 'l, 'r) hub \<Rightarrow> ('b, 'l, 'r) hub may_panic" where
  "apply_all [] h = Inr h"
| "apply_all ((t, v) # ws) h = (case apply_write h t v of Inl e \<Rightarrow> Inl e | Inr h' \<Rightarrow> apply_all ws h')"

section \<open>Callbacks\<close>

definition fire_cell :: "nat \<Rightarrow> (nat \<rightharpoonup> trig) \<times> waker list \<Rightarrow> (nat \<rightharpoonup> trig) \<times> waker list" where
  "fire_cell c st =
     (case fst st c of
        None \<Rightarrow> st
      | Some t \<Rightarrow> (let (t', ws) = trig_fire t in ((fst st)(c \<mapsto> t'), snd st @ ws)))"

definition fire_waiters :: "nat list \<Rightarrow> (nat \<rightharpoonup> trig) \<Rightarrow> (nat \<rightharpoonup> trig) \<times> waker list" where
  "fire_waiters cs cells = fold fire_cell cs (cells, [])"

definition rw_enter :: "('b, 'l, 'r) hub \<Rightarrow> (('b, 'l, 'r) hub \<times> waker list) may_panic" where
  "rw_enter h =
     (let h1 = h\<lparr>hb_rw_cb := False, hb_phase := ReadWrite, hb_writes := []\<rparr> in
      case apply_all (hb_writes h) h1 of
        Inl e \<Rightarrow> Inl e
      | Inr h2 \<Rightarrow>
          (let (cells, ws) = fire_waiters (hb_rw_waiters h2) (hb_cells h2)
           in Inr (h2\<lparr>hb_rw_waiters := [], hb_cells := cells\<rparr>, ws)))"

definition ro_enter :: "('b, 'l, 'r) hub \<Rightarrow> ('b, 'l, 'r) hub \<times> waker list" where
  "ro_enter h =
     (let h1 = h\<lparr>hb_ro_cb := False, hb_phase := ReadOnly\<rparr>;
          (cells, ws) = fire_waiters (hb_ro_waiters h1) (hb_cells h1)
      in (h1\<lparr>hb_ro_waiters := [], hb_cells := cells\<rparr>, ws))"

definition nt_fire :: "('b, 'l, 'r) hub \<Rightarrow> ('b, 'l, 'r) hub \<times> waker list" where
  "nt_fire h =
     (let h1 = h\<lparr>hb_nt_cb := False\<rparr>;
          (cells, ws) = fire_waiters (hb_nt_waiters h1) (hb_cells h1)
      in (h1\<lparr>hb_nt_waiters := [], hb_cells := cells\<rparr>, ws))"

definition phase_exit :: "('b, 'l, 'r) hub \<Rightarrow> ('b, 'l, 'r) hub" where
  "phase_exit h = h\<lparr>hb_phase := Normal\<rparr>"

section \<open>Awaiting a phase\<close>

datatype phase_kind = PkReadWrite | PkReadOnly | PkNextTimeStep

record phase_fut =
  pf_kind :: phase_kind
  pf_shared :: "nat option"

definition phase_fut_new :: "phase_kind \<Rightarrow> phase_fut" where
  "phase_fut_new k = \<lparr>pf_kind = k, pf_shared = None\<rparr>"

definition new_cell :: "('b, 'l, 'r) hub \<Rightarrow> waker \<Rightarrow> ('b, 'l, 'r) hub" where
  "new_cell h w = h\<lparr>hb_cells := (hb_cells h)(hb_next h \<mapsto> trig_set_waker trig_new w), hb_next := Suc (hb_next h)\<rparr>"

definition phase_poll :: "('b, 'l, 'r) hub \<Rightarrow> phase_fut \<Rightarrow> waker
    \<Rightarrow> (('b, 'l, 'r) hub \<times> phase_fut \<times> unit poll) may_panic" where
  "phase_poll h f w =
     (case pf_shared f of
        Some c \<Rightarrow>
          (case hb_cells h c of
             None \<Rightarrow> panics ''a future owns its cell''
           | Some t \<Rightarrow>
               if tg_fired t then Inr (h, f, Ready ())
               else Inr (h\<lparr>hb_cells := (hb_cells h)(c \<mapsto> trig_set_waker t w)\<rparr>, f, Pending))
      | None \<Rightarrow>
          (let c = hb_next h; h1 = new_cell h w; f' = f\<lparr>pf_shared := Some c\<rparr> in
           case pf_kind f of
             PkReadWrite \<Rightarrow>
               if hb_phase h = ReadOnly
               then panics ''awaiting ReadWrite from the ReadOnly phase is illegal (cocotb rule)''
               else Inr (prime_rw (h1\<lparr>hb_rw_waiters := hb_rw_waiters h1 @ [c]\<rparr>), f', Pending)
           | PkReadOnly \<Rightarrow>
               if hb_phase h = ReadOnly
               then panics ''awaiting ReadOnly from the ReadOnly phase is illegal (cocotb rule)''
               else Inr (prime_ro (h1\<lparr>hb_ro_waiters := hb_ro_waiters h1 @ [c]\<rparr>), f', Pending)
           | PkNextTimeStep \<Rightarrow>
               Inr (prime_nt (h1\<lparr>hb_nt_waiters := hb_nt_waiters h1 @ [c]\<rparr>), f', Pending)))"

text \<open>Dropping a future releases its cell; the weak references of the hub stay behind.\<close>

definition phase_drop :: "('b, 'l, 'r) hub \<Rightarrow> phase_fut \<Rightarrow> ('b, 'l, 'r) hub" where
  "phase_drop h f = (case pf_shared f of None \<Rightarrow> h | Some c \<Rightarrow> h\<lparr>hb_cells := (hb_cells h)(c := None)\<rparr>)"

section \<open>Runs of the hub\<close>

inductive hub_step :: "(write_target \<Rightarrow> string) \<Rightarrow> ('b, 'l, 'r) hub \<Rightarrow> ('b, 'l, 'r) hub \<Rightarrow> bool" for nm where
  hs_schedule: "schedule nm h t v = Inr h' \<Longrightarrow> hub_step nm h h'"
| hs_now: "write_now nm h t v = Inr h' \<Longrightarrow> hub_step nm h h'"
| hs_poll: "phase_poll h f w = Inr (h', f', r) \<Longrightarrow> hub_step nm h h'"
| hs_drop: "hub_step nm h (phase_drop h f)"
| hs_rw: "hb_rw_cb h \<Longrightarrow> hb_phase h = Normal \<Longrightarrow> rw_enter h = Inr (h', ws) \<Longrightarrow> hub_step nm h h'"
| hs_ro: "hb_ro_cb h \<Longrightarrow> hb_phase h = Normal \<Longrightarrow> ro_enter h = (h', ws) \<Longrightarrow> hub_step nm h h'"
| hs_nt: "hb_nt_cb h \<Longrightarrow> hb_phase h = Normal \<Longrightarrow> nt_fire h = (h', ws) \<Longrightarrow> hub_step nm h h'"
| hs_exit: "hb_phase h \<noteq> Normal \<Longrightarrow> hub_step nm h (phase_exit h)"

inductive hub_reachable :: "(write_target \<Rightarrow> string) \<Rightarrow> ('b, 'l, 'r) hub \<Rightarrow> bool" for nm where
  hr_init: "hub_reachable nm init_hub"
| hr_step: "hub_reachable nm h \<Longrightarrow> hub_step nm h h' \<Longrightarrow> hub_reachable nm h'"

inductive_cases hub_stepE: "hub_step nm h h'"

section \<open>Firing\<close>

definition fired_cell :: "trig \<Rightarrow> trig" where
  "fired_cell t = t\<lparr>tg_fired := True, tg_waker := None\<rparr>"

definition fired_cells :: "nat list \<Rightarrow> (nat \<rightharpoonup> trig) \<Rightarrow> (nat \<rightharpoonup> trig)" where
  "fired_cells cs cells = (\<lambda>c. if c \<in> set cs then map_option fired_cell (cells c) else cells c)"

definition wakers_of :: "(nat \<rightharpoonup> trig) \<Rightarrow> nat list \<Rightarrow> waker list" where
  "wakers_of cells cs = List.map_filter (\<lambda>c. Option.bind (cells c) tg_waker) cs"

lemma fired_cell_idem [simp]: "fired_cell (fired_cell t) = fired_cell t"
  by (simp add: fired_cell_def)

lemma fire_cell_eq:
  "fire_cell c (cells, acc) = (fired_cells [c] cells, acc @ wakers_of cells [c])"
  by (auto simp: fire_cell_def fired_cells_def wakers_of_def trig_fire_def fired_cell_def map_filter_def
      split: option.split)

lemma fired_cells_Cons: "fired_cells cs (fired_cells [c] cells) = fired_cells (c # cs) cells"
  by (auto simp: fired_cells_def option.map_comp comp_def)

lemma wakers_of_other: "c \<notin> set cs \<Longrightarrow> wakers_of (fired_cells [c] cells) cs = wakers_of cells cs"
  unfolding wakers_of_def by (induction cs) (auto simp: fired_cells_def map_filter_simps split: option.split)

lemma fold_fire_cell:
  "distinct cs \<Longrightarrow> fold fire_cell cs (cells, acc) = (fired_cells cs cells, acc @ wakers_of cells cs)"
proof (induction cs arbitrary: cells acc)
  case (Cons c cs)
  have "wakers_of cells (c # cs) = wakers_of cells [c] @ wakers_of cells cs"
    by (simp add: wakers_of_def map_filter_simps split: option.split)
  with Cons show ?case by (simp add: fire_cell_eq fired_cells_Cons wakers_of_other)
qed (simp add: fired_cells_def wakers_of_def map_filter_simps)

lemma fire_waiters_eq: "distinct cs \<Longrightarrow> fire_waiters cs cells = (fired_cells cs cells, wakers_of cells cs)"
  by (simp add: fire_waiters_def fold_fire_cell)

section \<open>The invariant\<close>

definition waiting :: "('b, 'l, 'r) hub \<Rightarrow> nat list" where
  "waiting h = hb_rw_waiters h @ hb_ro_waiters h @ hb_nt_waiters h"

text \<open>Every cell of the store that has not fired is known to the hub and has a waker.\<close>

definition all_parked :: "nat list \<Rightarrow> (nat \<rightharpoonup> trig) \<Rightarrow> bool" where
  "all_parked cs cells \<longleftrightarrow> (\<forall>c t. cells c = Some t \<longrightarrow> \<not> tg_fired t \<longrightarrow> c \<in> set cs \<and> tg_waker t \<noteq> None)"

definition fresh_ids :: "nat \<Rightarrow> nat list \<Rightarrow> (nat \<rightharpoonup> trig) \<Rightarrow> bool" where
  "fresh_ids n cs cells \<longleftrightarrow> distinct cs \<and> set cs \<subseteq> {..<n} \<and> dom cells \<subseteq> {..<n}"

definition primed :: "('b, 'l, 'r) hub \<Rightarrow> bool" where
  "primed h \<longleftrightarrow> ((hb_writes h \<noteq> [] \<or> hb_rw_waiters h \<noteq> []) \<longrightarrow> hb_rw_cb h) \<and>
     (hb_ro_waiters h \<noteq> [] \<longrightarrow> hb_ro_cb h) \<and> (hb_nt_waiters h \<noteq> [] \<longrightarrow> hb_nt_cb h) \<and>
     (hb_phase h = ReadWrite \<longrightarrow> hb_writes h = []) \<and> distinct (map fst (hb_writes h))"

definition hub_inv :: "('b, 'l, 'r) hub \<Rightarrow> bool" where
  "hub_inv h \<longleftrightarrow> primed h \<and> fresh_ids (hb_next h) (waiting h) (hb_cells h) \<and> all_parked (waiting h) (hb_cells h)"

lemma put_write_keys: "map fst (put_write ws t v) = (if t \<in> fst ` set ws then map fst ws else map fst ws @ [t])"
  by (induction ws t v rule: put_write.induct) auto

lemma apply_write_frame: "apply_write h t v = Inr h' \<Longrightarrow> h' = h\<lparr>hb_applied := hb_applied h @ [(t, v)]\<rparr>"
  by (auto simp: apply_write_def split: if_splits)

lemma apply_all_frame: "apply_all ws h = Inr h' \<Longrightarrow> h' = h\<lparr>hb_applied := hb_applied h @ ws\<rparr>"
proof (induction ws h rule: apply_all.induct)
  case (2 t v ws h)
  then show ?case by (auto dest!: apply_write_frame split: sum.splits)
qed simp

lemma inv_init: "hub_inv init_hub"
  by (simp add: hub_inv_def init_hub_def waiting_def primed_def fresh_ids_def all_parked_def)

lemma inv_frame:
  "hub_inv h \<Longrightarrow> primed h' \<Longrightarrow> waiting h' = waiting h \<Longrightarrow> hb_cells h' = hb_cells h \<Longrightarrow> hb_next h' = hb_next h \<Longrightarrow> hub_inv h'"
  by (simp add: hub_inv_def)

lemma inv_apply: "hub_inv h \<Longrightarrow> apply_write h t v = Inr h' \<Longrightarrow> hub_inv h'"
  by (rule inv_frame [of h]) (auto simp: waiting_def hub_inv_def primed_def dest!: apply_write_frame)

lemma inv_schedule:
  assumes "hub_inv h" "schedule nm h t v = Inr h'"
  shows "hub_inv h'"
proof (cases "hb_phase h")
  case Normal
  show ?thesis
    by (rule inv_frame [OF assms(1)])
      (use assms Normal in \<open>auto simp: schedule_def prime_rw_def waiting_def hub_inv_def primed_def put_write_keys split: if_splits\<close>)
next
  case ReadWrite
  then show ?thesis using assms inv_apply by (simp add: schedule_def)
next
  case ReadOnly
  then show ?thesis using assms by (simp add: schedule_def deny_write_in_read_only_def)
qed

lemma inv_now: "hub_inv h \<Longrightarrow> write_now nm h t v = Inr h' \<Longrightarrow> hub_inv h'"
  by (auto simp: write_now_def intro: inv_apply split: sum.splits)

lemma parked_upd:
  "all_parked cs cells \<Longrightarrow> (\<not> tg_fired t \<Longrightarrow> c \<in> set ds \<and> tg_waker t \<noteq> None) \<Longrightarrow> set cs \<subseteq> set ds \<Longrightarrow>
     all_parked ds (cells(c \<mapsto> t))"
  by (auto simp: all_parked_def)

lemma inv_drop: "hub_inv h \<Longrightarrow> hub_inv (phase_drop h f)"
  by (auto simp: phase_drop_def hub_inv_def waiting_def primed_def fresh_ids_def all_parked_def split: option.split if_splits)

lemma inv_exit: "hub_inv h \<Longrightarrow> hub_inv (phase_exit h)"
  by (rule inv_frame [of h]) (auto simp: phase_exit_def waiting_def hub_inv_def primed_def)

text \<open>The first poll adds a fresh cell to one of the lists; a later poll only replaces a waker.\<close>

lemma inv_new:
  assumes "hub_inv h" "set (waiting h') = insert (hb_next h) (set (waiting h))" "distinct (waiting h')" "primed h'"
    and "hb_cells h' = (hb_cells h)(hb_next h \<mapsto> trig_set_waker trig_new w)" "hb_next h' = Suc (hb_next h)"
  shows "hub_inv h'"
proof -
  have "fresh_ids (hb_next h') (waiting h') (hb_cells h')"
    using assms by (force simp: hub_inv_def fresh_ids_def)
  moreover have "all_parked (waiting h') (hb_cells h')"
    unfolding assms(5) using assms(1,2) by (intro parked_upd) (auto simp: hub_inv_def trig_set_waker_def)
  ultimately show ?thesis using assms(4) by (simp add: hub_inv_def)
qed

lemma inv_poll:
  assumes "hub_inv h" "phase_poll h f w = Inr (h', f', r)"
  shows "hub_inv h'"
proof (cases "pf_shared f")
  case None
  have d: "distinct (waiting h)" "hb_next h \<notin> set (waiting h)" using assms(1) by (auto simp: hub_inv_def fresh_ids_def)
  have p: "primed h" using assms(1) by (simp add: hub_inv_def)
  let ?c = "hb_next h" and ?h = "new_cell h w"
  consider "h' = prime_rw (?h\<lparr>hb_rw_waiters := hb_rw_waiters ?h @ [?c]\<rparr>)"
    | "h' = prime_ro (?h\<lparr>hb_ro_waiters := hb_ro_waiters ?h @ [?c]\<rparr>)"
    | "h' = prime_nt (?h\<lparr>hb_nt_waiters := hb_nt_waiters ?h @ [?c]\<rparr>)"
    using assms(2) None by (auto simp: phase_poll_def Let_def split: phase_kind.splits if_splits)
  then show ?thesis
  proof cases
    case 1
    show ?thesis by (rule inv_new [OF assms(1)])
      (use 1 d p in \<open>auto simp: new_cell_def prime_rw_def waiting_def primed_def\<close>)
  next
    case 2
    show ?thesis by (rule inv_new [OF assms(1)])
      (use 2 d p in \<open>auto simp: new_cell_def prime_ro_def waiting_def primed_def\<close>)
  next
    case 3
    show ?thesis by (rule inv_new [OF assms(1)])
      (use 3 d p in \<open>auto simp: new_cell_def prime_nt_def waiting_def primed_def\<close>)
  qed
next
  case (Some c)
  then obtain t where t: "hb_cells h c = Some t" and
    h': "h' = h \<or> (\<not> tg_fired t \<and> h' = h\<lparr>hb_cells := (hb_cells h)(c \<mapsto> trig_set_waker t w)\<rparr>)"
    using assms(2) by (auto simp: phase_poll_def split: option.splits if_splits)
  have w: "waiting (h\<lparr>hb_cells := x\<rparr>) = waiting h" for x by (simp add: waiting_def)
  have "hub_inv (h\<lparr>hb_cells := (hb_cells h)(c \<mapsto> trig_set_waker t w)\<rparr>)" if "\<not> tg_fired t"
    using assms(1) t that unfolding hub_inv_def w
    by (auto simp: primed_def fresh_ids_def all_parked_def trig_set_waker_def)
  with h' assms(1) show ?thesis by blast
qed

lemma inv_fire:
  assumes "hub_inv h" "waiting h' = filter (\<lambda>c. c \<notin> set cs) (waiting h)" "primed h'"
    and "hb_cells h' = fired_cells cs (hb_cells h)" "hb_next h' = hb_next h"
  shows "hub_inv h'"
proof -
  have "fresh_ids (hb_next h') (waiting h') (hb_cells h')"
    using assms by (force simp: hub_inv_def fresh_ids_def fired_cells_def split: if_splits)
  moreover have "all_parked (waiting h') (hb_cells h')"
    using assms by (auto simp: hub_inv_def all_parked_def fired_cells_def fired_cell_def split: if_splits)
  ultimately show ?thesis using assms(3) by (simp add: hub_inv_def)
qed

text \<open>Which cells each callback fires: those of its own list, which are then no longer waiting.\<close>

lemma rw_enter_eq:
  assumes "hub_inv h" "rw_enter h = Inr (h', ws)"
  shows "h' = h\<lparr>hb_rw_cb := False, hb_phase := ReadWrite, hb_writes := [], hb_applied := hb_applied h @ hb_writes h,
      hb_rw_waiters := [], hb_cells := fired_cells (hb_rw_waiters h) (hb_cells h)\<rparr> \<and>
    ws = wakers_of (hb_cells h) (hb_rw_waiters h)"
proof -
  have d: "distinct (hb_rw_waiters h)" using assms(1) by (auto simp: hub_inv_def fresh_ids_def waiting_def)
  show ?thesis
    using assms(2) by (auto simp: rw_enter_def Let_def fire_waiters_eq [OF d] split: sum.splits dest!: apply_all_frame)
qed

lemma ro_enter_eq:
  assumes "hub_inv h" "ro_enter h = (h', ws)"
  shows "h' = h\<lparr>hb_ro_cb := False, hb_phase := ReadOnly, hb_ro_waiters := [],
      hb_cells := fired_cells (hb_ro_waiters h) (hb_cells h)\<rparr> \<and> ws = wakers_of (hb_cells h) (hb_ro_waiters h)"
proof -
  have d: "distinct (hb_ro_waiters h)" using assms(1) by (auto simp: hub_inv_def fresh_ids_def waiting_def)
  show ?thesis using assms(2) by (auto simp: ro_enter_def Let_def fire_waiters_eq [OF d])
qed

lemma nt_fire_eq:
  assumes "hub_inv h" "nt_fire h = (h', ws)"
  shows "h' = h\<lparr>hb_nt_cb := False, hb_nt_waiters := [],
      hb_cells := fired_cells (hb_nt_waiters h) (hb_cells h)\<rparr> \<and> ws = wakers_of (hb_cells h) (hb_nt_waiters h)"
proof -
  have d: "distinct (hb_nt_waiters h)" using assms(1) by (auto simp: hub_inv_def fresh_ids_def waiting_def)
  show ?thesis using assms(2) by (auto simp: nt_fire_def Let_def fire_waiters_eq [OF d])
qed

lemma filter_out: "set xs \<inter> set cs = {} \<Longrightarrow> filter (\<lambda>c. c \<notin> set cs) xs = xs"
  by (auto simp: filter_id_conv)

lemma inv_waiting: "hub_inv h \<Longrightarrow> distinct (waiting h)" "hub_inv h \<Longrightarrow> primed h"
  by (auto simp: hub_inv_def fresh_ids_def)

lemma filter_own: "filter (\<lambda>c. c \<notin> set cs) cs = []"
  by (auto simp: filter_empty_conv)

lemma inv_rw:
  assumes "hub_inv h" "rw_enter h = Inr (h', ws)"
  shows "hub_inv h'"
proof -
  note h' = rw_enter_eq [OF assms, THEN conjunct1] and d = inv_waiting [OF assms(1)]
  have "waiting h' = filter (\<lambda>c. c \<notin> set (hb_rw_waiters h)) (waiting h)"
    using d(1) unfolding h' waiting_def by (simp add: filter_own filter_out Int_Un_distrib Int_Un_distrib2 Int_commute)
  moreover have "primed h'" using d(2) unfolding h' primed_def by simp
  ultimately show ?thesis by (rule inv_fire [OF assms(1)]) (simp_all add: h')
qed

lemma inv_ro:
  assumes "hub_inv h" "ro_enter h = (h', ws)"
  shows "hub_inv h'"
proof -
  note h' = ro_enter_eq [OF assms, THEN conjunct1] and d = inv_waiting [OF assms(1)]
  have "waiting h' = filter (\<lambda>c. c \<notin> set (hb_ro_waiters h)) (waiting h)"
    using d(1) unfolding h' waiting_def by (simp add: filter_own filter_out Int_Un_distrib Int_Un_distrib2 Int_commute)
  moreover have "primed h'" using d(2) unfolding h' primed_def by simp
  ultimately show ?thesis by (rule inv_fire [OF assms(1)]) (simp_all add: h')
qed

lemma inv_nt:
  assumes "hub_inv h" "nt_fire h = (h', ws)"
  shows "hub_inv h'"
proof -
  note h' = nt_fire_eq [OF assms, THEN conjunct1] and d = inv_waiting [OF assms(1)]
  have "waiting h' = filter (\<lambda>c. c \<notin> set (hb_nt_waiters h)) (waiting h)"
    using d(1) unfolding h' waiting_def by (simp add: filter_own filter_out Int_Un_distrib Int_Un_distrib2 Int_commute)
  moreover have "primed h'" using d(2) unfolding h' primed_def by simp
  ultimately show ?thesis by (rule inv_fire [OF assms(1)]) (simp_all add: h')
qed

lemma hub_step_inv: "hub_step nm h h' \<Longrightarrow> hub_inv h \<Longrightarrow> hub_inv h'"
  by (induction rule: hub_step.induct)
    (blast intro: inv_schedule inv_now inv_poll inv_drop inv_exit inv_rw inv_ro inv_nt)+

lemma hub_reachable_inv: "hub_reachable nm h \<Longrightarrow> hub_inv h"
  by (induction rule: hub_reachable.induct) (auto intro: inv_init hub_step_inv)

section \<open>Buffered writes\<close>

fun schedule_all :: "(write_target \<Rightarrow> string) \<Rightarrow> ('b, 'l, 'r) hub \<Rightarrow> ('b, 'l, 'r) pending_write list
    \<Rightarrow> ('b, 'l, 'r) hub may_panic" where
  "schedule_all nm h [] = Inr h"
| "schedule_all nm h ((t, v) # ws) = (case schedule nm h t v of Inl e \<Rightarrow> Inl e | Inr h' \<Rightarrow> schedule_all nm h' ws)"

definition buffer :: "('k \<times> 'v) list \<Rightarrow> ('k \<times> 'v) list \<Rightarrow> ('k \<times> 'v) list" where
  "buffer ws acc = fold (\<lambda>(t, v) acc. put_write acc t v) ws acc"

lemma buffer_simps [simp]: "buffer [] acc = acc" "buffer ((t, v) # ws) acc = buffer ws (put_write acc t v)"
  "buffer (ws @ [(t, v)]) acc = put_write (buffer ws acc) t v"
  by (simp_all add: buffer_def)

lemma schedule_all_normal:
  "hb_phase h = Normal \<Longrightarrow> \<exists>cb. schedule_all nm h ws = Inr (h\<lparr>hb_writes := buffer ws (hb_writes h), hb_rw_cb := cb\<rparr>)"
proof (induction nm h ws rule: schedule_all.induct)
  case (1 nm h)
  have "h = h\<lparr>hb_writes := hb_writes h, hb_rw_cb := hb_rw_cb h\<rparr>" by simp
  then show ?case by (metis buffer_simps(1) schedule_all.simps(1))
next
  case (2 nm h t v ws)
  let ?h = "prime_rw (h\<lparr>hb_writes := put_write (hb_writes h) t v\<rparr>)"
  have e: "?h = h\<lparr>hb_writes := put_write (hb_writes h) t v, hb_rw_cb := True\<rparr>" by (simp add: prime_rw_def)
  from 2 obtain cb where "schedule_all nm ?h ws = Inr (?h\<lparr>hb_writes := buffer ws (hb_writes ?h), hb_rw_cb := cb\<rparr>)"
    by (fastforce simp: schedule_def e)
  with "2.prems" show ?case by (auto simp: schedule_def e)
qed

lemma map_of_put_write: "map_of (put_write ws t v) = (map_of ws)(t \<mapsto> v)"
  by (induction ws t v rule: put_write.induct) (auto simp: fun_eq_iff)

lemma set_put_write: "set (put_write ws t v) \<subseteq> insert (t, v) (set ws)"
  by (induction ws t v rule: put_write.induct) auto

lemma buffer_spec:
  "map fst (buffer ws []) = rev (remdups (rev (map fst ws))) \<and> map_of (buffer ws []) = map_of (rev ws) \<and>
     set (buffer ws []) \<subseteq> set ws"
proof (induction ws rule: rev_induct)
  case (snoc x ws)
  obtain t v where x: "x = (t, v)" by (cases x)
  have "set (map fst (buffer ws [])) = set (map fst ws)" using snoc by simp
  then have "fst ` set (buffer ws []) = fst ` set ws" by simp
  with snoc set_put_write [of "buffer ws []" t v] show ?case by (auto simp: x put_write_keys map_of_put_write)
qed simp

lemma apply_all_ok:
  "list_all (\<lambda>(t, v). kind_ok t v \<and> nul_free v) ws \<Longrightarrow> apply_all ws h = Inr (h\<lparr>hb_applied := hb_applied h @ ws\<rparr>)"
proof (induction ws h rule: apply_all.induct)
  case (2 t v ws h)
  then have "apply_write h t v = Inr (h\<lparr>hb_applied := hb_applied h @ [(t, v)]\<rparr>)" by (simp add: apply_write_def)
  with 2 show ?case by simp
qed simp

lemma schedule_then_enter:
  assumes "hb_phase h = Normal" "hb_writes h = []" "list_all (\<lambda>(t, v). kind_ok t v \<and> nul_free v) ws"
  shows "\<exists>h1 h2 wk. schedule_all nm h ws = Inr h1 \<and> hb_applied h1 = hb_applied h \<and>
    rw_enter h1 = Inr (h2, wk) \<and> hb_applied h2 = hb_applied h @ buffer ws [] \<and> hb_writes h2 = []"
proof -
  obtain cb where 1: "schedule_all nm h ws = Inr (h\<lparr>hb_writes := buffer ws [], hb_rw_cb := cb\<rparr>)"
    using schedule_all_normal [OF assms(1), of nm ws] assms(2) by auto
  have "list_all (\<lambda>(t, v). kind_ok t v \<and> nul_free v) (buffer ws [])"
    using assms(3) buffer_spec [of ws] by (auto simp: list_all_iff)
  note apply_all_ok [OF this]
  with 1 show ?thesis by (simp add: rw_enter_def Let_def split_def)
qed

section \<open>Properties\<close>

text \<open>C3: No wakeup is lost: in every reachable state a future that is still waiting has a waker, is on
  the list of exactly the kind it awaits, and the callback that will fire that list is registered;
  buffered writes always have a ReadWrite callback registered, and none are left over while the
  ReadWrite region is active.\<close>

theorem phase_no_lost_wakeup:
  assumes "hub_reachable nm h"
  shows "(hb_writes h \<noteq> [] \<longrightarrow> hb_rw_cb h \<and> hb_phase h \<noteq> ReadWrite) \<and>
    (\<forall>c t. hb_cells h c = Some t \<and> \<not> tg_fired t \<longrightarrow> tg_waker t \<noteq> None \<and>
       (c \<in> set (hb_rw_waiters h) \<and> hb_rw_cb h \<or> c \<in> set (hb_ro_waiters h) \<and> hb_ro_cb h \<or>
        c \<in> set (hb_nt_waiters h) \<and> hb_nt_cb h))"
proof -
  have p: "primed h" and a: "all_parked (waiting h) (hb_cells h)"
    using hub_reachable_inv [OF assms] by (auto simp: hub_inv_def)
  have "hb_writes h \<noteq> [] \<Longrightarrow> hb_rw_cb h \<and> hb_phase h \<noteq> ReadWrite" using p by (auto simp: primed_def)
  moreover have "c \<in> set (hb_rw_waiters h) \<and> hb_rw_cb h \<or> c \<in> set (hb_ro_waiters h) \<and> hb_ro_cb h \<or>
      c \<in> set (hb_nt_waiters h) \<and> hb_nt_cb h" if "c \<in> set (waiting h)" for c
    using that p by (auto simp: waiting_def primed_def)
  ultimately show ?thesis using a unfolding all_parked_def by blast
qed

text \<open>C33: The ReadOnly region is read-only: no operation performed there hands a write to the simulator
  or buffers one, and both write paths panic.\<close>

theorem read_only_is_read_only:
  assumes "hb_phase h = ReadOnly"
  shows "(\<forall>h'. hub_step nm h h' \<longrightarrow> hb_applied h' = hb_applied h \<and> hb_writes h' = hb_writes h) \<and>
    (\<exists>msg. schedule nm h t v = panics msg) \<and> (\<exists>msg. write_now nm h t v = panics msg)"
proof -
  have "hb_applied h' = hb_applied h \<and> hb_writes h' = hb_writes h" if "hub_step nm h h'" for h'
    using that
  proof cases
    case (hs_poll f w f' r)
    then show ?thesis
      by (auto simp: phase_poll_def Let_def new_cell_def prime_rw_def prime_ro_def prime_nt_def split: option.splits phase_kind.splits if_splits)
  qed (use assms in \<open>auto simp: schedule_def write_now_def deny_write_in_read_only_def phase_drop_def phase_exit_def
    split: option.splits\<close>)
  then show ?thesis using assms by (simp add: schedule_def write_now_def deny_write_in_read_only_def)
qed

text \<open>Scheduled writes coalesce: writes made outside the ReadWrite region reach the simulator only
  when that region starts, one per target, in the order the targets were first written, each with
  the value written last.\<close>

theorem writes_coalesce:
  assumes "hb_phase h = Normal" "hb_writes h = []" "list_all (\<lambda>(t, v). kind_ok t v \<and> nul_free v) ws"
  shows "\<exists>h1 h2 wk d. schedule_all nm h ws = Inr h1 \<and> hb_applied h1 = hb_applied h \<and>
    rw_enter h1 = Inr (h2, wk) \<and> hb_applied h2 = hb_applied h @ d \<and> hb_writes h2 = [] \<and>
    map fst d = rev (remdups (rev (map fst ws))) \<and> map_of d = map_of (rev ws)"
proof -
  obtain h1 h2 wk where "schedule_all nm h ws = Inr h1" "hb_applied h1 = hb_applied h" "rw_enter h1 = Inr (h2, wk)"
    "hb_applied h2 = hb_applied h @ buffer ws []" "hb_writes h2 = []"
    using schedule_then_enter [OF assms] by blast
  then show ?thesis using buffer_spec [of ws] by blast
qed

definition demo_writes :: "(nat, nat, nat) pending_write list" where
  "demo_writes = [(TLogic 1, WU8 3), (TReal 0, WReal 5), (TLogic 1, WU8 4)]"

theorem writes_coalesce_witness:
  "\<exists>h1 h2 wk d. schedule_all (\<lambda>_. []) init_hub demo_writes = Inr h1 \<and> rw_enter h1 = Inr (h2, wk) \<and>
     hb_applied h2 = d \<and> map fst d = [TLogic 1, TReal 0] \<and> map_of d (TLogic 1) = Some (WU8 4)"
proof -
  have "list_all (\<lambda>(t, v). kind_ok t v \<and> nul_free v) demo_writes" by (simp add: demo_writes_def nul_free_def)
  from writes_coalesce [OF _ _ this, of init_hub "\<lambda>_. []"] show ?thesis
    by (auto simp: init_hub_def demo_writes_def)
qed

definition demo_hub :: "(nat, nat, nat) hub" where
  "demo_hub = (case phase_poll init_hub (phase_fut_new PkReadOnly) 7 of Inr (h, _) \<Rightarrow> h | Inl _ \<Rightarrow> init_hub)"

theorem phase_no_lost_wakeup_witness: "hb_cells demo_hub 0 \<noteq> None \<and> 0 \<in> set (hb_ro_waiters demo_hub) \<and> hb_ro_cb demo_hub"
proof -
  obtain f r where p: "phase_poll (init_hub :: (nat, nat, nat) hub) (phase_fut_new PkReadOnly) 7 = Inr (demo_hub, f, r)"
    by (simp add: demo_hub_def phase_poll_def phase_fut_new_def init_hub_def Let_def)
  have "hub_reachable (\<lambda>_. []) demo_hub" by (rule hr_step [OF hr_init hs_poll [OF p]])
  note phase_no_lost_wakeup [OF this, THEN conjunct2, THEN spec, of 0, THEN spec, of "\<lparr>tg_fired = False, tg_waker = Some 7\<rparr>"]
  moreover have "hb_cells demo_hub 0 = Some \<lparr>tg_fired = False, tg_waker = Some 7\<rparr>" "0 \<notin> set (hb_rw_waiters demo_hub)"
    "0 \<notin> set (hb_nt_waiters demo_hub)"
    by (simp_all add: demo_hub_def phase_poll_def phase_fut_new_def init_hub_def Let_def new_cell_def prime_ro_def
        trig_set_waker_def trig_new_def)
  ultimately show ?thesis by auto
qed

theorem read_only_is_read_only_witness:
  "\<exists>msg. schedule (\<lambda>_. ''x'') (init_hub\<lparr>hb_phase := ReadOnly\<rparr> :: (nat, nat, nat) hub) (TLogic 0) (WU8 1) = panics msg"
  using read_only_is_read_only [of "init_hub\<lparr>hb_phase := ReadOnly\<rparr> :: (nat, nat, nat) hub" "\<lambda>_. ''x''" "TLogic 0" "WU8 1"] by simp

end
