(* ===== verification/Logic_Value.thy ===== *)
theory Logic_Value
  imports Rng_Model "HOL-Library.More_List"
begin

text \<open>
  Four-state values (\<open>rustdv-gpi/src/value.rs\<close>), the encoding of integers as VPI vector words
  (\<open>util.rs\<close>) and the value access of a signal handle (\<open>rustdv_gpi.rs\<close>). Big integers come from
  the crate \<open>num-bigint\<close>: their operations are a record of functions that every definition takes,
  and what the code relies on is the locale \<open>big_uint\<close>, in which a big integer denotes a natural
  number. It is interpreted on the naturals. A vector word is the pair of its \<open>aval\<close> and \<open>bval\<close>.
\<close>

section \<open>Big integers\<close>

type_synonym u16 = "16 word"
type_synonym u32 = "32 word"
type_synonym u128 = "128 word"

record 'b big_ops =
  bo_zero :: 'b
  bo_set_bit :: "'b \<Rightarrow> nat \<Rightarrow> bool \<Rightarrow> 'b"
  bo_bit :: "'b \<Rightarrow> nat \<Rightarrow> bool"
  bo_from_slice :: "u32 list \<Rightarrow> 'b"
  bo_u32_digits :: "'b \<Rightarrow> u32 list"
  bo_u64_digits :: "'b \<Rightarrow> u64 list"
  bo_from_u8 :: "u8 \<Rightarrow> 'b"
  bo_shl :: "'b \<Rightarrow> nat \<Rightarrow> 'b"
  bo_sub :: "'b \<Rightarrow> 'b \<Rightarrow> 'b"
  bo_and :: "'b \<Rightarrow> 'b \<Rightarrow> 'b"

text \<open>The number written by little-endian 32-bit digits.\<close>

fun words_value :: "u32 list \<Rightarrow> nat" where
  "words_value [] = 0"
| "words_value (w # ws) = unat w + push_bit 32 (words_value ws)"

locale big_uint =
  fixes B :: "'b big_ops" and val :: "'b \<Rightarrow> nat"
  assumes val_inj: "val x = val y \<Longrightarrow> x = y"
    and val_zero: "val (bo_zero B) = 0"
    and val_set_bit: "val (bo_set_bit B x i True) = set_bit i (val x)"
    and val_bit: "bo_bit B x i = bit (val x) i"
    and val_from_slice: "val (bo_from_slice B ds) = words_value ds"
    and u32_digits: "nth_default 0 (bo_u32_digits B x) i = word_of_nat (drop_bit (32 * i) (val x))"
    and u64_digits: "nth_default 0 (bo_u64_digits B x) i = word_of_nat (drop_bit (64 * i) (val x))"
    and val_from_u8: "val (bo_from_u8 B v) = unat v"
    and val_shl: "val (bo_shl B x n) = push_bit n (val x)"
    and val_sub: "val y \<le> val x \<Longrightarrow> val (bo_sub B x y) = val x - val y"
    and val_and: "val (bo_and B x y) = val x AND val y"

section \<open>Four-state bits and vectors\<close>

datatype logic = LZero | LOne | LX | LZ

definition from_char :: "char \<Rightarrow> logic" where
  "from_char c =
     (if c = CHR ''0'' then LZero else if c = CHR ''1'' then LOne
      else if c = CHR ''z'' \<or> c = CHR ''Z'' then LZ else LX)"

fun to_char :: "logic \<Rightarrow> char" where
  "to_char LZero = CHR ''0''" | "to_char LOne = CHR ''1''" | "to_char LX = CHR ''x''" | "to_char LZ = CHR ''z''"

definition logic_is_resolvable :: "logic \<Rightarrow> bool" where
  "logic_is_resolvable l \<longleftrightarrow> l = LZero \<or> l = LOne"

definition logic_from_bool :: "bool \<Rightarrow> logic" where
  "logic_from_bool b = (if b then LOne else LZero)"

record 'b logic_array =
  la_a :: 'b
  la_b :: 'b
  la_width :: nat

datatype value_error = FourState string | Unavailable | InteriorNul | Width nat nat

definition div_ceil_32 :: "nat \<Rightarrow> nat" where
  "div_ceil_32 w = (w + 31) div 32"

definition mask_last :: "nat \<Rightarrow> u32 list \<Rightarrow> u32 list" where
  "mask_last width ws =
     (if width mod 32 = 0 then ws else butlast ws @ [last ws AND (push_bit (width mod 32) 1 - 1)])"

definition from_vpi_words :: "'b big_ops \<Rightarrow> (u32 \<times> u32) list \<Rightarrow> nat \<Rightarrow> 'b logic_array may_panic" where
  "from_vpi_words B words width =
     (if length words \<noteq> div_ceil_32 width
      then panics (dec_string width @ ''-bit LogicArray needs '' @ dec_string (div_ceil_32 width) @
        '' VPI word(s), got '' @ dec_string (length words))
      else Inr \<lparr>la_a = bo_from_slice B (mask_last width (map fst words)),
                la_b = bo_from_slice B (mask_last width (map snd words)), la_width = width\<rparr>)"

definition binstr_step :: "'b big_ops \<Rightarrow> nat \<times> char \<Rightarrow> 'b \<times> 'b \<times> nat \<Rightarrow> 'b \<times> 'b \<times> nat" where
  "binstr_step B ic st =
     (case st of (a, b, width) \<Rightarrow>
        (case from_char (snd ic) of
           LZero \<Rightarrow> (a, b, width + 1)
         | LOne \<Rightarrow> (bo_set_bit B a (fst ic) True, b, width + 1)
         | LX \<Rightarrow> (bo_set_bit B a (fst ic) True, bo_set_bit B b (fst ic) True, width + 1)
         | LZ \<Rightarrow> (a, bo_set_bit B b (fst ic) True, width + 1)))"

definition from_binstr :: "'b big_ops \<Rightarrow> string \<Rightarrow> 'b logic_array" where
  "from_binstr B s =
     (case fold (binstr_step B) (List.enumerate 0 (rev s)) (bo_zero B, bo_zero B, 0) of
        (a, b, width) \<Rightarrow> \<lparr>la_a = a, la_b = b, la_width = width\<rparr>)"

definition from_u128 :: "'b big_ops \<Rightarrow> u128 \<Rightarrow> nat \<Rightarrow> 'b logic_array" where
  "from_u128 B v width =
     \<lparr>la_a = fold (\<lambda>i a. if v AND push_bit i 1 \<noteq> 0 then bo_set_bit B a i True else a) [0..<min width 128] (bo_zero B),
      la_b = bo_zero B, la_width = width\<rparr>"

definition from_bool :: "'b big_ops \<Rightarrow> bool \<Rightarrow> nat \<Rightarrow> 'b logic_array" where
  "from_bool B v width = from_u128 B (of_bool v) width"

definition from_u8 :: "'b big_ops \<Rightarrow> u8 \<Rightarrow> nat \<Rightarrow> 'b logic_array" where
  "from_u8 B v width = from_u128 B (ucast v) width"

definition from_u16 :: "'b big_ops \<Rightarrow> u16 \<Rightarrow> nat \<Rightarrow> 'b logic_array" where
  "from_u16 B v width = from_u128 B (ucast v) width"

definition from_u32 :: "'b big_ops \<Rightarrow> u32 \<Rightarrow> nat \<Rightarrow> 'b logic_array" where
  "from_u32 B v width = from_u128 B (ucast v) width"

definition from_u64 :: "'b big_ops \<Rightarrow> u64 \<Rightarrow> nat \<Rightarrow> 'b logic_array" where
  "from_u64 B v width = from_u128 B (ucast v) width"

definition from_bigint :: "'b big_ops \<Rightarrow> 'b \<Rightarrow> nat \<Rightarrow> 'b logic_array" where
  "from_bigint B v width =
     \<lparr>la_a = bo_and B v (bo_sub B (bo_shl B (bo_from_u8 B 1) width) (bo_from_u8 B 1)),
      la_b = bo_zero B, la_width = width\<rparr>"

text \<open>The digit iterators yield zero once they are exhausted.\<close>

definition to_vpi_words :: "'b big_ops \<Rightarrow> 'b logic_array \<Rightarrow> (u32 \<times> u32) list" where
  "to_vpi_words B v =
     map (\<lambda>i. (nth_default 0 (bo_u32_digits B (la_a v)) i, nth_default 0 (bo_u32_digits B (la_b v)) i))
       [0..<div_ceil_32 (la_width v)]"

definition la_index :: "'b big_ops \<Rightarrow> 'b logic_array \<Rightarrow> nat \<Rightarrow> logic option" where
  "la_index B v i =
     (if la_width v \<le> i then None
      else (case (bo_bit B (la_a v) i, bo_bit B (la_b v) i) of
          (False, False) \<Rightarrow> Some LZero
        | (True, False) \<Rightarrow> Some LOne
        | (True, True) \<Rightarrow> Some LX
        | (False, True) \<Rightarrow> Some LZ))"

definition to_binstr :: "'b big_ops \<Rightarrow> 'b logic_array \<Rightarrow> string" where
  "to_binstr B v = map (\<lambda>i. to_char (the (la_index B v i))) (rev [0..<la_width v])"

definition is_resolvable :: "'b big_ops \<Rightarrow> 'b logic_array \<Rightarrow> bool" where
  "is_resolvable B v \<longleftrightarrow> la_b v = bo_zero B"

section \<open>Conversions to integers\<close>

definition try_two_state :: "'b big_ops \<Rightarrow> 'b logic_array \<Rightarrow> 'a \<Rightarrow> value_error + 'a" where
  "try_two_state B v x = (if \<not> is_resolvable B v then Inl (FourState (to_binstr B v)) else Inr x)"

definition try_bool :: "'b big_ops \<Rightarrow> 'b logic_array \<Rightarrow> value_error + bool" where
  "try_bool B v = try_two_state B v (la_a v \<noteq> bo_zero B)"

definition try_u8 :: "'b big_ops \<Rightarrow> 'b logic_array \<Rightarrow> value_error + u8" where
  "try_u8 B v = try_two_state B v (ucast (nth_default 0 (bo_u32_digits B (la_a v)) 0))"

definition try_u16 :: "'b big_ops \<Rightarrow> 'b logic_array \<Rightarrow> value_error + u16" where
  "try_u16 B v = try_two_state B v (ucast (nth_default 0 (bo_u32_digits B (la_a v)) 0))"

definition try_u32 :: "'b big_ops \<Rightarrow> 'b logic_array \<Rightarrow> value_error + u32" where
  "try_u32 B v = try_two_state B v (nth_default 0 (bo_u32_digits B (la_a v)) 0)"

definition try_u64 :: "'b big_ops \<Rightarrow> 'b logic_array \<Rightarrow> value_error + u64" where
  "try_u64 B v = try_two_state B v (nth_default 0 (bo_u64_digits B (la_a v)) 0)"

definition try_u128 :: "'b big_ops \<Rightarrow> 'b logic_array \<Rightarrow> value_error + u128" where
  "try_u128 B v = try_two_state B v
     (ucast (nth_default 0 (bo_u64_digits B (la_a v)) 0) OR push_bit 64 (ucast (nth_default 0 (bo_u64_digits B (la_a v)) 1)))"

definition try_bigint :: "'b big_ops \<Rightarrow> 'b logic_array \<Rightarrow> value_error + 'b" where
  "try_bigint B v = try_two_state B v (la_a v)"

section \<open>Bits of digit lists\<close>

lemma div_ceil_32_pos: "w \<noteq> 0 \<Longrightarrow> 0 < div_ceil_32 w"
  by (simp add: div_ceil_32_def div_greater_zero_iff)

lemma length_mask_last: "length ws = div_ceil_32 w \<Longrightarrow> length (mask_last w ws) = div_ceil_32 w"
  using div_ceil_32_pos [of w] by (cases "w = 0") (auto simp: mask_last_def)

lemma words_value_or: "words_value (w # ws) = unat w OR push_bit 32 (words_value ws)"
proof -
  have "unat w AND push_bit 32 (words_value ws) = 0"
    by (rule bit_eqI) (auto simp: bit_simps dest: bit_imp_le_length)
  then show ?thesis by (simp add: disjunctive_add_eq_or)
qed

lemma bit_words_value:
  "bit (words_value ws) n \<longleftrightarrow> n div 32 < length ws \<and> bit (ws ! (n div 32)) (n mod 32)"
proof (induction ws arbitrary: n)
  case (Cons w ws)
  have b: "bit (words_value (w # ws)) n \<longleftrightarrow> bit w n \<or> (32 \<le> n \<and> bit (words_value ws) (n - 32))"
    unfolding words_value_or by (auto simp: bit_simps)
  show ?case
  proof (cases "n < 32")
    case True
    with b show ?thesis by simp
  next
    case False
    then have "\<not> bit w n" using bit_imp_le_length [of w n] by auto
    moreover have "n div 32 = Suc ((n - 32) div 32)" "n mod 32 = (n - 32) mod 32"
      using False by (simp_all add: le_div_geq le_mod_geq)
    ultimately show ?thesis using b Cons.IH [of "n - 32"] False by simp
  qed
qed simp

lemma words_value_digit: "word_of_nat (drop_bit (32 * i) (words_value ws)) = nth_default 0 ws i"
proof (rule bit_word_eqI)
  fix n assume "n < LENGTH(32)"
  then have "(32 * i + n) div 32 = i" "(32 * i + n) mod 32 = n" "n < 32" by simp_all
  then show "bit (word_of_nat (drop_bit (32 * i) (words_value ws)) :: u32) n = bit (nth_default 0 ws i) n"
    by (simp add: bit_simps bit_words_value nth_default_def)
qed

fun decode :: "bool \<Rightarrow> bool \<Rightarrow> logic" where
  "decode False False = LZero" | "decode True False = LOne" | "decode True True = LX" | "decode False True = LZ"

fun encode_a :: "logic \<Rightarrow> bool" where
  "encode_a LZero = False" | "encode_a LOne = True" | "encode_a LX = True" | "encode_a LZ = False"

fun encode_b :: "logic \<Rightarrow> bool" where
  "encode_b LZero = False" | "encode_b LOne = False" | "encode_b LX = True" | "encode_b LZ = True"

lemma decode_encode [simp]: "decode (encode_a l) (encode_b l) = l"
  by (cases l) simp_all

lemma encode_decode [simp]: "encode_a (decode x y) = x" "encode_b (decode x y) = y"
  by (cases x; cases y; simp)+

section \<open>Vectors over any big-integer implementation\<close>

context big_uint
begin

lemma index_decode:
  "la_index B v i = (if la_width v \<le> i then None else Some (decode (bit (val (la_a v)) i) (bit (val (la_b v)) i)))"
  by (auto simp: la_index_def val_bit split: bool.split)

lemma binstr_step_eq:
  "binstr_step B (i, c) (a, b, w) =
     (if encode_a (from_char c) then bo_set_bit B a i True else a, if encode_b (from_char c) then bo_set_bit B b i True else b, w + 1)"
  by (cases "from_char c") (simp_all add: binstr_step_def)

lemma binstr_fold:
  "\<exists>a' b'. fold (binstr_step B) (List.enumerate k cs) (a, b, w) = (a', b', w + length cs) \<and>
     (\<forall>i. bit (val a') i \<longleftrightarrow> bit (val a) i \<or> (k \<le> i \<and> i < k + length cs \<and> encode_a (from_char (cs ! (i - k))))) \<and>
     (\<forall>i. bit (val b') i \<longleftrightarrow> bit (val b) i \<or> (k \<le> i \<and> i < k + length cs \<and> encode_b (from_char (cs ! (i - k)))))"
proof (induction cs arbitrary: k a b w)
  case (Cons c cs)
  let ?a = "if encode_a (from_char c) then bo_set_bit B a k True else a"
  let ?b = "if encode_b (from_char c) then bo_set_bit B b k True else b"
  obtain a' b' where IH: "fold (binstr_step B) (List.enumerate (Suc k) cs) (?a, ?b, w + 1) = (a', b', w + 1 + length cs)"
    "\<And>i. bit (val a') i \<longleftrightarrow> bit (val ?a) i \<or> (Suc k \<le> i \<and> i < Suc k + length cs \<and> encode_a (from_char (cs ! (i - Suc k))))"
    "\<And>i. bit (val b') i \<longleftrightarrow> bit (val ?b) i \<or> (Suc k \<le> i \<and> i < Suc k + length cs \<and> encode_b (from_char (cs ! (i - Suc k))))"
    using Cons.IH [of "Suc k" ?a ?b "w + 1"] by blast
  have s: "bit (val (if P then bo_set_bit B x k True else x)) i \<longleftrightarrow> bit (val x) i \<or> (i = k \<and> P)" for P x i
    by (auto simp: val_set_bit bit_simps)
  have n: "(k \<le> i \<and> i < k + length (c # cs) \<and> Q ((c # cs) ! (i - k))) \<longleftrightarrow>
      (i = k \<and> Q c) \<or> (Suc k \<le> i \<and> i < Suc k + length cs \<and> Q (cs ! (i - Suc k)))" for i Q
    by (cases "i = k") (auto simp: nth_Cons' Suc_diff_Suc Suc_le_eq)
  have "fold (binstr_step B) (List.enumerate k (c # cs)) (a, b, w) = (a', b', w + length (c # cs))"
    using IH(1) by (simp add: binstr_step_eq)
  moreover have "bit (val a') i \<longleftrightarrow> bit (val a) i \<or> (k \<le> i \<and> i < k + length (c # cs) \<and> encode_a (from_char ((c # cs) ! (i - k))))" for i
    unfolding IH(2) s n [of i "\<lambda>x. encode_a (from_char x)"] by auto
  moreover have "bit (val b') i \<longleftrightarrow> bit (val b) i \<or> (k \<le> i \<and> i < k + length (c # cs) \<and> encode_b (from_char ((c # cs) ! (i - k))))" for i
    unfolding IH(3) s n [of i "\<lambda>x. encode_b (from_char x)"] by auto
  ultimately show ?case by blast
qed auto

lemma index_from_binstr:
  "la_width (from_binstr B s) = length s \<and>
     la_index B (from_binstr B s) i = (if length s \<le> i then None else Some (from_char (rev s ! i)))"
proof -
  obtain a b where f: "fold (binstr_step B) (List.enumerate 0 (rev s)) (bo_zero B, bo_zero B, 0) = (a, b, length s)"
    and ab: "\<And>i. bit (val a) i \<longleftrightarrow> i < length s \<and> encode_a (from_char (rev s ! i))"
      "\<And>i. bit (val b) i \<longleftrightarrow> i < length s \<and> encode_b (from_char (rev s ! i))"
    using binstr_fold [of 0 "rev s" "bo_zero B" "bo_zero B" 0] by (auto simp: val_zero)
  show ?thesis by (simp add: from_binstr_def f index_decode ab)
qed

lemma binstr_round_trip: "to_binstr B (from_binstr B s) = map (\<lambda>c. to_char (from_char c)) s"
proof -
  have w: "la_width (from_binstr B s) = length s" using index_from_binstr by blast
  show ?thesis
    by (rule nth_equalityI) (auto simp: to_binstr_def w index_from_binstr rev_nth)
qed

lemma vpi_words_round_trip:
  assumes "from_vpi_words B ws w = Inr v"
  shows "to_vpi_words B v = zip (mask_last w (map fst ws)) (mask_last w (map snd ws))"
proof -
  have l: "length ws = div_ceil_32 w" using assms by (simp add: from_vpi_words_def split: if_splits)
  have v: "v = \<lparr>la_a = bo_from_slice B (mask_last w (map fst ws)), la_b = bo_from_slice B (mask_last w (map snd ws)), la_width = w\<rparr>"
    using assms by (simp add: from_vpi_words_def split: if_splits)
  have m: "length (mask_last w (map f ws)) = length ws" for f :: "u32 \<times> u32 \<Rightarrow> u32"
    using l by (simp add: length_mask_last)
  show ?thesis
  proof (rule nth_equalityI)
    fix i assume "i < length (to_vpi_words B v)"
    then have i: "i < div_ceil_32 w" by (simp add: to_vpi_words_def v)
    have "nth_default 0 (bo_u32_digits B (bo_from_slice B (mask_last w (map f ws)))) i = mask_last w (map f ws) ! i"
      for f :: "u32 \<times> u32 \<Rightarrow> u32"
      unfolding u32_digits val_from_slice words_value_digit using m [of f] l i by (simp add: nth_default_nth)
    then show "to_vpi_words B v ! i = zip (mask_last w (map fst ws)) (mask_last w (map snd ws)) ! i"
      using i l m by (simp add: to_vpi_words_def v)
  qed (simp add: to_vpi_words_def v m l)
qed

lemma val_from_u128: "val (la_a (from_u128 B v w)) = unat (take_bit w v)" "la_b (from_u128 B v w) = bo_zero B"
proof -
  have "bit (val (fold (\<lambda>i a. if v AND push_bit i 1 \<noteq> 0 then bo_set_bit B a i True else a) [0..<n] (bo_zero B))) i
      \<longleftrightarrow> i < n \<and> bit v i" for n i
  proof (induction n)
    case (Suc n)
    have "v AND push_bit n 1 \<noteq> 0 \<longleftrightarrow> bit v n" by (rule bit_iff_and_push_bit_not_eq_0 [symmetric])
    with Suc show ?case by (auto simp: val_set_bit bit_set_bit_iff less_Suc_eq simp del: push_bit_of_1)
  qed (simp add: val_zero)
  then show "val (la_a (from_u128 B v w)) = unat (take_bit w v)"
    by (intro bit_eqI) (auto simp: from_u128_def bit_simps dest: bit_imp_le_length)
  show "la_b (from_u128 B v w) = bo_zero B" by (simp add: from_u128_def)
qed

lemma u128_round_trip: "try_u128 B (from_u128 B v w) = Inr (take_bit w v)"
proof -
  let ?x = "take_bit w v"
  have "(ucast (word_of_nat (unat ?x) :: u64) OR push_bit 64 (ucast (word_of_nat (drop_bit 64 (unat ?x)) :: u64))) = ?x"
    by (rule bit_word_eqI) (auto simp: bit_simps)
  then show ?thesis
    by (simp add: try_u128_def try_two_state_def is_resolvable_def u64_digits val_from_u128)
qed

lemma u64_round_trip: "try_u64 B (from_u64 B v w) = Inr (take_bit w v)"
proof -
  have "(word_of_nat (unat (take_bit w (ucast v :: u128))) :: u64) = take_bit w v"
    by (rule bit_word_eqI) (auto simp: bit_simps)
  then show ?thesis
    by (simp add: try_u64_def from_u64_def try_two_state_def is_resolvable_def u64_digits val_from_u128)
qed

lemma val_from_bigint: "val (la_a (from_bigint B x w)) = take_bit w (val x)"
proof -
  have "val (bo_sub B (bo_shl B (bo_from_u8 B 1) w) (bo_from_u8 B 1)) = mask w"
    by (subst val_sub) (simp_all add: val_shl val_from_u8 push_bit_eq_mult mask_eq_exp_minus_1)
  then show ?thesis by (simp add: from_bigint_def val_and take_bit_eq_mask)
qed

lemma resolvable_iff:
  assumes "val (la_b v) < 2 ^ la_width v"
  shows "is_resolvable B v \<longleftrightarrow> list_all (\<lambda>i. logic_is_resolvable (the (la_index B v i))) [0..<la_width v]"
proof -
  have "la_b v = bo_zero B \<longleftrightarrow> val (la_b v) = 0" using val_inj val_zero by metis
  also have "\<dots> \<longleftrightarrow> (\<forall>i < la_width v. \<not> bit (val (la_b v)) i)"
  proof -
    have "take_bit (la_width v) (val (la_b v)) = val (la_b v)" using assms by (simp add: take_bit_nat_eq_self)
    then show ?thesis by (metis bit_0_eq bit_eqI bit_take_bit_iff bot_apply bot_bool_def)
  qed
  also have "\<dots> \<longleftrightarrow> list_all (\<lambda>i. logic_is_resolvable (the (la_index B v i))) [0..<la_width v]"
  proof -
    have "logic_is_resolvable (decode x y) \<longleftrightarrow> \<not> y" for x y by (cases x; cases y) (simp_all add: logic_is_resolvable_def)
    then show ?thesis by (auto simp: list_all_iff index_decode)
  qed
  finally show ?thesis by (simp add: is_resolvable_def)
qed

lemma from_binstr_bound: "val (la_a (from_binstr B s)) < 2 ^ length s" "val (la_b (from_binstr B s)) < 2 ^ length s"
proof -
  obtain a b where f: "fold (binstr_step B) (List.enumerate 0 (rev s)) (bo_zero B, bo_zero B, 0) = (a, b, length s)"
    and ab: "\<And>i. bit (val a) i \<Longrightarrow> i < length s" "\<And>i. bit (val b) i \<Longrightarrow> i < length s"
    using binstr_fold [of 0 "rev s" "bo_zero B" "bo_zero B" 0] by (auto simp: val_zero)
  have "x < 2 ^ length s" if "\<And>i. bit x i \<Longrightarrow> i < length s" for x :: nat
  proof -
    have "take_bit (length s) x = x" by (rule bit_eqI) (auto simp: bit_take_bit_iff dest: that)
    then show ?thesis by (simp add: take_bit_nat_eq_self_iff)
  qed
  from this [OF ab(1)] this [OF ab(2)] f
  show "val (la_a (from_binstr B s)) < 2 ^ length s" "val (la_b (from_binstr B s)) < 2 ^ length s"
    by (simp_all add: from_binstr_def)
qed

lemma resolvable_from_binstr:
  "is_resolvable B (from_binstr B s) \<longleftrightarrow> list_all (\<lambda>c. c = CHR ''0'' \<or> c = CHR ''1'') s"
proof -
  have r: "logic_is_resolvable (from_char c) \<longleftrightarrow> c = CHR ''0'' \<or> c = CHR ''1''" for c
    by (auto simp: from_char_def logic_is_resolvable_def)
  have w: "la_width (from_binstr B s) = length s" using index_from_binstr by blast
  have "is_resolvable B (from_binstr B s) \<longleftrightarrow> (\<forall>i < length s. logic_is_resolvable (from_char (rev s ! i)))"
    using resolvable_iff [of "from_binstr B s"] from_binstr_bound
    by (auto simp: w list_all_iff index_from_binstr)
  also have "\<dots> \<longleftrightarrow> list_all (\<lambda>c. logic_is_resolvable (from_char c)) (rev s)"
    by (auto simp: list_all_length)
  finally show ?thesis by (simp add: r)
qed

end

section \<open>Natural numbers as big integers\<close>

function nat_digits :: "nat \<Rightarrow> nat \<Rightarrow> nat list" where
  "nat_digits k x = (if x = 0 \<or> k = 0 then [] else take_bit k x # nat_digits k (drop_bit k x))"
  by pat_completeness auto
termination
proof (relation "measure snd")
  fix k x :: nat assume "\<not> (x = 0 \<or> k = 0)"
  then have "x div 2 ^ k < x" using one_less_power [of "2 :: nat" k] by (intro div_less_dividend) auto
  then show "((k, drop_bit k x), (k, x)) \<in> measure snd" by (simp add: drop_bit_eq_div)
qed simp

declare nat_digits.simps [simp del]

lemma nat_digits_nth: "0 < k \<Longrightarrow> nth_default 0 (nat_digits k x) i = take_bit k (drop_bit (k * i) x)"
proof (induction i arbitrary: x)
  case 0
  then show ?case by (subst nat_digits.simps) simp
next
  case (Suc i)
  then show ?case by (subst nat_digits.simps) (simp add: add.commute)
qed

definition nat_ops :: "nat big_ops" where
  "nat_ops = \<lparr>bo_zero = 0, bo_set_bit = (\<lambda>x i b. if b then set_bit i x else unset_bit i x), bo_bit = bit,
     bo_from_slice = words_value, bo_u32_digits = (\<lambda>x. map word_of_nat (nat_digits 32 x)),
     bo_u64_digits = (\<lambda>x. map word_of_nat (nat_digits 64 x)), bo_from_u8 = unat,
     bo_shl = (\<lambda>x n. push_bit n x), bo_sub = (-), bo_and = (AND)\<rparr>"

lemma nth_default_map_word: "nth_default 0 (map word_of_nat ds) i = word_of_nat (nth_default 0 ds i)"
  by (simp add: nth_default_def)

lemma word_of_nat_take_bit: "(word_of_nat (take_bit LENGTH('a) x) :: 'a::len word) = word_of_nat x"
  by (rule bit_word_eqI) (simp add: bit_simps)

interpretation nb: big_uint nat_ops "\<lambda>x. x"
  by unfold_locales
    (simp_all add: nat_ops_def nth_default_map_word nat_digits_nth
      word_of_nat_take_bit [where 'a = 32, simplified] word_of_nat_take_bit [where 'a = 64, simplified])

section \<open>Properties\<close>

text \<open>C34: For any big-integer implementation that behaves as documented, four-state vectors survive
  their encodings: a bit string comes back with its bits in canonical spelling, VPI words come back
  with the bits beyond the width cleared, and an integer comes back reduced to the width.\<close>

theorem logic_array_round_trips:
  assumes "big_uint B val"
  shows "to_binstr B (from_binstr B s) = map (\<lambda>c. to_char (from_char c)) s \<and>
    (length ws = div_ceil_32 w \<longrightarrow>
       (\<exists>v. from_vpi_words B ws w = Inr v \<and> to_vpi_words B v = zip (mask_last w (map fst ws)) (mask_last w (map snd ws)))) \<and>
    try_u128 B (from_u128 B x w) = Inr (take_bit w x) \<and> try_u64 B (from_u64 B y w) = Inr (take_bit w y)"
proof -
  have "\<exists>v. from_vpi_words B ws w = Inr v" if "length ws = div_ceil_32 w"
    using that by (simp add: from_vpi_words_def)
  then show ?thesis
    using big_uint.binstr_round_trip [OF assms] big_uint.vpi_words_round_trip [OF assms]
      big_uint.u128_round_trip [OF assms] big_uint.u64_round_trip [OF assms] by blast
qed

theorem logic_array_round_trips_witness:
  "to_binstr nat_ops (from_binstr nat_ops ''1xZ0'') = ''1xz0'' \<and> try_u64 nat_ops (from_u64 nat_ops 0xFF 4) = Inr 0xF"
proof -
  have "take_bit 4 (0xFF :: u64) = 0xF" by (simp add: take_bit_eq_mask mask_eq_exp_minus_1)
  then show ?thesis
    using logic_array_round_trips [OF nb.big_uint_axioms, of "''1xZ0''" "[]" 4 0 "0xFF"] by (simp add: from_char_def)
qed

text \<open>A vector is refused as an integer, with its rendering in the error, exactly when it has a bit
  that is neither zero nor one.\<close>

theorem four_state_rejected:
  assumes "big_uint B val"
  shows "try_u64 B (from_binstr B s) =
    (if list_all (\<lambda>c. c = CHR ''0'' \<or> c = CHR ''1'') s
     then Inr (nth_default 0 (bo_u64_digits B (la_a (from_binstr B s))) 0)
     else Inl (FourState (map (\<lambda>c. to_char (from_char c)) s)))"
  by (simp add: try_u64_def try_two_state_def big_uint.resolvable_from_binstr [OF assms] big_uint.binstr_round_trip [OF assms])

theorem four_state_rejected_witness: "try_u64 nat_ops (from_binstr nat_ops ''1x'') = Inl (FourState ''1x'')"
  using four_state_rejected [OF nb.big_uint_axioms, of "''1x''"] by (simp add: from_char_def)

end
