(* ===== verification/Gpi_Signal.thy ===== *)
theory Gpi_Signal
  imports Logic_Value
begin

text \<open>
  Reading and writing signals (\<open>LogicHandle\<close> of \<open>rustdv-gpi/src/rustdv_gpi.rs\<close>, \<open>util.rs\<close>).
  What the simulator returns for a vector read is an argument: nothing, when it supplies no vector
  representation, or its words. A write comes to the words handed to \<open>vpi_put_value\<close>.
  A read may fail with a value error, and indexing the first word of a signal without words panics.
\<close>

type_synonym vecval = "u32 \<times> u32"
type_synonym 'a reading = "(value_error + 'a) may_panic"

definition rbind :: "'a reading \<Rightarrow> ('a \<Rightarrow> 'c reading) \<Rightarrow> 'c reading" where
  "rbind r f = (case r of Inl p \<Rightarrow> Inl p | Inr (Inl e) \<Rightarrow> Inr (Inl e) | Inr (Inr x) \<Rightarrow> f x)"

lemma rbind_simps [simp]: "rbind (Inr (Inr x)) f = f x" "rbind (Inr (Inl e)) f = Inr (Inl e)" "rbind (Inl p) f = Inl p"
  by (simp_all add: rbind_def)

section \<open>Integers as vector words\<close>

definition words_bool :: "bool \<Rightarrow> vecval list" where
  "words_bool v = [(of_bool v, 0)]"

definition words_u8 :: "u8 \<Rightarrow> vecval list" where
  "words_u8 v = [(ucast v, 0)]"

definition words_u16 :: "u16 \<Rightarrow> vecval list" where
  "words_u16 v = [(ucast v, 0)]"

definition words_u32 :: "u32 \<Rightarrow> vecval list" where
  "words_u32 v = [(v, 0)]"

definition words_u64 :: "u64 \<Rightarrow> vecval list" where
  "words_u64 v = [(ucast v, 0), (ucast (drop_bit 32 v), 0)]"

definition words_u128 :: "u128 \<Rightarrow> vecval list" where
  "words_u128 v = [(ucast v, 0), (ucast (drop_bit 32 v), 0), (ucast (drop_bit 64 v), 0), (ucast (drop_bit 96 v), 0)]"

section \<open>Reading\<close>

definition get_vpi_words :: "nat \<Rightarrow> vecval list option \<Rightarrow> vecval list reading" where
  "get_vpi_words width raw = (case raw of None \<Rightarrow> Inr (Inl Unavailable) | Some ws \<Rightarrow> Inr (Inr (take (div_ceil_32 width) ws)))"

definition get_logic :: "'b big_ops \<Rightarrow> nat \<Rightarrow> vecval list option \<Rightarrow> 'b logic_array reading" where
  "get_logic B width raw =
     rbind (get_vpi_words width raw)
       (\<lambda>words. case from_vpi_words B words width of Inl p \<Rightarrow> Inl p | Inr v \<Rightarrow> Inr (Inr v))"

definition used_mask :: "nat \<Rightarrow> bool \<Rightarrow> u32" where
  "used_mask width last_word = (if last_word \<and> width mod 32 \<noteq> 0 then push_bit (width mod 32) 1 - 1 else - 1)"

definition get_vpi_word :: "'b big_ops \<Rightarrow> nat \<Rightarrow> vecval list option \<Rightarrow> vecval \<Rightarrow> bool \<Rightarrow> u32 reading" where
  "get_vpi_word B width raw word last_word =
     (let m = used_mask width last_word in
      if snd word AND m \<noteq> 0
      then rbind (get_logic B width raw) (\<lambda>v. Inr (Inl (FourState (to_binstr B v))))
      else Inr (Inr (fst word AND m)))"

definition check_size :: "nat \<Rightarrow> nat \<Rightarrow> unit reading" where
  "check_size width want = (if want < width then Inr (Inl (Width want width)) else Inr (Inr ()))"

definition get_first :: "'b big_ops \<Rightarrow> nat \<Rightarrow> vecval list option \<Rightarrow> u32 reading" where
  "get_first B width raw =
     rbind (get_vpi_words width raw)
       (\<lambda>words. case words of [] \<Rightarrow> panics ''index out of bounds: the len is 0 but the index is 0''
          | w # _ \<Rightarrow> get_vpi_word B width raw w True)"

definition get_bool :: "'b big_ops \<Rightarrow> nat \<Rightarrow> vecval list option \<Rightarrow> bool reading" where
  "get_bool B width raw = rbind (check_size width 1) (\<lambda>_. rbind (get_first B width raw) (\<lambda>x. Inr (Inr (x \<noteq> 0))))"

definition get_u8 :: "'b big_ops \<Rightarrow> nat \<Rightarrow> vecval list option \<Rightarrow> u8 reading" where
  "get_u8 B width raw = rbind (check_size width 8) (\<lambda>_. rbind (get_first B width raw) (\<lambda>x. Inr (Inr (ucast x))))"

definition get_u16 :: "'b big_ops \<Rightarrow> nat \<Rightarrow> vecval list option \<Rightarrow> u16 reading" where
  "get_u16 B width raw = rbind (check_size width 16) (\<lambda>_. rbind (get_first B width raw) (\<lambda>x. Inr (Inr (ucast x))))"

definition get_u32 :: "'b big_ops \<Rightarrow> nat \<Rightarrow> vecval list option \<Rightarrow> u32 reading" where
  "get_u32 B width raw = rbind (check_size width 32) (\<lambda>_. get_first B width raw)"

text \<open>The loops of the wide reads: \<open>n\<close> words in all, \<open>index\<close> the number of the next one.\<close>

fun get_loop :: "'b big_ops \<Rightarrow> nat \<Rightarrow> vecval list option \<Rightarrow> nat \<Rightarrow> nat \<Rightarrow> vecval list \<Rightarrow> 'w::len word \<Rightarrow> 'w word reading" where
  "get_loop B width raw n index [] result = Inr (Inr result)"
| "get_loop B width raw n index (word # rest) result =
     rbind (get_vpi_word B width raw word (index + 1 = n))
       (\<lambda>x. get_loop B width raw n (index + 1) rest (result OR push_bit (index * 32) (ucast x)))"

definition get_u64 :: "'b big_ops \<Rightarrow> nat \<Rightarrow> vecval list option \<Rightarrow> u64 reading" where
  "get_u64 B width raw =
     rbind (check_size width 64) (\<lambda>_. rbind (get_vpi_words width raw)
       (\<lambda>words. get_loop B width raw (length words) 0 words 0))"

definition get_u128 :: "'b big_ops \<Rightarrow> nat \<Rightarrow> vecval list option \<Rightarrow> u128 reading" where
  "get_u128 B width raw =
     rbind (check_size width 128) (\<lambda>_. rbind (get_vpi_words width raw)
       (\<lambda>words. get_loop B width raw (length words) 0 words 0))"

fun digits_loop :: "'b big_ops \<Rightarrow> nat \<Rightarrow> vecval list option \<Rightarrow> nat \<Rightarrow> nat \<Rightarrow> vecval list \<Rightarrow> u32 list \<Rightarrow> u32 list reading" where
  "digits_loop B width raw n index [] digits = Inr (Inr digits)"
| "digits_loop B width raw n index (word # rest) digits =
     rbind (get_vpi_word B width raw word (index + 1 = n))
       (\<lambda>x. digits_loop B width raw n (index + 1) rest (digits @ [x]))"

definition get_bigint :: "'b big_ops \<Rightarrow> nat \<Rightarrow> vecval list option \<Rightarrow> 'b reading" where
  "get_bigint B width raw =
     rbind (get_vpi_words width raw) (\<lambda>words. rbind (digits_loop B width raw (length words) 0 words [])
       (\<lambda>digits. Inr (Inr (bo_from_slice B digits))))"

section \<open>Writing\<close>

definition mask_vector_words :: "nat \<Rightarrow> vecval list \<Rightarrow> vecval list" where
  "mask_vector_words width ws =
     (if width mod 32 = 0 then ws
      else butlast ws @ [(fst (last ws) AND (push_bit (width mod 32) 1 - 1), snd (last ws) AND (push_bit (width mod 32) 1 - 1))])"

definition set_vector_words :: "nat \<Rightarrow> vecval list \<Rightarrow> vecval list" where
  "set_vector_words width ws =
     (let n = div_ceil_32 width in
      if length ws = n then mask_vector_words width ws
      else if n < length ws then mask_vector_words width (take n ws)
      else ws @ replicate (n - length ws) (0, 0))"

definition set_bool :: "nat \<Rightarrow> bool \<Rightarrow> vecval list" where
  "set_bool width v = set_vector_words width (words_bool v)"

definition set_u8 :: "nat \<Rightarrow> u8 \<Rightarrow> vecval list" where
  "set_u8 width v = set_vector_words width (words_u8 v)"

definition set_u16 :: "nat \<Rightarrow> u16 \<Rightarrow> vecval list" where
  "set_u16 width v = set_vector_words width (words_u16 v)"

definition set_u32 :: "nat \<Rightarrow> u32 \<Rightarrow> vecval list" where
  "set_u32 width v = set_vector_words width (words_u32 v)"

definition set_u64 :: "nat \<Rightarrow> u64 \<Rightarrow> vecval list" where
  "set_u64 width v = set_vector_words width (words_u64 v)"

definition set_u128 :: "nat \<Rightarrow> u128 \<Rightarrow> vecval list" where
  "set_u128 width v = set_vector_words width (words_u128 v)"

definition set_bigint :: "'b big_ops \<Rightarrow> nat \<Rightarrow> 'b \<Rightarrow> vecval list" where
  "set_bigint B width v = set_vector_words width (map (\<lambda>a. (a, 0)) (bo_u32_digits B v))"

definition set_logic :: "'b big_ops \<Rightarrow> nat \<Rightarrow> 'b logic_array \<Rightarrow> vecval list" where
  "set_logic B width v = set_vector_words width (to_vpi_words B v)"

section \<open>Time\<close>

text \<open>The two halves of a VPI time and back.\<close>

definition simtime :: "u64 \<Rightarrow> u32 \<times> u32" where
  "simtime steps = (ucast (drop_bit 32 steps), ucast (steps AND 0xFFFFFFFF))"

definition sim_time_steps :: "u32 \<times> u32 \<Rightarrow> u64" where
  "sim_time_steps t = (push_bit 32 (ucast (fst t)) OR ucast (snd t))"

section \<open>Masking\<close>

lemma bit_used_mask: "bit (used_mask width l) i \<longleftrightarrow> i < (if l \<and> width mod 32 \<noteq> 0 then width mod 32 else 32)"
proof -
  have "(push_bit (width mod 32) 1 - 1 :: u32) = mask (width mod 32)" by (simp add: mask_eq_exp_minus_1)
  then show ?thesis by (auto simp: used_mask_def bit_mask_iff intro: order_less_trans [OF _ mod_less_divisor])
qed

fun masked :: "nat \<Rightarrow> u32 list \<Rightarrow> u32 list" where
  "masked width [] = []"
| "masked width (w # ws) = (w AND used_mask width (ws = [])) # masked width ws"

lemma length_masked [simp]: "length (masked width ws) = length ws"
  by (induction ws) auto

lemma masked_nth: "i < length ws \<Longrightarrow> masked width ws ! i = ws ! i AND used_mask width (Suc i = length ws)"
  by (induction ws arbitrary: i) (auto simp: nth_Cons split: nat.split)

lemma last_mask: "width mod 32 \<noteq> 0 \<Longrightarrow> used_mask width True = push_bit (width mod 32) 1 - 1"
  "width mod 32 = 0 \<Longrightarrow> used_mask width l = - 1" "used_mask width False = - 1"
  by (simp_all add: used_mask_def)

lemma mask_last_masked: "length ws = div_ceil_32 width \<Longrightarrow> mask_last width ws = masked width ws"
proof (rule nth_equalityI)
  assume l: "length ws = div_ceil_32 width"
  then show "length (mask_last width ws) = length (masked width ws)" by (simp add: length_mask_last)
  fix i assume "i < length (mask_last width ws)"
  then have i: "i < length ws" by (simp add: length_mask_last [OF l] l)
  then have "ws \<noteq> []" by auto
  with i show "mask_last width ws ! i = masked width ws ! i"
    by (cases "Suc i = length ws")
      (auto simp: mask_last_def masked_nth last_mask nth_append nth_butlast last_conv_nth dest: sym [of "Suc i"])
qed

lemma div_ceil_32_split: "div_ceil_32 w = w div 32 + (if w mod 32 = 0 then 0 else 1)"
proof (cases "w mod 32 = 0")
  case True
  then obtain q where "w = 32 * q" by auto
  then show ?thesis by (simp add: div_ceil_32_def)
next
  case False
  then have "w + 31 = (w mod 32 - 1) + 32 * (w div 32 + 1)" by (simp add: algebra_simps)
  then have "(w + 31) div 32 = (w mod 32 - 1) div 32 + (w div 32 + 1)" by (metis div_mult_self2 zero_neq_numeral add.commute)
  moreover have "w mod 32 - 1 < 32" using mod_less_divisor [of 32 w] by linarith
  ultimately show ?thesis using False by (simp add: div_ceil_32_def)
qed

lemma less_by_word: "(n :: nat) < w \<longleftrightarrow> n div 32 < w div 32 \<or> n div 32 = w div 32 \<and> n mod 32 < w mod 32"
proof -
  have "32 * a + b < 32 * q + r \<longleftrightarrow> a < q \<or> a = q \<and> b < r" if "b < 32" "r < 32" for a b q r :: nat
    using that by (cases a q rule: linorder_cases) auto
  from this [of "n mod 32" "w mod 32" "n div 32" "w div 32"] show ?thesis by simp
qed

lemma words_value_masked:
  assumes "length ws = div_ceil_32 width"
  shows "words_value (masked width ws) = take_bit width (words_value ws)"
proof (rule bit_eqI)
  fix n
  have c: "n < width \<longleftrightarrow> n div 32 < length ws \<and>
      n mod 32 < (if Suc (n div 32) = length ws \<and> width mod 32 \<noteq> 0 then width mod 32 else 32)"
    unfolding assms div_ceil_32_split less_by_word [of n width] by (cases "width mod 32 = 0") auto
  show "bit (words_value (masked width ws)) n = bit (take_bit width (words_value ws)) n"
    using c by (auto simp: bit_words_value masked_nth bit_and_iff bit_used_mask bit_take_bit_iff)
qed

section \<open>Reading back\<close>

definition two_state :: "nat \<Rightarrow> vecval list \<Rightarrow> bool" where
  "two_state width ws \<longleftrightarrow> list_all (\<lambda>b. b = 0) (masked width (map snd ws))"

lemma word_of_words_value:
  "(word_of_nat (words_value (w # ws)) :: 'w::len word) = ucast w OR push_bit 32 (word_of_nat (words_value ws))"
  unfolding words_value_or by (rule bit_word_eqI) (auto simp: bit_simps)

lemma get_loop_value:
  "two_state width ws \<Longrightarrow>
     get_loop B width raw (k + length ws) k ws r =
       Inr (Inr (r OR push_bit (k * 32) (word_of_nat (words_value (masked width (map fst ws))) :: 'w::len word)))"
proof (induction ws arbitrary: k r)
  case (Cons w ws)
  have z: "snd w AND used_mask width (ws = []) = 0" and t: "two_state width ws"
    using Cons.prems by (simp_all add: two_state_def)
  have l: "(k + 1 = k + length (w # ws)) = (ws = [])" by auto
  have w: "get_vpi_word B width raw w (k + 1 = k + length (w # ws)) = Inr (Inr (fst w AND used_mask width (ws = [])))"
    unfolding l by (simp add: get_vpi_word_def z)
  let ?x = "ucast (fst w AND used_mask width (ws = [])) :: 'w word"
  have "get_loop B width raw (k + length (w # ws)) k (w # ws) r =
      get_loop B width raw (k + 1 + length ws) (k + 1) ws (r OR push_bit (k * 32) ?x)"
    using w by (simp del: get_loop.simps(1))
  also have "\<dots> = Inr (Inr ((r OR push_bit (k * 32) ?x) OR
      push_bit ((k + 1) * 32) (word_of_nat (words_value (masked width (map fst ws))))))"
    by (rule Cons.IH [OF t])
  also have "(r OR push_bit (k * 32) ?x) OR push_bit ((k + 1) * 32) (word_of_nat (words_value (masked width (map fst ws)))) =
      r OR push_bit (k * 32) (word_of_nat (words_value (masked width (map fst (w # ws)))))"
    unfolding list.map masked.simps word_of_words_value
    by (rule bit_word_eqI) (auto simp: bit_simps algebra_simps)
  finally show ?case .
qed simp

lemma digits_loop_value:
  "two_state width ws \<Longrightarrow>
     digits_loop B width raw (k + length ws) k ws ds = Inr (Inr (ds @ masked width (map fst ws)))"
proof (induction ws arbitrary: k ds)
  case (Cons w ws)
  have z: "snd w AND used_mask width (ws = []) = 0" and t: "two_state width ws"
    using Cons.prems by (simp_all add: two_state_def)
  have l: "(k + 1 = k + length (w # ws)) = (ws = [])" by auto
  have w: "get_vpi_word B width raw w (k + 1 = k + length (w # ws)) = Inr (Inr (fst w AND used_mask width (ws = [])))"
    unfolding l by (simp add: get_vpi_word_def z)
  then show ?case using Cons.IH [OF t, of "k + 1" "ds @ [fst w AND used_mask width (ws = [])]"] by simp
qed simp

lemma map_mask_vector:
  "length ws = div_ceil_32 width \<Longrightarrow> map fst (mask_vector_words width ws) = masked width (map fst ws) \<and>
     map snd (mask_vector_words width ws) = masked width (map snd ws)"
proof -
  assume l: "length ws = div_ceil_32 width"
  have "width mod 32 \<noteq> 0 \<Longrightarrow> ws \<noteq> []" using l div_ceil_32_pos [of width] by (cases "width = 0") auto
  then show ?thesis
    using l mask_last_masked [of "map fst ws" width] mask_last_masked [of "map snd ws" width]
    by (auto simp: mask_vector_words_def mask_last_def map_butlast last_map)
qed

lemma masked_zero: "list_all (\<lambda>b. b = 0) bs \<Longrightarrow> list_all (\<lambda>b. b = 0) (masked width bs)"
  by (induction bs) auto

lemma words_value_append: "words_value (xs @ ys) = words_value xs OR push_bit (32 * length xs) (words_value ys)"
proof (induction xs)
  case (Cons x xs)
  have "words_value ((x # xs) @ ys) = unat x OR push_bit 32 (words_value (xs @ ys))"
    unfolding append_Cons by (rule words_value_or)
  also have "\<dots> = (unat x OR push_bit 32 (words_value xs)) OR push_bit (32 + 32 * length xs) (words_value ys)"
    unfolding Cons by (simp add: push_bit_or push_bit_push_bit or.assoc)
  finally show ?case by (simp add: words_value_or [symmetric])
qed simp

lemma words_value_zeros: "words_value (replicate n 0) = 0"
  by (induction n) auto

lemma words_value_bound: "take_bit (32 * length ws) (words_value ws) = words_value ws"
proof (rule bit_eqI)
  fix n
  have "n div 32 < length ws \<Longrightarrow> n < 32 * length ws" by (simp add: less_mult_imp_div_less mult.commute div_less_iff_less_mult)
  then show "bit (take_bit (32 * length ws) (words_value ws)) n = bit (words_value ws) n"
    by (auto simp: bit_take_bit_iff bit_words_value)
qed

lemma div_ceil_32_bounds: "width \<le> 32 * div_ceil_32 width" "m < div_ceil_32 width \<Longrightarrow> 32 * m \<le> width"
proof -
  have w: "width = 32 * (width div 32) + width mod 32" by simp
  have "width mod 32 < 32" by simp
  with w show "width \<le> 32 * div_ceil_32 width" unfolding div_ceil_32_split by (cases "width mod 32 = 0") auto
  assume "m < div_ceil_32 width"
  then have "m \<le> width div 32" unfolding div_ceil_32_split by (auto split: if_splits)
  then show "32 * m \<le> width" using w by linarith
qed

lemma words_value_take: "words_value (take n ws) = take_bit (32 * n) (words_value ws)"
proof (cases "n \<le> length ws")
  case True
  then have "words_value ws = words_value (take n ws) OR push_bit (32 * n) (words_value (drop n ws))"
    using words_value_append [of "take n ws" "drop n ws"] by simp
  then have "take_bit (32 * n) (words_value ws) = take_bit (32 * n) (words_value (take n ws))"
    by (simp add: take_bit_push_bit)
  with True words_value_bound [of "take n ws"] show ?thesis by simp
next
  case False
  then have "take_bit (32 * n) (take_bit (32 * length ws) (words_value ws)) = take_bit (32 * length ws) (words_value ws)"
    by (subst take_bit_take_bit) (simp add: min_def)
  then show ?thesis using False by (simp add: words_value_bound)
qed

lemma set_vector_words_spec:
  assumes "list_all (\<lambda>b. b = 0) (map snd ws)"
  shows "length (set_vector_words width ws) = div_ceil_32 width \<and>
    list_all (\<lambda>b. b = 0) (map snd (set_vector_words width ws)) \<and>
    words_value (map fst (set_vector_words width ws)) = take_bit width (words_value (map fst ws))"
proof -
  let ?n = "div_ceil_32 width"
  have full: "length (mask_vector_words width vs) = ?n \<and> list_all (\<lambda>b. b = 0) (map snd (mask_vector_words width vs)) \<and>
      words_value (map fst (mask_vector_words width vs)) = take_bit width (words_value (map fst vs))"
    if "length vs = ?n" "list_all (\<lambda>b. b = 0) (map snd vs)" for vs
  proof -
    note m = map_mask_vector [OF that(1)]
    have "length (mask_vector_words width vs) = ?n" using arg_cong [OF m [THEN conjunct1], of length] that(1) by simp
    with m that words_value_masked [of "map fst vs" width] masked_zero [OF that(2)] show ?thesis by simp
  qed
  consider "length ws = ?n" | "?n < length ws" | "length ws < ?n" by linarith
  then show ?thesis
  proof cases
    case 1
    with full [OF 1 assms] show ?thesis by (simp add: set_vector_words_def)
  next
    case 2
    have "list_all (\<lambda>b. b = 0) (map snd (take ?n ws))" using assms by (auto simp: list_all_iff dest: in_set_takeD)
    from full [OF _ this] 2 have "length (mask_vector_words width (take ?n ws)) = ?n \<and>
        list_all (\<lambda>b. b = 0) (map snd (mask_vector_words width (take ?n ws))) \<and>
        words_value (map fst (mask_vector_words width (take ?n ws))) = take_bit width (words_value (take ?n (map fst ws)))"
      by (simp add: take_map)
    with 2 div_ceil_32_bounds(1) [of width] show ?thesis
      by (simp add: set_vector_words_def words_value_take min_def)
  next
    case 3
    have "take_bit width (take_bit (32 * length ws) (words_value (map fst ws))) = take_bit (32 * length ws) (words_value (map fst ws))"
      using div_ceil_32_bounds(2) [OF 3] by (subst take_bit_take_bit) (simp add: min_def)
    then have "take_bit width (words_value (map fst ws)) = words_value (map fst ws)"
      by (simp only: words_value_bound [of "map fst ws", unfolded length_map])
    with 3 assms show ?thesis
      by (simp add: set_vector_words_def words_value_append words_value_zeros list_all_iff)
  qed
qed

lemma two_state_read:
  assumes "length ws = div_ceil_32 width" "list_all (\<lambda>b. b = 0) (map snd ws)"
  shows "get_loop B width raw (length ws) 0 ws 0 =
    Inr (Inr (word_of_nat (take_bit width (words_value (map fst ws))) :: 'w::len word))"
proof -
  have "two_state width ws" unfolding two_state_def by (rule masked_zero [OF assms(2)])
  from get_loop_value [OF this, of B raw 0 0] words_value_masked [of "map fst ws" width] assms(1)
  show ?thesis by simp
qed

lemma words_value_u64: "words_value (map fst (words_u64 v)) = unat v"
  by (rule bit_eqI) (auto simp: words_u64_def words_value_or bit_simps simp del: words_value.simps(2) dest: bit_imp_le_length)

lemma words_value_u128: "words_value (map fst (words_u128 v)) = unat v"
proof (rule bit_eqI)
  fix n :: nat
  consider "n < 32" | "32 \<le> n" "n < 64" | "64 \<le> n" "n < 96" | "96 \<le> n" by linarith
  then show "bit (words_value (map fst (words_u128 v))) n = bit (unat v) n"
    by cases (auto simp: words_u128_def words_value_or bit_simps simp del: words_value.simps(2) dest: bit_imp_le_length)
qed

lemma u64_reads_back:
  "get_u64 B width (Some (set_u64 width v)) = Inr (if width \<le> 64 then Inr (take_bit width v) else Inl (Width 64 width))"
proof -
  have z: "list_all (\<lambda>b. b = 0) (map snd (words_u64 v))" by (simp add: words_u64_def)
  have "(word_of_nat (take_bit width (take_bit width (unat v))) :: u64) = take_bit width v"
    by (rule bit_word_eqI) (auto simp: bit_simps)
  with set_vector_words_spec [OF z, of width] show ?thesis
    using two_state_read [of "set_vector_words width (words_u64 v)" width B "Some (set_u64 width v)", where 'w = 64]
    by (auto simp: get_u64_def check_size_def get_vpi_words_def set_u64_def words_value_u64)
qed

lemma u128_reads_back:
  "get_u128 B width (Some (set_u128 width v)) = Inr (if width \<le> 128 then Inr (take_bit width v) else Inl (Width 128 width))"
proof -
  have z: "list_all (\<lambda>b. b = 0) (map snd (words_u128 v))" by (simp add: words_u128_def)
  have "(word_of_nat (take_bit width (take_bit width (unat v))) :: u128) = take_bit width v"
    by (rule bit_word_eqI) (auto simp: bit_simps)
  with set_vector_words_spec [OF z, of width] show ?thesis
    using two_state_read [of "set_vector_words width (words_u128 v)" width B "Some (set_u128 width v)", where 'w = 128]
    by (auto simp: get_u128_def check_size_def get_vpi_words_def set_u128_def words_value_u128)
qed

section \<open>Well-formed vectors\<close>

definition fits :: "('b \<Rightarrow> nat) \<Rightarrow> 'b logic_array \<Rightarrow> bool" where
  "fits val v \<longleftrightarrow> val (la_a v) < 2 ^ la_width v \<and> val (la_b v) < 2 ^ la_width v"

context big_uint
begin

lemma fits_binstr: "fits val (from_binstr B s)"
proof -
  have "la_width (from_binstr B s) = length s" using index_from_binstr by blast
  with from_binstr_bound [of s] show ?thesis by (simp add: fits_def)
qed

lemma fits_u128: "fits val (from_u128 B v w)"
proof -
  have "la_width (from_u128 B v w) = w" by (simp add: from_u128_def)
  then show ?thesis by (simp add: fits_def val_from_u128 val_zero unsigned_take_bit_eq)
qed

lemma fits_bigint: "fits val (from_bigint B x w)"
proof -
  have "la_width (from_bigint B x w) = w" "la_b (from_bigint B x w) = bo_zero B" by (simp_all add: from_bigint_def)
  then show ?thesis by (simp add: fits_def val_from_bigint val_zero)
qed

lemma fits_vpi_words: "from_vpi_words B ws w = Inr v \<Longrightarrow> fits val v"
proof -
  assume r: "from_vpi_words B ws w = Inr v"
  then have l: "length ws = div_ceil_32 w" by (simp add: from_vpi_words_def split: if_splits)
  have "words_value (mask_last w (map f ws)) < 2 ^ w" for f :: "u32 \<times> u32 \<Rightarrow> u32"
    using mask_last_masked [of "map f ws" w] words_value_masked [of "map f ws" w] l by simp
  with r show ?thesis by (auto simp: from_vpi_words_def fits_def val_from_slice split: if_splits)
qed

end

section \<open>Properties\<close>

text \<open>A 64-bit value written to a signal of any width up to 64 bits reads back as the value reduced
  to that width, whatever the simulator is given for wider or narrower word counts, and a wider
  signal is refused with the width error. The same holds for 128-bit values.\<close>

theorem signal_round_trip:
  "get_u64 B width (Some (set_u64 width v)) =
     Inr (if width \<le> 64 then Inr (take_bit width v) else Inl (Width 64 width)) \<and>
   get_u128 B width (Some (set_u128 width x)) =
     Inr (if width \<le> 128 then Inr (take_bit width x) else Inl (Width 128 width))"
  using u64_reads_back u128_reads_back by blast

text \<open>A step count survives the split into the two halves of a VPI time.\<close>

theorem simtime_round_trip: "sim_time_steps (simtime steps) = steps"
proof (rule bit_word_eqI)
  fix n assume "n < LENGTH(64)"
  moreover have "steps AND 0xFFFFFFFF = take_bit 32 steps"
    by (simp add: take_bit_eq_mask mask_eq_exp_minus_1)
  ultimately show "bit (sim_time_steps (simtime steps)) n = bit steps n"
    by (cases "n < 32") (auto simp: sim_time_steps_def simtime_def bit_simps)
qed

text \<open>C35: Every vector the constructors build is well-formed: its two bit planes fit the declared width,
  whatever the value or the words were.\<close>

theorem constructors_fit_width:
  assumes "big_uint B val"
  shows "fits val (from_binstr B s) \<and> fits val (from_bool B b w) \<and> fits val (from_u8 B x8 w) \<and> fits val (from_u16 B x16 w) \<and>
    fits val (from_u32 B x32 w) \<and> fits val (from_u64 B x64 w) \<and> fits val (from_u128 B x w) \<and> fits val (from_bigint B y w) \<and>
    (\<forall>v. from_vpi_words B ws w = Inr v \<longrightarrow> fits val v)"
  using big_uint.fits_binstr [OF assms] big_uint.fits_u128 [OF assms] big_uint.fits_bigint [OF assms] big_uint.fits_vpi_words [OF assms]
  by (simp add: from_bool_def from_u8_def from_u16_def from_u32_def from_u64_def)

theorem constructors_fit_width_witness: "fits (\<lambda>x. x) (from_u8 nat_ops 0xFF 3) \<and> fits (\<lambda>x. x) (from_binstr nat_ops ''x1z'')"
  using constructors_fit_width [OF nb.big_uint_axioms, of "''x1z''" False 3 "0xFF" 0 0 0 0 0 "[]"] by blast

end
