(* ===== verification/Gpi_Handle.thy ===== *)
theory Gpi_Handle
  imports Logic_Value
begin

text \<open>
  Simulator objects and their typed handles: \<open>ObjHandle\<close>, \<open>AnyHandle\<close>, the scope, aggregate, real
  and string handles of \<open>rustdv-gpi/src/rustdv_gpi.rs\<close>, and the wrapper \<open>SimHandle\<close> of
  \<open>rustdv-sim/src/handle.rs\<close>. The VPI is a record of functions on objects: the type code, size and
  names of an object, lookup by name and iteration. A null object is no object.
\<close>

section \<open>The VPI\<close>

record 'h vpi =
  v_type :: "'h \<Rightarrow> int"
  v_size :: "'h \<Rightarrow> int"
  v_name :: "'h \<Rightarrow> string option"
  v_full_name :: "'h \<Rightarrow> string option"
  v_by_name :: "string \<Rightarrow> 'h option \<Rightarrow> 'h option"
  v_iterate :: "int \<Rightarrow> 'h option \<Rightarrow> 'h list"

definition vpiModule :: int where "vpiModule = 32"
definition vpiNet :: int where "vpiNet = 36"
definition vpiReg :: int where "vpiReg = 48"
definition vpiRealVar :: int where "vpiRealVar = 47"
definition vpiStringVar :: int where "vpiStringVar = 616"
definition vpiStructVar :: int where "vpiStructVar = 618"
definition vpiUnionVar :: int where "vpiUnionVar = 619"
definition vpiMember :: int where "vpiMember = 742"

text \<open>Integer, port, memory and the SystemVerilog integral variable types are signals too.\<close>

definition signal_types :: "int list" where
  "signal_types = [vpiNet, vpiReg, 25, 44, 29, 610, 611, 612, 614, 617, 620]"

definition get_str :: "string option \<Rightarrow> string" where
  "get_str s = (case s of None \<Rightarrow> [] | Some t \<Rightarrow> t)"

section \<open>Errors\<close>

datatype handle_error = NotFound string string | WrongKind string string string | NoTopModule

fun handle_error_display :: "handle_error \<Rightarrow> string" where
  "handle_error_display (NotFound name scope) =
     ''no object named '' @ [CHR 0x27] @ name @ [CHR 0x27] @ '' in scope '' @ [CHR 0x27] @ scope @ [CHR 0x27]"
| "handle_error_display (WrongKind name expected actual) =
     [CHR 0x27] @ name @ [CHR 0x27] @ '' is a '' @ actual @ '', expected '' @ expected"
| "handle_error_display NoTopModule = ''no top-level module found''"

fun value_error_display :: "value_error \<Rightarrow> string" where
  "value_error_display (FourState s) = ''value '' @ [CHR 0x27] @ s @ [CHR 0x27] @ '' has x/z bits''"
| "value_error_display Unavailable = ''simulator did not return the requested value''"
| "value_error_display InteriorNul = ''VPI string contains an embedded NUL byte''"
| "value_error_display (Width want given) = ''width mismatch: want '' @ dec_string want @ '', have '' @ dec_string given"

section \<open>Classified handles\<close>

datatype 'h any_handle =
    AHierarchy 'h | ALogic 'h nat | AReal 'h | AString 'h | AStruct 'h | AUnion 'h | AOther 'h

definition classify :: "'h vpi \<Rightarrow> 'h \<Rightarrow> 'h any_handle" where
  "classify V h =
     (let t = v_type V h in
      if t = vpiModule then AHierarchy h
      else if t = vpiRealVar then AReal h
      else if t = vpiStringVar then AString h
      else if t = vpiStructVar then AStruct h
      else if t = vpiUnionVar then AUnion h
      else if t \<in> set signal_types then ALogic h (nat (max (v_size V h) 0))
      else AOther h)"

fun any_object :: "'h any_handle \<Rightarrow> 'h" where
  "any_object (AHierarchy h) = h" | "any_object (ALogic h w) = h" | "any_object (AReal h) = h"
| "any_object (AString h) = h" | "any_object (AStruct h) = h" | "any_object (AUnion h) = h" | "any_object (AOther h) = h"

definition any_wrong_kind :: "'h vpi \<Rightarrow> 'h any_handle \<Rightarrow> string \<Rightarrow> handle_error" where
  "any_wrong_kind V a expected =
     WrongKind (get_str (v_full_name V (any_object a))) expected (''vpiType '' @ int_string (v_type V (any_object a)))"

definition as_logic :: "'h vpi \<Rightarrow> 'h any_handle \<Rightarrow> handle_error + 'h \<times> nat" where
  "as_logic V a = (case a of ALogic h w \<Rightarrow> Inr (h, w) | _ \<Rightarrow> Inl (any_wrong_kind V a ''signal''))"

definition as_hierarchy :: "'h vpi \<Rightarrow> 'h any_handle \<Rightarrow> handle_error + 'h" where
  "as_hierarchy V a = (case a of AHierarchy h \<Rightarrow> Inr h | _ \<Rightarrow> Inl (any_wrong_kind V a ''module''))"

definition as_real :: "'h vpi \<Rightarrow> 'h any_handle \<Rightarrow> handle_error + 'h" where
  "as_real V a = (case a of AReal h \<Rightarrow> Inr h | _ \<Rightarrow> Inl (any_wrong_kind V a ''real''))"

definition as_string :: "'h vpi \<Rightarrow> 'h any_handle \<Rightarrow> handle_error + 'h" where
  "as_string V a = (case a of AString h \<Rightarrow> Inr h | _ \<Rightarrow> Inl (any_wrong_kind V a ''string''))"

definition as_aggregate :: "'h vpi \<Rightarrow> 'h any_handle \<Rightarrow> handle_error + 'h" where
  "as_aggregate V a =
     (case a of AStruct h \<Rightarrow> Inr h | AUnion h \<Rightarrow> Inr h | _ \<Rightarrow> Inl (any_wrong_kind V a ''struct or union''))"

section \<open>Lookup\<close>

definition nul :: char where "nul = CHR 0x00"

definition hier_child :: "'h vpi \<Rightarrow> 'h \<Rightarrow> string \<Rightarrow> (handle_error + 'h any_handle) may_panic" where
  "hier_child V h name =
     (if nul \<in> set name then panics ''NUL in signal name''
      else (case v_by_name V name (Some h) of
          Some o' \<Rightarrow> Inr (Inr (classify V o'))
        | None \<Rightarrow> Inr (Inl (NotFound name (get_str (v_full_name V h))))))"

definition and_then :: "(handle_error + 'a) may_panic \<Rightarrow> ('a \<Rightarrow> handle_error + 'c) \<Rightarrow> (handle_error + 'c) may_panic" where
  "and_then r f = (case r of Inl p \<Rightarrow> Inl p | Inr (Inl e) \<Rightarrow> Inr (Inl e) | Inr (Inr x) \<Rightarrow> Inr (f x))"

definition hier_signal :: "'h vpi \<Rightarrow> 'h \<Rightarrow> string \<Rightarrow> (handle_error + 'h \<times> nat) may_panic" where
  "hier_signal V h name = and_then (hier_child V h name) (as_logic V)"

definition hier_real :: "'h vpi \<Rightarrow> 'h \<Rightarrow> string \<Rightarrow> (handle_error + 'h) may_panic" where
  "hier_real V h name = and_then (hier_child V h name) (as_real V)"

definition hier_string :: "'h vpi \<Rightarrow> 'h \<Rightarrow> string \<Rightarrow> (handle_error + 'h) may_panic" where
  "hier_string V h name = and_then (hier_child V h name) (as_string V)"

definition hier_aggregate :: "'h vpi \<Rightarrow> 'h \<Rightarrow> string \<Rightarrow> (handle_error + 'h) may_panic" where
  "hier_aggregate V h name = and_then (hier_child V h name) (as_aggregate V)"

definition hier_children :: "'h vpi \<Rightarrow> 'h \<Rightarrow> 'h any_handle list" where
  "hier_children V h = concat (map (\<lambda>t. map (classify V) (v_iterate V t (Some h))) [vpiModule, vpiNet, vpiReg])"

text \<open>A member of an aggregate is looked up by its full path from the root.\<close>

definition agg_child :: "'h vpi \<Rightarrow> 'h \<Rightarrow> string \<Rightarrow> (handle_error + 'h any_handle) may_panic" where
  "agg_child V h name =
     (let path = get_str (v_full_name V h) @ ''.'' @ name in
      if nul \<in> set path then panics ''NUL in member name''
      else (case v_by_name V path None of
          Some o' \<Rightarrow> Inr (Inr (classify V o'))
        | None \<Rightarrow> Inr (Inl (NotFound name (get_str (v_full_name V h))))))"

definition agg_children :: "'h vpi \<Rightarrow> 'h \<Rightarrow> 'h any_handle list" where
  "agg_children V h = map (classify V) (v_iterate V vpiMember (Some h))"

definition agg_signal :: "'h vpi \<Rightarrow> 'h \<Rightarrow> string \<Rightarrow> (handle_error + 'h \<times> nat) may_panic" where
  "agg_signal V h name = and_then (agg_child V h name) (as_logic V)"

definition agg_real :: "'h vpi \<Rightarrow> 'h \<Rightarrow> string \<Rightarrow> (handle_error + 'h) may_panic" where
  "agg_real V h name = and_then (agg_child V h name) (as_real V)"

definition agg_string :: "'h vpi \<Rightarrow> 'h \<Rightarrow> string \<Rightarrow> (handle_error + 'h) may_panic" where
  "agg_string V h name = and_then (agg_child V h name) (as_string V)"

definition agg_aggregate :: "'h vpi \<Rightarrow> 'h \<Rightarrow> string \<Rightarrow> (handle_error + 'h) may_panic" where
  "agg_aggregate V h name = and_then (agg_child V h name) (as_aggregate V)"

definition top_modules :: "'h vpi \<Rightarrow> 'h list" where
  "top_modules V = v_iterate V vpiModule None"

definition select_top_module :: "'h vpi \<Rightarrow> string option \<Rightarrow> (handle_error + 'h) may_panic" where
  "select_top_module V explicit =
     (case explicit of
        Some name \<Rightarrow>
          if nul \<in> set name then panics ''NUL in RUSTDV_TOP''
          else (case v_by_name V name None of
              None \<Rightarrow> Inr (Inl (NotFound name ''<top-level>''))
            | Some o' \<Rightarrow> Inr (as_hierarchy V (classify V o')))
      | None \<Rightarrow> (case top_modules V of [] \<Rightarrow> Inr (Inl NoTopModule) | m # _ \<Rightarrow> Inr (Inr m)))"

text \<open>\<open>env\<close> is the value of \<open>RUSTDV_TOP\<close>, whose surrounding white space is dropped.\<close>

definition is_space :: "char \<Rightarrow> bool" where
  "is_space c \<longleftrightarrow> c \<in> {CHR 0x20, CHR 0x09, CHR 0x0A, CHR 0x0B, CHR 0x0C, CHR 0x0D}"

definition trim :: "string \<Rightarrow> string" where
  "trim s = rev (dropWhile is_space (rev (dropWhile is_space s)))"

definition top_module :: "'h vpi \<Rightarrow> string option \<Rightarrow> (handle_error + 'h) may_panic" where
  "top_module V env =
     select_top_module V (case env of None \<Rightarrow> None | Some name \<Rightarrow> if trim name = [] then None else Some (trim name))"

section \<open>The user-facing wrapper\<close>

datatype 'h sim_handle =
    SHierarchy 'h | SLogic 'h nat | SReal 'h | SString 'h | SStruct 'h | SUnion 'h | SOther

fun sim_wrap :: "'h any_handle \<Rightarrow> 'h sim_handle" where
  "sim_wrap (AHierarchy h) = SHierarchy h" | "sim_wrap (ALogic h w) = SLogic h w" | "sim_wrap (AReal h) = SReal h"
| "sim_wrap (AString h) = SString h" | "sim_wrap (AStruct h) = SStruct h" | "sim_wrap (AUnion h) = SUnion h"
| "sim_wrap (AOther h) = SOther"

fun sim_name_kind :: "'h vpi \<Rightarrow> 'h sim_handle \<Rightarrow> string \<times> string" where
  "sim_name_kind V (SHierarchy h) = (get_str (v_full_name V h), ''module'')"
| "sim_name_kind V (SLogic h w) = (get_str (v_full_name V h), ''signal'')"
| "sim_name_kind V (SReal h) = (get_str (v_full_name V h), ''real'')"
| "sim_name_kind V (SString h) = (get_str (v_full_name V h), ''string'')"
| "sim_name_kind V (SStruct h) = (get_str (v_full_name V h), ''struct'')"
| "sim_name_kind V (SUnion h) = (get_str (v_full_name V h), ''union'')"
| "sim_name_kind V SOther = (''<unknown>'', ''unsupported simulator object'')"

definition sim_wrong_kind :: "'h vpi \<Rightarrow> 'h sim_handle \<Rightarrow> string \<Rightarrow> handle_error" where
  "sim_wrong_kind V s expected = (case sim_name_kind V s of (name, actual) \<Rightarrow> WrongKind name expected actual)"

definition sim_as_hierarchy :: "'h vpi \<Rightarrow> 'h sim_handle \<Rightarrow> handle_error + 'h" where
  "sim_as_hierarchy V s = (case s of SHierarchy h \<Rightarrow> Inr h | _ \<Rightarrow> Inl (sim_wrong_kind V s ''module''))"

definition sim_as_signal :: "'h vpi \<Rightarrow> 'h sim_handle \<Rightarrow> handle_error + 'h \<times> nat" where
  "sim_as_signal V s = (case s of SLogic h w \<Rightarrow> Inr (h, w) | _ \<Rightarrow> Inl (sim_wrong_kind V s ''signal''))"

definition sim_as_real :: "'h vpi \<Rightarrow> 'h sim_handle \<Rightarrow> handle_error + 'h" where
  "sim_as_real V s = (case s of SReal h \<Rightarrow> Inr h | _ \<Rightarrow> Inl (sim_wrong_kind V s ''real''))"

definition sim_as_string :: "'h vpi \<Rightarrow> 'h sim_handle \<Rightarrow> handle_error + 'h" where
  "sim_as_string V s = (case s of SString h \<Rightarrow> Inr h | _ \<Rightarrow> Inl (sim_wrong_kind V s ''string''))"

definition sim_as_aggregate :: "'h vpi \<Rightarrow> 'h sim_handle \<Rightarrow> handle_error + 'h" where
  "sim_as_aggregate V s =
     (case s of SStruct h \<Rightarrow> Inr h | SUnion h \<Rightarrow> Inr h | _ \<Rightarrow> Inl (sim_wrong_kind V s ''struct or union''))"

definition sim_is_other :: "'h sim_handle \<Rightarrow> bool" where
  "sim_is_other s \<longleftrightarrow> (case s of SOther \<Rightarrow> True | _ \<Rightarrow> False)"

section \<open>Properties\<close>

lemmas type_codes = vpiModule_def vpiNet_def vpiReg_def vpiRealVar_def vpiStringVar_def vpiStructVar_def vpiUnionVar_def

lemma classify_logic:
  "classify V h = ALogic h' w \<longleftrightarrow> h' = h \<and> v_type V h \<in> set signal_types \<and> w = nat (max (v_size V h) 0)"
  by (auto simp: classify_def Let_def signal_types_def type_codes)

lemma as_logic_classify:
  "as_logic V (classify V h) =
     (if v_type V h \<in> set signal_types then Inr (h, nat (max (v_size V h) 0))
      else Inl (WrongKind (get_str (v_full_name V h)) ''signal'' (''vpiType '' @ int_string (v_type V h))))"
proof (cases "v_type V h \<in> set signal_types")
  case True
  then have "classify V h = ALogic h (nat (max (v_size V h) 0))" by (simp add: classify_logic)
  with True show ?thesis by (simp add: as_logic_def)
next
  case False
  then show ?thesis by (simp add: as_logic_def classify_def Let_def any_wrong_kind_def)
qed

text \<open>Looking a signal up by name: the object the simulator resolves is returned with its width exactly
  when it has one of the signal types; an object of another type is reported with the kind that was
  expected, a name that does not resolve with the scope, and a name with an embedded NUL panics.\<close>

theorem typed_lookup:
  "hier_signal V h name =
     (if nul \<in> set name then panics ''NUL in signal name''
      else (case v_by_name V name (Some h) of
          None \<Rightarrow> Inr (Inl (NotFound name (get_str (v_full_name V h))))
        | Some o' \<Rightarrow>
            if v_type V o' \<in> set signal_types then Inr (Inr (o', nat (max (v_size V o') 0)))
            else Inr (Inl (WrongKind (get_str (v_full_name V o')) ''signal'' (''vpiType '' @ int_string (v_type V o'))))))"
  by (simp add: hier_signal_def and_then_def hier_child_def as_logic_classify split: option.split)

text \<open>The wrapper of the simulation layer accepts a handle as a signal, scope, real, string or aggregate
  exactly when the layer below does, with the same object.\<close>

theorem wrapper_agrees:
  "(\<forall>x. sim_as_signal V (sim_wrap a) = Inr x \<longleftrightarrow> as_logic V a = Inr x) \<and>
   (\<forall>x. sim_as_hierarchy V (sim_wrap a) = Inr x \<longleftrightarrow> as_hierarchy V a = Inr x) \<and>
   (\<forall>x. sim_as_real V (sim_wrap a) = Inr x \<longleftrightarrow> as_real V a = Inr x) \<and>
   (\<forall>x. sim_as_string V (sim_wrap a) = Inr x \<longleftrightarrow> as_string V a = Inr x) \<and>
   (\<forall>x. sim_as_aggregate V (sim_wrap a) = Inr x \<longleftrightarrow> as_aggregate V a = Inr x)"
  by (cases a) (simp_all add: sim_as_signal_def as_logic_def sim_as_hierarchy_def as_hierarchy_def sim_as_real_def
      as_real_def sim_as_string_def as_string_def sim_as_aggregate_def as_aggregate_def)

end
