(* ===== verification/Handle_Model.thy ===== *)
theory Handle_Model
  imports Phase_Model Gpi_Signal Gpi_Handle
begin

text \<open>
  The user-facing handles of \<open>rustdv-sim/src/handle/\<close>, which join the three layers below: lookup
  (\<open>Gpi_Handle\<close>), the phase hub (\<open>Phase_Model\<close>) and the vector words of a signal (\<open>Gpi_Signal\<close>).
  The simulator that stores what \<open>vpi_put_value\<close> hands it is a parameter, with the two laws the code
  relies on: a write is read back from its own object and leaves the other objects alone.
\<close>

section \<open>Real and string variables\<close>

text \<open>What the simulator filled in for a real or string read: \<open>None\<close> when it changed the format,
  for strings also when the pointer is null.\<close>

definition real_get :: "'r option \<Rightarrow> value_error + 'r" where
  "real_get raw = (case raw of None \<Rightarrow> Inl Unavailable | Some x \<Rightarrow> Inr x)"

definition string_get :: "string option option \<Rightarrow> value_error + string" where
  "string_get raw =
     (case raw of
        None \<Rightarrow> Inl Unavailable
      | Some None \<Rightarrow> Inl Unavailable
      | Some (Some s) \<Rightarrow> Inr s)"

definition gpi_string_set_now :: "('b, 'l, 'r) hub \<Rightarrow> nat \<Rightarrow> string \<Rightarrow> value_error + ('b, 'l, 'r) hub" where
  "gpi_string_set_now h t x =
     (if nul \<in> set x then Inl InteriorNul else Inr (h\<lparr>hb_applied := hb_applied h @ [(TString t, WString x)]\<rparr>))"

definition string_set :: "(write_target \<Rightarrow> string) \<Rightarrow> ('b, 'l, 'r) hub \<Rightarrow> nat \<Rightarrow> string
    \<Rightarrow> (value_error + ('b, 'l, 'r) hub) may_panic" where
  "string_set nm h t x =
     (case deny_write_in_read_only h (nm (TString t)) of
        Inl p \<Rightarrow> Inl p
      | Inr _ \<Rightarrow>
          if nul \<in> set x then Inr (Inl InteriorNul)
          else (case schedule nm h (TString t) (WString x) of Inl p \<Rightarrow> Inl p | Inr h' \<Rightarrow> Inr (Inr h')))"

definition string_set_now :: "(write_target \<Rightarrow> string) \<Rightarrow> ('b, 'l, 'r) hub \<Rightarrow> nat \<Rightarrow> string
    \<Rightarrow> (value_error + ('b, 'l, 'r) hub) may_panic" where
  "string_set_now nm h t x =
     (case deny_write_in_read_only h (nm (TString t)) of
        Inl p \<Rightarrow> Inl p
      | Inr _ \<Rightarrow> Inr (gpi_string_set_now h t x))"

definition real_set :: "(write_target \<Rightarrow> string) \<Rightarrow> ('b, 'l, 'r) hub \<Rightarrow> nat \<Rightarrow> 'r \<Rightarrow> ('b, 'l, 'r) hub may_panic" where
  "real_set nm h t x = schedule nm h (TReal t) (WReal x)"

definition real_set_now :: "(write_target \<Rightarrow> string) \<Rightarrow> ('b, 'l, 'r) hub \<Rightarrow> nat \<Rightarrow> 'r \<Rightarrow> ('b, 'l, 'r) hub may_panic" where
  "real_set_now nm h t x = write_now nm h (TReal t) (WReal x)"

section \<open>Signals\<close>

definition get_binstr :: "'b big_ops \<Rightarrow> nat \<Rightarrow> vecval list option \<Rightarrow> string reading" where
  "get_binstr B width raw = rbind (get_logic B width raw) (\<lambda>v. Inr (Inr (to_binstr B v)))"

definition is_high :: "'b big_ops \<Rightarrow> nat \<Rightarrow> vecval list option \<Rightarrow> bool may_panic" where
  "is_high B width raw = (case get_bool B width raw of Inl p \<Rightarrow> Inl p | Inr r \<Rightarrow> Inr (r = Inr True))"

definition is_low :: "'b big_ops \<Rightarrow> nat \<Rightarrow> vecval list option \<Rightarrow> bool may_panic" where
  "is_low B width raw = (case get_bool B width raw of Inl p \<Rightarrow> Inl p | Inr r \<Rightarrow> Inr (r = Inr False))"

text \<open>The eight scheduled setters differ only in the tag of the value.\<close>

definition logic_set :: "(write_target \<Rightarrow> string) \<Rightarrow> ('b, 'l, 'r) hub \<Rightarrow> nat \<Rightarrow> ('b, 'l, 'r) write_val
    \<Rightarrow> ('b, 'l, 'r) hub may_panic" where
  "logic_set nm h t v = schedule nm h (TLogic t) v"

text \<open>The words a buffered value comes to when it is applied to a signal; reals and strings never are.\<close>

fun put_words :: "'b big_ops \<Rightarrow> nat \<Rightarrow> ('b, 'b logic_array, 'r) write_val \<Rightarrow> vecval list option" where
  "put_words B width (WBool x) = Some (set_bool width x)"
| "put_words B width (WU8 x) = Some (set_u8 width x)"
| "put_words B width (WU16 x) = Some (set_u16 width x)"
| "put_words B width (WU32 x) = Some (set_u32 width x)"
| "put_words B width (WU64 x) = Some (set_u64 width x)"
| "put_words B width (WU128 x) = Some (set_u128 width x)"
| "put_words B width (WBigInt x) = Some (set_bigint B width x)"
| "put_words B width (WLogic x) = Some (set_logic B width x)"
| "put_words B width (WReal x) = None"
| "put_words B width (WString x) = None"

section \<open>Children\<close>

definition sim_child :: "(handle_error + 'h any_handle) may_panic \<Rightarrow> (handle_error + 'h sim_handle) may_panic" where
  "sim_child r = and_then r (\<lambda>a. Inr (sim_wrap a))"

definition sim_hier_child :: "'h vpi \<Rightarrow> 'h \<Rightarrow> string \<Rightarrow> (handle_error + 'h sim_handle) may_panic" where
  "sim_hier_child V h name = sim_child (hier_child V h name)"

definition sim_hier_children :: "'h vpi \<Rightarrow> 'h \<Rightarrow> 'h sim_handle list" where
  "sim_hier_children V h = map sim_wrap (hier_children V h)"

definition sim_agg_child :: "'h vpi \<Rightarrow> 'h \<Rightarrow> string \<Rightarrow> (handle_error + 'h sim_handle) may_panic" where
  "sim_agg_child V h name = sim_child (agg_child V h name)"

definition sim_agg_children :: "'h vpi \<Rightarrow> 'h \<Rightarrow> 'h sim_handle list" where
  "sim_agg_children V h = map sim_wrap (agg_children V h)"

text \<open>The typed accessors that every parent handle gets from its \<open>child\<close>.\<close>

definition child_signal :: "'h vpi \<Rightarrow> (string \<Rightarrow> (handle_error + 'h sim_handle) may_panic) \<Rightarrow> string
    \<Rightarrow> (handle_error + 'h \<times> nat) may_panic" where
  "child_signal V child name = and_then (child name) (sim_as_signal V)"

definition child_real :: "'h vpi \<Rightarrow> (string \<Rightarrow> (handle_error + 'h sim_handle) may_panic) \<Rightarrow> string
    \<Rightarrow> (handle_error + 'h) may_panic" where
  "child_real V child name = and_then (child name) (sim_as_real V)"

definition child_string :: "'h vpi \<Rightarrow> (string \<Rightarrow> (handle_error + 'h sim_handle) may_panic) \<Rightarrow> string
    \<Rightarrow> (handle_error + 'h) may_panic" where
  "child_string V child name = and_then (child name) (sim_as_string V)"

definition child_hierarchy :: "'h vpi \<Rightarrow> (string \<Rightarrow> (handle_error + 'h sim_handle) may_panic) \<Rightarrow> string
    \<Rightarrow> (handle_error + 'h) may_panic" where
  "child_hierarchy V child name = and_then (child name) (sim_as_hierarchy V)"

definition child_aggregate :: "'h vpi \<Rightarrow> (string \<Rightarrow> (handle_error + 'h sim_handle) may_panic) \<Rightarrow> string
    \<Rightarrow> (handle_error + 'h) may_panic" where
  "child_aggregate V child name = and_then (child name) (sim_as_aggregate V)"

section \<open>The simulator as a store\<close>

definition stores_writes :: "'b big_ops \<Rightarrow> (nat \<Rightarrow> nat) \<Rightarrow> (('b, 'b logic_array, 'r) pending_write \<Rightarrow> 's \<Rightarrow> 's)
    \<Rightarrow> ('s \<Rightarrow> nat \<Rightarrow> vecval list option) \<Rightarrow> bool" where
  "stores_writes B width put rd \<longleftrightarrow>
     (\<forall>t v s. kind_ok (TLogic t) v \<longrightarrow> rd (put (TLogic t, v) s) t = put_words B (width t) v) \<and>
     (\<forall>w u s. fst w \<noteq> TLogic u \<longrightarrow> rd (put w s) u = rd s u)"

lemma stored_other:
  assumes "stores_writes B width put rd"
  shows "TLogic u \<notin> fst ` set d \<Longrightarrow> rd (fold put d s) u = rd s u"
  using assms by (induction d arbitrary: s) (auto simp: stores_writes_def)

lemma stored_own:
  assumes "stores_writes B width put rd"
  shows "distinct (map fst d) \<Longrightarrow> map_of d (TLogic t) = Some v \<Longrightarrow> kind_ok (TLogic t) v \<Longrightarrow>
    rd (fold put d s) t = put_words B (width t) v"
proof (induction d arbitrary: s)
  case (Cons w d)
  show ?case
  proof (cases "fst w = TLogic t")
    case True
    with Cons.prems have "TLogic t \<notin> fst ` set d" by (metis distinct.simps(2) list.set_map list.simps(9))
    from stored_other [OF assms this] True Cons.prems assms show ?thesis
      by (cases w) (simp add: stores_writes_def)
  next
    case False
    with Cons show ?thesis by (cases w) auto
  qed
qed simp

lemma buffer_distinct: "distinct (map fst (buffer ws []))"
  using buffer_spec [of ws] by simp

lemma buffer_keys: "fst ` set (buffer ws []) = fst ` set ws"
proof -
  have "set (map fst (buffer ws [])) = set (map fst ws)" using buffer_spec [of ws] by simp
  then show ?thesis by simp
qed

section \<open>Properties\<close>

text \<open>C5: A scheduled write is what the signal reads once the ReadWrite region has begun. After any
  sequence of scheduled writes the simulator has been handed nothing; when the region starts, a
  signal of at most 64 bits whose last scheduled value was a 64-bit integer reads as that integer
  reduced to the width of the signal, and a signal nobody wrote reads as before.\<close>

theorem scheduled_write_reads_back:
  assumes "stores_writes B width put rd" and "hb_phase h = Normal" and "hb_writes h = []"
    and "list_all (\<lambda>(t, v). kind_ok t v \<and> nul_free v) ws"
    and "map_of (rev ws) (TLogic t) = Some (WU64 v)" and "width t \<le> 64"
  shows "\<exists>h1 h2 wk d. schedule_all nm h ws = Inr h1 \<and> hb_applied h1 = hb_applied h \<and>
    rw_enter h1 = Inr (h2, wk) \<and> hb_applied h2 = hb_applied h @ d \<and>
    get_u64 B (width t) (rd (fold put d s) t) = Inr (Inr (take_bit (width t) v)) \<and>
    (\<forall>u. TLogic u \<notin> fst ` set ws \<longrightarrow> rd (fold put d s) u = rd s u)"
proof -
  let ?d = "buffer ws []"
  have "map_of ?d (TLogic t) = Some (WU64 v)" using assms(5) buffer_spec [of ws] by simp
  then have "rd (fold put ?d s) t = Some (set_u64 (width t) v)"
    using stored_own [OF assms(1) buffer_distinct] by simp
  then have "get_u64 B (width t) (rd (fold put ?d s) t) = Inr (Inr (take_bit (width t) v))"
    using u64_reads_back [of B "width t" v] assms(6) by simp
  moreover have "rd (fold put ?d s) u = rd s u" if "TLogic u \<notin> fst ` set ws" for u
    using stored_other [OF assms(1)] that buffer_keys [of ws] by metis
  ultimately show ?thesis using schedule_then_enter [OF assms(2-4), of nm] by blast
qed

definition map_put :: "(nat, nat logic_array, nat) pending_write \<Rightarrow> (nat \<Rightarrow> vecval list option) \<Rightarrow> nat \<Rightarrow> vecval list option" where
  "map_put w s = (case w of (TLogic t, v) \<Rightarrow> s(t := put_words nat_ops 5 v) | _ \<Rightarrow> s)"

lemma map_put_stores: "stores_writes nat_ops (\<lambda>_. 5) map_put (\<lambda>s t. s t)"
  by (auto simp: stores_writes_def map_put_def split: prod.splits write_target.splits)

theorem scheduled_write_reads_back_witness:
  "\<exists>h1 h2 wk. schedule_all (\<lambda>_. []) (init_hub :: (nat, nat logic_array, nat) hub) [(TLogic 1, WU64 7), (TLogic 1, WU64 33)] = Inr h1 \<and>
     rw_enter h1 = Inr (h2, wk) \<and> get_u64 nat_ops 5 (fold map_put (hb_applied h2) Map.empty 1) = Inr (Inr 1)"
proof -
  have "take_bit 5 (33 :: u64) = 1" by (simp add: take_bit_eq_mod)
  with scheduled_write_reads_back [OF map_put_stores, of init_hub "[(TLogic 1, WU64 7), (TLogic 1, WU64 33)]" 1 33 "\<lambda>_. []" Map.empty]
  show ?thesis by (auto simp: init_hub_def nul_free_def)
qed

text \<open>Embedded NUL bytes never reach the simulator: both write paths of a string variable refuse
  such a value with an error and leave the hub alone, a NUL-free value is buffered or handed over
  as it is, and in the ReadOnly region both panic before looking at the value.\<close>

theorem string_writes_validated:
  "(if hb_phase h = ReadOnly then (\<exists>e. string_set nm h t x = Inl e) \<and> (\<exists>e. string_set_now nm h t x = Inl e)
    else if nul \<in> set x then string_set nm h t x = Inr (Inl InteriorNul) \<and> string_set_now nm h t x = Inr (Inl InteriorNul)
    else string_set nm h t x = (case schedule nm h (TString t) (WString x) of Inl e \<Rightarrow> Inl e | Inr h' \<Rightarrow> Inr (Inr h')) \<and>
      (\<exists>h'. string_set nm h t x = Inr (Inr h') \<and> hub_step nm h h') \<and>
      (\<exists>h'. string_set_now nm h t x = Inr (Inr h') \<and> hub_step nm h h' \<and> hb_applied h' = hb_applied h @ [(TString t, WString x)]))"
proof -
  have n: "nul_free (WString x) \<longleftrightarrow> nul \<notin> set x" by (simp add: nul_free_def nul_def)
  have s: "\<exists>h'. schedule nm h (TString t) (WString x) = Inr h' \<and> hub_step nm h h'" if "hb_phase h \<noteq> ReadOnly" "nul \<notin> set x"
  proof -
    have "\<exists>h'. schedule nm h (TString t) (WString x) = Inr h'"
      using that n by (cases "hb_phase h") (auto simp: schedule_def apply_write_def)
    then show ?thesis by (blast intro: hs_schedule)
  qed
  have "write_now nm h (TString t) (WString x) = Inr (h\<lparr>hb_applied := hb_applied h @ [(TString t, WString x)]\<rparr>)"
    if "hb_phase h \<noteq> ReadOnly" "nul \<notin> set x"
    using that n by (simp add: write_now_def deny_write_in_read_only_def apply_write_def)
  then show ?thesis using s
    by (auto simp: string_set_def string_set_now_def deny_write_in_read_only_def gpi_string_set_now_def
        intro: hs_now)
qed

end
