(* ===== verification/Runner_Model.thy ===== *)
theory Runner_Model
  imports Component_Model Log_Model Executor_Model Trigger_Model Gpi_Handle "HOL-Library.Product_Lexorder"
begin

text \<open>
  The regression manager (\<open>rustdv-runner/src/rustdv_runner.rs\<close>): the test registry, the selection
  by \<open>RUSTDV_TESTCASE\<close>, one test from clean state to scored outcome, the regression loop, the
  summary table and the xUnit report. The environment of a run (simulator, environment variables,
  the body of a test with its timeout race and the cancellation of its surviving tasks, floating
  point time) is a record of parameters; the configuration database, the logging configuration
  and the slot for background failures are the state the runner itself touches. The middle of
  \<open>run_one\<close>, how the runner waits for the body and ends the test, is in \<open>Test_Race\<close>; here it is the
  parameter \<open>en_body\<close>.
\<close>

section \<open>Registrations\<close>

record test_reg =
  tr_name :: string
  tr_module :: string
  tr_file :: string
  tr_line :: nat
  tr_timeout :: "(u64 \<times> string) option"
  tr_skip :: bool
  tr_expect_fail :: bool
  tr_expect_error :: "string option"

definition collect_tests :: "test_reg list \<Rightarrow> test_reg list" where
  "collect_tests regs = sort_key (\<lambda>r. (tr_file r, tr_line r)) regs"

datatype test_outcome = Pass | Fail string "string option" | Skip

definition fail :: "string \<Rightarrow> test_outcome" where
  "fail msg = Fail msg None"

record 't test_result =
  ts_name :: string
  ts_outcome :: test_outcome
  ts_sim_ns :: 't

fun task_error_display :: "task_error \<Rightarrow> string" where
  "task_error_display TeCancelled = ''task was cancelled''"
| "task_error_display (TePanicked m) = ''task panicked: '' @ m"
| "task_error_display TeInvalidState = ''task result not available''"

section \<open>Environment and state\<close>

record ('v, 'w) bench =
  bn_config :: "'v config_db"
  bn_log :: log_config
  bn_failure :: "string option"
  bn_world :: 'w

text \<open>The result of the test task: \<open>None\<close> when the timer won, otherwise what awaiting the task gave.\<close>

type_synonym raw_result = "(task_error + test_error + unit) option"

record ('v, 'w, 'h, 't) env =
  en_checked :: bool
  en_precision :: int
  en_vpi :: "'h vpi"
  en_top :: "string option"
  en_testcase :: "string option"
  en_xml :: "string option"
  en_seed :: "string option"
  en_secs :: "u64 option"
  en_leave :: "('v, 'w) bench \<Rightarrow> ('v, 'w) bench"
  en_body :: "test_reg \<Rightarrow> u64 \<Rightarrow> 'h \<Rightarrow> timer option \<Rightarrow> ('v, 'w) bench \<Rightarrow> ('v, 'w) bench \<times> raw_result"
  en_now :: "('v, 'w) bench \<Rightarrow> 't"
  en_zero :: 't
  en_sub :: "'t \<Rightarrow> 't \<Rightarrow> 't"
  en_fmt :: "'t \<Rightarrow> string"

text \<open>The two sinks of \<open>on_start_of_simulation\<close>: the first failure of a test is kept.\<close>

definition failure_sink :: "string \<Rightarrow> string option \<Rightarrow> string option" where
  "failure_sink msg slot = (case slot of None \<Rightarrow> Some msg | Some m \<Rightarrow> Some m)"

definition panic_sink :: "string \<Rightarrow> string option \<Rightarrow> string option" where
  "panic_sink msg slot = (case slot of None \<Rightarrow> Some (''panic in simulator callback: '' @ msg) | Some m \<Rightarrow> Some m)"

definition take_background_failure :: "('v, 'w) bench \<Rightarrow> ('v, 'w) bench \<times> string option" where
  "take_background_failure st = (st\<lparr>bn_failure := None\<rparr>, bn_failure st)"

text \<open>\<open>str::parse::<u64>\<close>: an optional plus sign, then at least one digit, no overflow.\<close>

definition digit_value :: "char \<Rightarrow> nat option" where
  "digit_value c = (let n = of_char c :: nat in if 48 \<le> n \<and> n \<le> 57 then Some (n - 48) else None)"

fun parse_digits :: "nat \<Rightarrow> string \<Rightarrow> nat option" where
  "parse_digits acc [] = Some acc"
| "parse_digits acc (c # cs) =
     (case digit_value c of
        None \<Rightarrow> None
      | Some d \<Rightarrow> if acc * 10 + d \<ge> 2 ^ 64 then None else parse_digits (acc * 10 + d) cs)"

definition parse_u64 :: "string \<Rightarrow> u64 option" where
  "parse_u64 s =
     (let ds = (case s of c # cs \<Rightarrow> if c = CHR ''+'' then cs else s | [] \<Rightarrow> []) in
      if ds = [] then None else map_option word_of_nat (parse_digits 0 ds))"

definition seed_from_env :: "string option \<Rightarrow> u64 option \<Rightarrow> u64" where
  "seed_from_env var secs =
     (case Option.bind var parse_u64 of
        Some n \<Rightarrow> n
      | None \<Rightarrow> (case secs of Some n \<Rightarrow> n | None \<Rightarrow> 1))"

section \<open>One test\<close>

definition timeout_timer :: "bool \<Rightarrow> int \<Rightarrow> (u64 \<times> string) option \<Rightarrow> timer option may_panic" where
  "timeout_timer chk prec timeout =
     (case timeout of
        None \<Rightarrow> Inr None
      | Some (n, unit) \<Rightarrow>
          (case from_unit chk prec n unit of
             Inl p \<Rightarrow> Inl p
           | Inr d \<Rightarrow> (case timer_make d of Inl p \<Rightarrow> Inl p | Inr t \<Rightarrow> Inr (Some t))))"

definition raw_outcome :: "(u64 \<times> string) option \<Rightarrow> raw_result \<Rightarrow> test_outcome may_panic" where
  "raw_outcome timeout raw =
     (case raw of
        None \<Rightarrow>
          (case timeout of
             None \<Rightarrow> panics ''called Option::unwrap() on a None value''
           | Some (n, unit) \<Rightarrow> Inr (fail (''timeout after '' @ dec_string (unat n) @ unit)))
      | Some (Inl e) \<Rightarrow> Inr (fail (''test task: '' @ task_error_display e))
      | Some (Inr (Inl e)) \<Rightarrow> Inr (Fail (ter_msg e) (ter_kind e))
      | Some (Inr (Inr _)) \<Rightarrow> Inr Pass)"

definition background :: "string option \<Rightarrow> test_outcome \<Rightarrow> test_outcome" where
  "background bg out = (case bg of Some m \<Rightarrow> if out = Pass then fail m else out | None \<Rightarrow> out)"

definition quoted :: "string \<Rightarrow> string" where
  "quoted s = CHR 0x27 # s @ [CHR 0x27]"

definition expectation :: "string option \<Rightarrow> bool \<Rightarrow> test_outcome \<Rightarrow> test_outcome" where
  "expectation expect_error expect_fail out =
     (case expect_error of
        Some k \<Rightarrow>
          (case out of
             Pass \<Rightarrow> fail (''expected error '' @ quoted k @ '' but test passed'')
           | Fail msg kind \<Rightarrow>
               if kind = Some k then Pass
               else fail (''expected error '' @ quoted k @ '', got '' @
                 (case kind of Some x \<Rightarrow> x | None \<Rightarrow> ''an unclassified failure'') @ '': '' @ msg)
           | Skip \<Rightarrow> Skip)
      | None \<Rightarrow>
          if expect_fail
          then (case out of Pass \<Rightarrow> fail ''expected failure but test passed'' | Fail _ _ \<Rightarrow> Pass | Skip \<Rightarrow> Skip)
          else out)"

text \<open>Every test starts outside the ReadOnly region, with an empty configuration database and default
  logging.\<close>

definition fresh_bench :: "('v, 'w, 'h, 't) env \<Rightarrow> ('v, 'w) bench \<Rightarrow> ('v, 'w) bench" where
  "fresh_bench E st =
     (let st = en_leave E st
      in st\<lparr>bn_config := config_clear (bn_config st), bn_log := reset_config (bn_log st)\<rparr>)"

definition run_one_test :: "('v, 'w, 'h, 't) env \<Rightarrow> test_reg \<Rightarrow> u64 \<Rightarrow> ('v, 'w) bench
    \<Rightarrow> (('v, 'w) bench \<times> test_outcome) may_panic" where
  "run_one_test E reg seed st =
     (let st = fresh_bench E st in
      case top_module (en_vpi E) (en_top E) of
        Inl p \<Rightarrow> Inl p
      | Inr (Inl e) \<Rightarrow> Inr (st, fail (''no DUT: '' @ handle_error_display e))
      | Inr (Inr dut) \<Rightarrow>
          (case timeout_timer (en_checked E) (en_precision E) (tr_timeout reg) of
             Inl p \<Rightarrow> Inl p
           | Inr tm \<Rightarrow>
               (let (st, raw) = en_body E reg seed dut tm st in
                case raw_outcome (tr_timeout reg) raw of
                  Inl p \<Rightarrow> Inl p
                | Inr out \<Rightarrow>
                    (let (st, bg) = take_background_failure st
                     in Inr (st, expectation (tr_expect_error reg) (tr_expect_fail reg) (background bg out))))))"

section \<open>Selection\<close>

definition to_ascii_lowercase :: "string \<Rightarrow> string" where
  "to_ascii_lowercase = map (\<lambda>c. let n = of_char c :: nat in if 65 \<le> n \<and> n \<le> 90 then char_of (n + 32) else c)"

fun starts_with :: "string \<Rightarrow> string \<Rightarrow> bool" where
  "starts_with [] s \<longleftrightarrow> True"
| "starts_with (p # ps) [] \<longleftrightarrow> False"
| "starts_with (p # ps) (c # cs) \<longleftrightarrow> p = c \<and> starts_with ps cs"

fun str_contains :: "string \<Rightarrow> string \<Rightarrow> bool" where
  "str_contains p [] \<longleftrightarrow> p = []"
| "str_contains p (c # cs) \<longleftrightarrow> starts_with p (c # cs) \<or> str_contains p cs"

definition filter_patterns :: "string \<Rightarrow> string list" where
  "filter_patterns raw = filter (\<lambda>s. s \<noteq> []) (map (\<lambda>s. to_ascii_lowercase (trim s)) (split_on (CHR '','') raw))"

definition apply_testcase_filter :: "string option \<Rightarrow> test_reg list \<Rightarrow> string + test_reg list" where
  "apply_testcase_filter var tests =
     (case var of
        None \<Rightarrow> Inr tests
      | Some raw \<Rightarrow>
          (let pats = filter_patterns raw in
           if pats = [] then Inr tests
           else (let kept = filter (\<lambda>t. \<exists>p \<in> set pats. str_contains p (to_ascii_lowercase (tr_name t))) tests in
             if kept = [] then Inl (''RUSTDV_TESTCASE='' @ raw @ '' matched no test'') else Inr kept)))"

section \<open>The regression\<close>

datatype line = Out string | Log level string

definition newline :: char where "newline = CHR 0x0A"
definition dquote :: char where "dquote = CHR 0x22"

definition attr :: "string \<Rightarrow> string \<Rightarrow> string" where
  "attr k v = k @ ''='' @ dquote # v @ [dquote]"

definition is_fail :: "test_outcome \<Rightarrow> bool" where
  "is_fail out \<longleftrightarrow> (case out of Fail _ _ \<Rightarrow> True | _ \<Rightarrow> False)"

definition pad_left :: "nat \<Rightarrow> string \<Rightarrow> string" where
  "pad_left n s = replicate (n - length s) (CHR 0x20) @ s"

fun status_of :: "test_outcome \<Rightarrow> string" where
  "status_of Pass = ''PASS''" | "status_of (Fail _ _) = ''FAIL''" | "status_of Skip = ''SKIP''"

definition summary_row :: "string \<Rightarrow> string \<Rightarrow> string \<Rightarrow> string" where
  "summary_row a b c = ''** '' @ pad_right 40 a @ '' '' @ pad_left 8 b @ '' '' @ pad_left 14 c @ ''      **''"

definition print_summary :: "('t \<Rightarrow> string) \<Rightarrow> 't test_result list \<Rightarrow> line list" where
  "print_summary fmt rs =
     (let stars = Out (replicate 78 (CHR ''*'')) in
      [stars, Out (summary_row ''TEST'' ''STATUS'' ''SIM TIME (ns)''), stars] @
      map (\<lambda>r. Out (summary_row (ts_name r) (status_of (ts_outcome r)) (fmt (ts_sim_ns r)))) rs @ [stars])"

definition xml_text :: "string \<Rightarrow> string" where
  "xml_text = map (\<lambda>c. if c = dquote then CHR 0x27 else if c = CHR ''<'' then CHR ''('' else if c = CHR ''>'' then CHR '')'' else c)"

definition xunit_case :: "('t \<Rightarrow> string) \<Rightarrow> 't test_result \<Rightarrow> string" where
  "xunit_case fmt r =
     ''  <testcase '' @ attr ''name'' (ts_name r) @ '' '' @ attr ''time'' (fmt (ts_sim_ns r)) @
     (case ts_outcome r of
        Pass \<Rightarrow> ''/>'' @ [newline]
      | Skip \<Rightarrow> ''><skipped/></testcase>'' @ [newline]
      | Fail m _ \<Rightarrow> ''><failure '' @ attr ''message'' (xml_text m) @ ''/></testcase>'' @ [newline])"

definition write_xunit :: "('t \<Rightarrow> string) \<Rightarrow> string option \<Rightarrow> 't test_result list \<Rightarrow> (string \<times> string) option" where
  "write_xunit fmt path rs =
     (case path of
        None \<Rightarrow> None
      | Some p \<Rightarrow> Some (p,
          ''<?xml '' @ attr ''version'' ''1.0'' @ '' '' @ attr ''encoding'' ''UTF-8'' @ ''?>'' @ [newline] @
          ''<testsuites>'' @ newline # ''<testsuite '' @ attr ''name'' ''rustdv'' @ '' '' @
          attr ''tests'' (dec_string (length rs)) @ '' '' @
          attr ''failures'' (dec_string (length (filter (\<lambda>r. is_fail (ts_outcome r)) rs))) @ '' '' @
          attr ''skipped'' (dec_string (length (filter (\<lambda>r. ts_outcome r = Skip) rs))) @ ''>'' @ [newline] @
          concat (map (xunit_case fmt) rs) @ ''</testsuite>'' @ newline # ''</testsuites>'' @ [newline]))"

definition progress :: "string \<Rightarrow> test_reg \<Rightarrow> nat \<Rightarrow> nat \<Rightarrow> string" where
  "progress verb reg i tot = verb @ tr_name reg @ '' ('' @ dec_string (i + 1) @ ''/'' @ dec_string tot @ '')''"

definition outcome_line :: "test_reg \<Rightarrow> test_outcome \<Rightarrow> line list" where
  "outcome_line reg out =
     (case out of
        Pass \<Rightarrow> [Log Info (tr_name reg @ '' PASSED'')]
      | Fail msg _ \<Rightarrow> [Log Error (tr_name reg @ '' FAILED: '' @ msg)]
      | Skip \<Rightarrow> [])"

fun run_tests :: "('v, 'w, 'h, 't) env \<Rightarrow> u64 \<Rightarrow> nat \<Rightarrow> nat \<Rightarrow> test_reg list \<Rightarrow> ('v, 'w) bench
    \<Rightarrow> (('v, 'w) bench \<times> 't test_result list \<times> line list) may_panic" where
  "run_tests E seed tot i [] st = Inr (st, [], [])"
| "run_tests E seed tot i (reg # regs) st =
     (if tr_skip reg
      then (case run_tests E seed tot (i + 1) regs st of
          Inl p \<Rightarrow> Inl p
        | Inr (st', rs, ls) \<Rightarrow>
            Inr (st', \<lparr>ts_name = tr_name reg, ts_outcome = Skip, ts_sim_ns = en_zero E\<rparr> # rs,
              Log Info (progress ''skipping '' reg i tot) # ls))
      else (case run_one_test E reg (seed + of_nat i) st of
          Inl p \<Rightarrow> Inl p
        | Inr (st1, out) \<Rightarrow>
            (case run_tests E seed tot (i + 1) regs st1 of
               Inl p \<Rightarrow> Inl p
             | Inr (st', rs, ls) \<Rightarrow>
                 Inr (st', \<lparr>ts_name = tr_name reg, ts_outcome = out, ts_sim_ns = en_sub E (en_now E st1) (en_now E st)\<rparr> # rs,
                   Log Info (progress ''running '' reg i tot @ ''  ['' @ tr_file reg @ '':'' @ dec_string (tr_line reg) @ '']'')
                     # outcome_line reg out @ ls))))"

record report =
  rp_lines :: "line list"
  rp_xml :: "(string \<times> string) option"
  rp_finished :: bool

definition verdict_line :: "bool \<Rightarrow> line" where
  "verdict_line failed = Out (''REGRESSION: '' @ (if failed then ''FAIL'' else ''PASS''))"

definition regression :: "('v, 'w, 'h, 't) env \<Rightarrow> test_reg list \<Rightarrow> ('v, 'w) bench \<Rightarrow> (('v, 'w) bench \<times> report) may_panic" where
  "regression E regs st =
     (case apply_testcase_filter (en_testcase E) (collect_tests regs) of
        Inl e \<Rightarrow> Inr (st, \<lparr>rp_lines = [Log Error e, verdict_line True], rp_xml = None, rp_finished = True\<rparr>)
      | Inr tests \<Rightarrow>
          (let seed = seed_from_env (en_seed E) (en_secs E);
               hello = Log Info (''rustdv: found '' @ dec_string (length tests) @ '' test(s), RUSTDV_RANDOM_SEED='' @ dec_string (unat seed)) in
           case run_tests E seed (length tests) 0 tests st of
             Inl p \<Rightarrow> Inl p
           | Inr (st', rs, ls) \<Rightarrow>
               Inr (st', \<lparr>rp_lines = hello # ls @ print_summary (en_fmt E) rs @
                   [verdict_line (list_ex (\<lambda>r. is_fail (ts_outcome r)) rs)],
                 rp_xml = write_xunit (en_fmt E) (en_xml E) rs, rp_finished = True\<rparr>)))"

section \<open>Scoring\<close>

lemma expectation_Pass_iff:
  "out \<noteq> Skip \<Longrightarrow> expectation ee ef out = Pass \<longleftrightarrow>
     (case ee of Some k \<Rightarrow> \<exists>m. out = Fail m (Some k) | None \<Rightarrow> (out = Pass) \<noteq> ef)"
  by (cases out) (auto simp: expectation_def fail_def split: option.splits)

lemma expectation_not_Skip: "out \<noteq> Skip \<Longrightarrow> expectation ee ef out \<noteq> Skip"
  by (cases out) (auto simp: expectation_def fail_def split: option.splits)

lemma background_cases:
  assumes "raw_outcome tmo raw = Inr out"
  shows "background bg out \<noteq> Skip" "background bg out = Pass \<longleftrightarrow> raw = Some (Inr (Inr ())) \<and> bg = None"
    "(\<exists>m. background bg out = Fail m (Some k)) \<longleftrightarrow> (\<exists>e. raw = Some (Inr (Inl e)) \<and> ter_kind e = Some k)"
  using assms by (auto simp: raw_outcome_def background_def fail_def split: option.splits sum.splits)

lemma run_one_test_eq:
  assumes "top_module (en_vpi E) (en_top E) = Inr (Inr dut)"
    and "timeout_timer (en_checked E) (en_precision E) (tr_timeout reg) = Inr tm"
    and "en_body E reg seed dut tm (fresh_bench E st) = (st1, raw)"
  shows "run_one_test E reg seed st =
    (case raw_outcome (tr_timeout reg) raw of Inl p \<Rightarrow> Inl p
     | Inr out \<Rightarrow> Inr (st1\<lparr>bn_failure := None\<rparr>,
         expectation (tr_expect_error reg) (tr_expect_fail reg) (background (bn_failure st1) out)))"
  using assms by (simp add: run_one_test_def take_background_failure_def Let_def split: sum.split)

lemma run_one_test_not_Skip: "run_one_test E reg seed st = Inr (st', out) \<Longrightarrow> out \<noteq> Skip"
  by (auto simp: run_one_test_def Let_def take_background_failure_def fail_def expectation_not_Skip background_cases(1)
      split: sum.splits prod.splits)

lemma run_one_test_total:
  assumes "\<exists>r. top_module (en_vpi E) (en_top E) = Inr r"
    and "timeout_timer (en_checked E) (en_precision E) (tr_timeout reg) = Inr tm"
    and "\<forall>reg seed dut st. snd (en_body E reg seed dut None st) \<noteq> None"
  shows "\<exists>x. run_one_test E reg seed st = Inr x"
proof -
  have "\<exists>out. raw_outcome (tr_timeout reg) (snd (en_body E reg seed dut tm st')) = Inr out" for dut st'
  proof (cases "tr_timeout reg")
    case None
    with assms(2) have "tm = None" by (simp add: timeout_timer_def)
    with assms(3) have "snd (en_body E reg seed dut tm st') \<noteq> None" by simp
    then show ?thesis by (auto simp: raw_outcome_def split: sum.splits)
  next
    case (Some t)
    then show ?thesis by (auto simp: raw_outcome_def split: option.splits sum.splits prod.splits)
  qed
  note out = this
  obtain r where r: "top_module (en_vpi E) (en_top E) = Inr r" using assms(1) by blast
  show ?thesis
  proof (cases r)
    case (Inl e)
    with r show ?thesis by (simp add: run_one_test_def Let_def)
  next
    case (Inr dut)
    let ?b = "en_body E reg seed dut tm (fresh_bench E st)"
    have b: "?b = (fst ?b, snd ?b)" by simp
    from run_one_test_eq [OF _ assms(2) b] r Inr out [of dut "fresh_bench E st"] show ?thesis by auto
  qed
qed

lemma is_fail_iff: "is_fail x \<longleftrightarrow> (\<exists>m k. x = Fail m k)"
  by (cases x) (auto simp: is_fail_def)

section \<open>The loop\<close>

definition test_step :: "('v, 'w, 'h, 't) env \<Rightarrow> u64 \<Rightarrow> test_reg \<Rightarrow> ('v, 'w) bench \<Rightarrow> ('v, 'w) bench \<Rightarrow> test_outcome \<Rightarrow> bool" where
  "test_step E seed reg st st' out \<longleftrightarrow>
     (if tr_skip reg then st' = st \<and> out = Skip else run_one_test E reg seed st = Inr (st', out) \<and> out \<noteq> Skip)"

lemma run_tests_trace:
  "run_tests E seed tot i regs st = Inr (st', rs, ls) \<Longrightarrow>
     map ts_name rs = map tr_name regs \<and>
     (\<exists>sts. length sts = Suc (length regs) \<and> hd sts = st \<and> last sts = st' \<and>
       (\<forall>j < length regs. test_step E (seed + of_nat (i + j)) (regs ! j) (sts ! j) (sts ! Suc j) (ts_outcome (rs ! j))))"
proof (induction regs arbitrary: i st rs ls)
  case Nil
  then show ?case by (intro conjI exI [of _ "[st]"]) auto
next
  case (Cons reg regs)
  obtain st1 r rs1 ls1 where r: "rs = r # rs1" "ts_name r = tr_name reg"
    and s: "test_step E (seed + of_nat i) reg st st1 (ts_outcome r)"
    and rest: "run_tests E seed tot (i + 1) regs st1 = Inr (st', rs1, ls1)"
  proof (cases "tr_skip reg")
    case True
    with Cons.prems obtain rs1 ls1 where "run_tests E seed tot (i + 1) regs st = Inr (st', rs1, ls1)"
      "rs = \<lparr>ts_name = tr_name reg, ts_outcome = Skip, ts_sim_ns = en_zero E\<rparr> # rs1"
      by (auto split: sum.splits prod.splits)
    then show ?thesis by (rule that [rotated 3]) (use True in \<open>auto simp: test_step_def\<close>)
  next
    case False
    with Cons.prems obtain st1 out where o: "run_one_test E reg (seed + of_nat i) st = Inr (st1, out)"
      by (auto split: sum.splits prod.splits)
    with False Cons.prems obtain rs1 ls1 where "run_tests E seed tot (i + 1) regs st1 = Inr (st', rs1, ls1)"
      "rs = \<lparr>ts_name = tr_name reg, ts_outcome = out, ts_sim_ns = en_sub E (en_now E st1) (en_now E st)\<rparr> # rs1"
      by (auto split: sum.splits prod.splits)
    then show ?thesis
      by (rule that [rotated 3]) (use False o run_one_test_not_Skip [OF o] in \<open>auto simp: test_step_def\<close>)
  qed
  from Cons.IH [OF rest] obtain sts where t: "map ts_name rs1 = map tr_name regs" "length sts = Suc (length regs)"
    "hd sts = st1" "last sts = st'"
    and st: "\<And>j. j < length regs \<Longrightarrow> test_step E (seed + of_nat (i + 1 + j)) (regs ! j) (sts ! j) (sts ! Suc j) (ts_outcome (rs1 ! j))"
    by blast
  have ne: "sts \<noteq> []" using t(2) by auto
  have "test_step E (seed + of_nat (i + j)) ((reg # regs) ! j) ((st # sts) ! j) ((st # sts) ! Suc j) (ts_outcome (rs ! j))"
    if "j < length (reg # regs)" for j
    using that s st [of "j - 1"] t(3) ne r(1) by (cases j) (auto simp: hd_conv_nth algebra_simps)
  then show ?case using t r ne by (intro conjI exI [of _ "st # sts"]) auto
qed

lemma run_tests_total:
  assumes "\<And>reg i st. reg \<in> set regs \<Longrightarrow> \<not> tr_skip reg \<Longrightarrow> \<exists>x. run_one_test E reg (seed + of_nat i) st = Inr x"
  shows "\<exists>x. run_tests E seed tot i regs st = Inr x"
  using assms
proof (induction regs arbitrary: i st)
  case (Cons reg regs)
  have ih: "\<exists>x. run_tests E seed tot (i + 1) regs st1 = Inr x" for st1
    using Cons.prems by (intro Cons.IH) auto
  show ?case
  proof (cases "tr_skip reg")
    case True
    with ih [of st] show ?thesis by auto
  next
    case False
    with Cons.prems obtain st1 out where "run_one_test E reg (seed + of_nat i) st = Inr (st1, out)" by fastforce
    with False ih [of st1] show ?thesis by auto
  qed
qed simp

section \<open>Selection\<close>

lemma starts_with_iff: "starts_with p s \<longleftrightarrow> (\<exists>v. s = p @ v)"
  by (induction p s rule: starts_with.induct) auto

lemma str_contains_iff: "str_contains p s \<longleftrightarrow> sublist p s"
  by (induction p s rule: str_contains.induct) (auto simp: starts_with_iff sublist_Cons_right prefix_def)

definition selected :: "string option \<Rightarrow> test_reg \<Rightarrow> bool" where
  "selected var t \<longleftrightarrow>
     (case var of None \<Rightarrow> True
      | Some raw \<Rightarrow> filter_patterns raw = [] \<or> (\<exists>p \<in> set (filter_patterns raw). sublist p (to_ascii_lowercase (tr_name t))))"

lemma filter_subset: "apply_testcase_filter var tests = Inr kept \<Longrightarrow> set kept \<subseteq> set tests"
  by (auto simp: apply_testcase_filter_def Let_def split: option.splits if_splits)

lemma regression_returns:
  assumes "\<exists>r. top_module (en_vpi E) (en_top E) = Inr r"
    and "\<forall>reg \<in> set regs. tr_skip reg \<or> (\<exists>tm. timeout_timer (en_checked E) (en_precision E) (tr_timeout reg) = Inr tm)"
    and "\<forall>reg seed dut st. snd (en_body E reg seed dut None st) \<noteq> None"
  shows "\<exists>st' rp. regression E regs st = Inr (st', rp)"
proof (cases "apply_testcase_filter (en_testcase E) (collect_tests regs)")
  case (Inr tests)
  have sub: "set tests \<subseteq> set regs"
    using filter_subset [OF Inr] by (simp add: collect_tests_def)
  have "\<exists>x. run_one_test E reg seed st = Inr x" if "reg \<in> set tests" "\<not> tr_skip reg" for reg seed st
  proof -
    from that sub assms(2) obtain tm where tm: "timeout_timer (en_checked E) (en_precision E) (tr_timeout reg) = Inr tm" by blast
    show ?thesis by (rule run_one_test_total [OF assms(1) tm assms(3)])
  qed
  then have "\<exists>x. run_tests E seed tot i tests st = Inr x" for seed tot i
    by (rule run_tests_total)
  then obtain st' rs ls where "run_tests E (seed_from_env (en_seed E) (en_secs E)) (length tests) 0 tests st = Inr (st', rs, ls)"
    by (metis prod_cases3)
  with Inr show ?thesis by (simp add: regression_def Let_def)
qed (simp add: regression_def)

section \<open>Seeds\<close>

lemma digit_value_digit_char: "d < 10 \<Longrightarrow> digit_value (digit_char d) = Some d"
proof -
  assume "d < 10"
  then have "d = 0 \<or> d = 1 \<or> d = 2 \<or> d = 3 \<or> d = 4 \<or> d = 5 \<or> d = 6 \<or> d = 7 \<or> d = 8 \<or> d = 9" by arith
  then show ?thesis by (elim disjE) (simp_all add: digit_value_def digit_char_def)
qed

lemma parse_digits_append: "parse_digits acc (xs @ ys) = Option.bind (parse_digits acc xs) (\<lambda>a. parse_digits a ys)"
  by (induction acc xs rule: parse_digits.induct) (auto split: option.splits)

lemma parse_digits_dec: "n < 2 ^ 64 \<Longrightarrow> parse_digits 0 (dec_string n) = Some n"
proof (induction n rule: dec_string.induct)
  case (1 n)
  show ?case
  proof (cases "n < 10")
    case True
    then show ?thesis by (simp add: dec_string.simps [of n] digit_value_digit_char)
  next
    case False
    have "n div 10 \<le> n" by simp
    with 1 False have "parse_digits 0 (dec_string (n div 10)) = Some (n div 10)" by (meson order_le_less_trans)
    with 1(2) False show ?thesis
      by (subst dec_string.simps) (simp add: parse_digits_append digit_value_digit_char)
  qed
qed

lemma dec_string_hd: "\<exists>d ds. dec_string n = digit_char d # ds \<and> d < 10"
proof (induction n rule: dec_string.induct)
  case (1 n)
  then show ?case by (subst dec_string.simps) (cases "n < 10", auto)
qed

lemma digit_char_not_plus: "d < 10 \<Longrightarrow> digit_char d \<noteq> CHR ''+''"
  using digit_value_digit_char [of d] by (auto simp: digit_value_def)

lemma parse_u64_dec: "n < 2 ^ 64 \<Longrightarrow> parse_u64 (dec_string n) = Some (word_of_nat n)"
  using parse_digits_dec [of n] dec_string_hd [of n] by (auto simp: parse_u64_def digit_char_not_plus)

section \<open>Reports\<close>

text \<open>What is put between the quotes of a failure message cannot end the attribute or open a tag;
  ampersands stay as they are.\<close>

lemma xml_text_safe: "set (xml_text m) \<inter> {dquote, CHR ''<'', CHR ''>''} = {}"
  by (auto simp: xml_text_def dquote_def)

lemma xml_text_keeps_ampersand: "count_list (xml_text m) (CHR ''&'') = count_list m (CHR ''&'')"
  by (induction m) (auto simp: xml_text_def dquote_def)

section \<open>Properties\<close>

text \<open>C23: How a test is scored. Once the test task has been awaited, the outcome is a pass in exactly
  these cases: with an expected error, when the body returned an error of that kind; with an
  expected failure and no expected error, when the body did anything but finish cleanly; otherwise
  when the body finished without error and no background task panicked. A run test is never
  reported as skipped, and the slot for background failures is empty for the next test.\<close>

theorem scoring_table:
  assumes "top_module (en_vpi E) (en_top E) = Inr (Inr dut)"
    and "timeout_timer (en_checked E) (en_precision E) (tr_timeout reg) = Inr tm"
    and "en_body E reg seed dut tm (fresh_bench E st) = (st1, raw)"
    and "run_one_test E reg seed st = Inr (st', out)"
  shows "(out = Pass \<longleftrightarrow>
      (case tr_expect_error reg of
         Some k \<Rightarrow> \<exists>e. raw = Some (Inr (Inl e)) \<and> ter_kind e = Some k
       | None \<Rightarrow> (raw = Some (Inr (Inr ())) \<and> bn_failure st1 = None) \<noteq> tr_expect_fail reg)) \<and>
    out \<noteq> Skip \<and> bn_failure st' = None"
proof -
  note eq = run_one_test_eq [OF assms(1-3)]
  obtain o' where o: "raw_outcome (tr_timeout reg) raw = Inr o'"
    using eq assms(4) by (cases "raw_outcome (tr_timeout reg) raw") auto
  note bg = background_cases [OF o, of "bn_failure st1"]
  have out: "out = expectation (tr_expect_error reg) (tr_expect_fail reg) (background (bn_failure st1) o')"
    and st': "bn_failure st' = None"
    using eq assms(4) o by auto
  show ?thesis
    using expectation_Pass_iff [OF bg(1), of "tr_expect_error reg" "tr_expect_fail reg"] bg expectation_not_Skip [OF bg(1)]
      out st' by (simp split: option.split)
qed

text \<open>C24: The regression runs the selected tests one after the other in the order of the list, each on
  the state its predecessor left and with the base seed plus its position, does not run the
  skipped ones, reports one result per selected test in that order, and prints the verdict FAIL
  exactly when some result is a failure. Then it ends the simulation.\<close>

theorem regression_verdict:
  assumes "apply_testcase_filter (en_testcase E) (collect_tests regs) = Inr tests"
    and "regression E regs st = Inr (st', rp)"
  shows "\<exists>rs sts. map ts_name rs = map tr_name tests \<and> length sts = Suc (length tests) \<and> hd sts = st \<and> last sts = st' \<and>
    (\<forall>j < length tests. test_step E (seed_from_env (en_seed E) (en_secs E) + of_nat j) (tests ! j) (sts ! j) (sts ! Suc j) (ts_outcome (rs ! j))) \<and>
    last (rp_lines rp) = verdict_line (\<exists>m k. Fail m k \<in> ts_outcome ` set rs) \<and>
    rp_xml rp = write_xunit (en_fmt E) (en_xml E) rs \<and> rp_finished rp"
proof -
  let ?seed = "seed_from_env (en_seed E) (en_secs E)"
  obtain rs ls where r: "run_tests E ?seed (length tests) 0 tests st = Inr (st', rs, ls)"
    and rp: "last (rp_lines rp) = verdict_line (list_ex (\<lambda>r. is_fail (ts_outcome r)) rs)"
      "rp_xml rp = write_xunit (en_fmt E) (en_xml E) rs" "rp_finished rp"
    using assms by (auto simp: regression_def Let_def split: sum.splits prod.splits)
  have "list_ex (\<lambda>r. is_fail (ts_outcome r)) rs \<longleftrightarrow> (\<exists>m k. Fail m k \<in> ts_outcome ` set rs)"
    unfolding list_ex_iff is_fail_iff image_iff by metis
  with rp(1) have "last (rp_lines rp) = verdict_line (\<exists>m k. Fail m k \<in> ts_outcome ` set rs)" by simp
  with run_tests_trace [OF r, unfolded add_0] rp(2,3) show ?thesis by blast
qed

text \<open>The selection: without RUSTDV_TESTCASE, or when it holds no pattern, every registered test;
  otherwise the tests whose name contains one of the patterns, case folded, and an error if there
  are none. What is selected is ordered by file and line, ties in registration order.\<close>

theorem testcase_selection:
  "apply_testcase_filter var (collect_tests regs) =
     (if filter (selected var) regs = [] \<and> (\<exists>raw. var = Some raw \<and> filter_patterns raw \<noteq> [])
      then Inl (''RUSTDV_TESTCASE='' @ the var @ '' matched no test'')
      else Inr (sort_key (\<lambda>r. (tr_file r, tr_line r)) (filter (selected var) regs)))"
proof (cases "\<exists>raw. var = Some raw \<and> filter_patterns raw \<noteq> []")
  case True
  then obtain raw where v: "var = Some raw" "filter_patterns raw \<noteq> []" by blast
  then have sel: "selected var = (\<lambda>t. \<exists>p \<in> set (filter_patterns raw). sublist p (to_ascii_lowercase (tr_name t)))"
    by (auto simp: selected_def fun_eq_iff)
  have "filter (\<lambda>t. \<exists>p \<in> set (filter_patterns raw). str_contains p (to_ascii_lowercase (tr_name t))) (collect_tests regs) =
      sort_key (\<lambda>r. (tr_file r, tr_line r)) (filter (selected var) regs)"
    by (simp add: collect_tests_def filter_sort sel str_contains_iff)
  moreover have "sort_key (\<lambda>r. (tr_file r, tr_line r)) (filter (selected var) regs) = [] \<longleftrightarrow> filter (selected var) regs = []"
    by (metis set_empty set_sort)
  ultimately show ?thesis using v by (simp add: apply_testcase_filter_def Let_def)
next
  case False
  then have "selected var = (\<lambda>_. True)" by (auto simp: selected_def fun_eq_iff split: option.splits)
  with False show ?thesis by (auto simp: apply_testcase_filter_def collect_tests_def Let_def split: option.splits)
qed

text \<open>The seed a run prints reproduces it: the number shown at the start, given back in
  RUSTDV_RANDOM_SEED, is the seed of the next run, whatever the clock says.\<close>

theorem seed_round_trip: "seed_from_env (Some (dec_string (unat seed))) secs = seed"
proof -
  have "unat seed < 2 ^ 64" using unsigned_less [of seed] by simp
  then show ?thesis by (simp add: seed_from_env_def parse_u64_dec)
qed

text \<open>A timeout in an unknown unit, or of no duration, panics the task of the regression instead of
  failing its test: there is no verdict.\<close>

lemma bad_timeout_aborts_regression:
  assumes "top_module (en_vpi E) (en_top E) = Inr (Inr dut)" "en_testcase E = None" "\<not> tr_skip reg"
    "timeout_timer (en_checked E) (en_precision E) (tr_timeout reg) = Inl p"
  shows "regression E [reg] st = Inl p"
  using assms by (simp add: regression_def apply_testcase_filter_def collect_tests_def run_one_test_def Let_def)

section \<open>Witnesses\<close>

definition demo_vpi :: "nat vpi" where
  "demo_vpi = \<lparr>v_type = (\<lambda>_. vpiModule), v_size = (\<lambda>_. 1), v_name = (\<lambda>_. Some ''top''), v_full_name = (\<lambda>_. Some ''top''),
     v_by_name = (\<lambda>_ _. None), v_iterate = (\<lambda>_ _. [7])\<rparr>"

definition demo_reg :: "string \<Rightarrow> nat \<Rightarrow> test_reg" where
  "demo_reg nm l = \<lparr>tr_name = nm, tr_module = ''m'', tr_file = ''f.rs'', tr_line = l, tr_timeout = None, tr_skip = False,
     tr_expect_fail = False, tr_expect_error = None\<rparr>"

definition demo_body :: "test_reg \<Rightarrow> u64 \<Rightarrow> nat \<Rightarrow> timer option \<Rightarrow> (nat, unit) bench \<Rightarrow> (nat, unit) bench \<times> raw_result" where
  "demo_body reg seed dut tm st =
     (st, Some (Inr (if tr_name reg = ''bad'' then Inl (test_error_with_kind ''oops'' ''config_not_found'') else Inr ())))"

definition demo_env :: "(nat, unit, nat, nat) env" where
  "demo_env = \<lparr>en_checked = True, en_precision = - 9, en_vpi = demo_vpi, en_top = None, en_testcase = None, en_xml = None,
     en_seed = Some ''5'', en_secs = None, en_leave = (\<lambda>st. st), en_body = demo_body, en_now = (\<lambda>_. 0), en_zero = 0,
     en_sub = (-), en_fmt = dec_string\<rparr>"

definition demo_bench :: "(nat, unit) bench" where
  "demo_bench = \<lparr>bn_config = config_init, bn_log = log_default, bn_failure = None, bn_world = ()\<rparr>"

lemma demo_top: "top_module (en_vpi demo_env) (en_top demo_env) = Inr (Inr 7)"
  by (simp add: demo_env_def demo_vpi_def top_module_def select_top_module_def top_modules_def)

lemma demo_timeout: "timeout_timer (en_checked demo_env) (en_precision demo_env) (tr_timeout (demo_reg nm l)) = Inr None"
  by (simp add: demo_reg_def timeout_timer_def)

lemma demo_hyps: "\<exists>r. top_module (en_vpi demo_env) (en_top demo_env) = Inr r"
  "\<forall>reg seed dut st. snd (en_body demo_env reg seed dut None st) \<noteq> None"
  using demo_top by (auto simp: demo_env_def demo_body_def)

definition expecting :: test_reg where
  "expecting = (demo_reg ''bad'' 3)\<lparr>tr_expect_error := Some ''config_not_found''\<rparr>"

theorem scoring_table_witness: "\<exists>st'. run_one_test demo_env expecting 5 demo_bench = Inr (st', Pass)"
proof -
  have t: "timeout_timer (en_checked demo_env) (en_precision demo_env) (tr_timeout expecting) = Inr None"
    using demo_timeout by (simp add: expecting_def demo_reg_def)
  obtain st1 where b: "en_body demo_env expecting 5 7 None (fresh_bench demo_env demo_bench) =
      (st1, Some (Inr (Inl (test_error_with_kind ''oops'' ''config_not_found''))))"
    by (simp add: demo_env_def demo_body_def expecting_def demo_reg_def)
  obtain st' out where r: "run_one_test demo_env expecting 5 demo_bench = Inr (st', out)"
    using run_one_test_eq [OF demo_top t b] by (simp add: raw_outcome_def)
  from scoring_table [OF demo_top t b r] have "out = Pass"
    by (simp add: expecting_def test_error_with_kind_def)
  with r show ?thesis by simp
qed

lemma demo_sorted: "collect_tests [demo_reg ''good'' 4, demo_reg ''bad'' 2] = [demo_reg ''bad'' 2, demo_reg ''good'' 4]"
  by (simp add: collect_tests_def demo_reg_def less_eq_prod_def)

theorem regression_verdict_witness:
  "\<exists>(rs :: nat test_result list) st' rp. regression demo_env [demo_reg ''good'' 4, demo_reg ''bad'' 2] demo_bench = Inr (st', rp) \<and>
     map ts_name rs = [''bad'', ''good''] \<and> last (rp_lines rp) = verdict_line (\<exists>m k. Fail m k \<in> ts_outcome ` set rs)"
proof -
  have f: "apply_testcase_filter (en_testcase demo_env) (collect_tests [demo_reg ''good'' 4, demo_reg ''bad'' 2]) =
      Inr [demo_reg ''bad'' 2, demo_reg ''good'' 4]"
    unfolding demo_sorted by (simp add: apply_testcase_filter_def demo_env_def)
  obtain st' rp where r: "regression demo_env [demo_reg ''good'' 4, demo_reg ''bad'' 2] demo_bench = Inr (st', rp)"
    using regression_returns [OF demo_hyps(1) _ demo_hyps(2), of "[demo_reg ''good'' 4, demo_reg ''bad'' 2]" demo_bench] demo_timeout by auto
  have n: "map tr_name [demo_reg ''bad'' 2, demo_reg ''good'' 4] = [''bad'', ''good'']" by (simp add: demo_reg_def)
  from regression_verdict [OF f r, unfolded n] show ?thesis by (elim exE conjE, intro exI conjI) (rule r | assumption)+
qed

end
