(* ===== verification/Ctx_Model.thy ===== *)
theory Ctx_Model
  imports Component_Model Log_Model Objection_Model Rng_Model
begin

text \<open>
  The one context a testbench is handed (\<open>RustdvCtx\<close> of \<open>rustdv-methodology/src/component.rs\<close>): the
  device, the seed, the objection registry and the path. The registry is shared by reference, so a
  context holds the number of its registry in a store. The hierarchical logging calls act on the
  logging configuration of \<open>Log_Model\<close> under the context's own path. The debug printer of the
  component tree is here too.
\<close>

section \<open>Contexts\<close>

record 'h ctx =
  cx_dut :: 'h
  cx_seed :: u64
  cx_objections :: nat
  cx_logger :: rustdv_path

type_synonym registries = "obj_inner list"

text \<open>A new context allocates a registry of its own.\<close>

definition ctx_new :: "registries \<Rightarrow> string \<Rightarrow> 'h \<Rightarrow> u64 \<Rightarrow> registries \<times> 'h ctx" where
  "ctx_new rs path dut seed =
     (rs @ [registry_new], \<lparr>cx_dut = dut, cx_seed = seed, cx_objections = length rs, cx_logger = logger_new path\<rparr>)"

definition ctx_child :: "'h ctx \<Rightarrow> string \<Rightarrow> 'h ctx" where
  "ctx_child c name =
     \<lparr>cx_dut = cx_dut c, cx_seed = cx_seed c, cx_objections = cx_objections c, cx_logger = path_child (cx_logger c) name\<rparr>"

definition ctx_rng :: "'h ctx \<Rightarrow> rng" where
  "ctx_rng c = rng_new (cx_seed c)"

definition ctx_path :: "'h ctx \<Rightarrow> string" where
  "ctx_path c = rp_rendered (cx_logger c)"

definition ctx_log :: "log_config \<Rightarrow> 'h ctx \<Rightarrow> string \<Rightarrow> level \<Rightarrow> string \<Rightarrow> (sink \<times> string) list" where
  "ctx_log cfg c stamp lvl msg = logger_log cfg (cx_logger c) stamp lvl msg"

section \<open>Hierarchical logging\<close>

definition set_logging_level_hier :: "log_config \<Rightarrow> 'h ctx \<Rightarrow> level \<Rightarrow> log_config" where
  "set_logging_level_hier cfg c l = set_level_for cfg (ctx_path c) l"

definition disable_logging_hier :: "log_config \<Rightarrow> 'h ctx \<Rightarrow> log_config" where
  "disable_logging_hier cfg c = set_level_for cfg (ctx_path c) Off"

definition add_file_handler_hier :: "log_config \<Rightarrow> 'h ctx \<Rightarrow> file_id option \<Rightarrow> log_config \<times> bool" where
  "add_file_handler_hier cfg c opened = add_file_for cfg (ctx_path c) opened"

definition remove_console_hier :: "log_config \<Rightarrow> 'h ctx \<Rightarrow> log_config" where
  "remove_console_hier cfg c = set_console_for cfg (ctx_path c) False"

section \<open>Objections\<close>

definition raise_objection :: "registries \<Rightarrow> 'h ctx \<Rightarrow> string \<Rightarrow> registries" where
  "raise_objection rs c description = rs[cx_objections c := raise (rs ! cx_objections c) description]"

definition all_objections_dropped :: "registries \<Rightarrow> 'h ctx \<Rightarrow> waker \<Rightarrow> registries \<times> string list \<times> unit poll" where
  "all_objections_dropped rs c w =
     (case wait_all_dropped_start (rs ! cx_objections c) w of
        (r, log, p) \<Rightarrow> (rs[cx_objections c := r], log, p))"

section \<open>Printing the tree\<close>

function hierarchy_lines :: "('u node \<Rightarrow> string) \<Rightarrow> string \<Rightarrow> 'u node \<Rightarrow> string list" where
  "hierarchy_lines nm path n =
     (path @ '' ('' @ nm n @ '')'') #
     concat (map (\<lambda>(name, child). hierarchy_lines nm (path @ dot # name) child) (children_mut n))"
  by pat_completeness auto

termination by (relation "measure (\<lambda>(nm, path, n). size n)") (auto dest: children_size)

declare hierarchy_lines.simps [simp del]

definition print_hierarchy :: "('u node \<Rightarrow> string) \<Rightarrow> 'u node \<Rightarrow> string list" where
  "print_hierarchy nm n = hierarchy_lines nm ''top'' n"

section \<open>Derived contexts\<close>

definition descend :: "string list \<Rightarrow> 'h ctx \<Rightarrow> 'h ctx" where
  "descend names c = fold (\<lambda>name c. ctx_child c name) names c"

lemma descend_simps [simp]: "descend [] c = c" "descend (n # ns) c = descend ns (ctx_child c n)"
  by (simp_all add: descend_def)

lemma descend_fields:
  "cx_dut (descend ns c) = cx_dut c" "cx_seed (descend ns c) = cx_seed c" "cx_objections (descend ns c) = cx_objections c"
  "rp_segments (cx_logger (descend ns c)) = rp_segments (cx_logger c) @ ns"
  by (induction ns arbitrary: c) (auto simp: ctx_child_def path_child_def)

lemma descend_walked:
  "walked (cx_logger c) \<Longrightarrow> list_all ident ns \<Longrightarrow> walked (cx_logger (descend ns c))"
proof (induction ns arbitrary: c)
  case (Cons n ns)
  then have "walked (cx_logger (ctx_child c n))" by (simp add: ctx_child_def w_child)
  with Cons show ?case by simp
qed simp

text \<open>The printer shows every component once, parents first, under its path from the top.\<close>

lemma hierarchy_lines_nodes:
  assumes "rp_rendered p \<noteq> []"
  shows "hierarchy_lines nm (rp_rendered p) n = map (\<lambda>(q, c). rp_rendered q @ '' ('' @ nm c @ '')'') (all_nodes (p, n))"
  using assms
proof (induction n arbitrary: p rule: measure_induct_rule [of size])
  case (less n)
  have c: "rp_rendered (path_child p name) = rp_rendered p @ dot # name" for name
    using less.prems by (simp add: path_child_def)
  have "hierarchy_lines nm (rp_rendered p @ dot # name) child =
      map (\<lambda>(q, c). rp_rendered q @ '' ('' @ nm c @ '')'') (all_nodes (path_child p name, child))"
    if "(name, child) \<in> set (children_mut n)" for name child
    using less.IH [OF children_size [OF that], of "path_child p name"] by (simp add: c)
  then show ?case
    by (subst hierarchy_lines.simps, subst all_nodes.simps)
      (auto simp: map_concat comp_def intro!: arg_cong [of _ _ concat] map_cong)
qed

lemma off_default:
  "logger_enabled (set_level_for log_default q Off) p lvl \<longleftrightarrow>
     (if str_is_under (rp_rendered p) q \<and> lvl \<noteq> Off then False else logger_enabled log_default p lvl)"
proof -
  have "target_value (set_target [] q Off) (rp_rendered p) = (if str_is_under (rp_rendered p) q then Some Off else target_value [] (rp_rendered p))"
    using target_value_set_target [of "[]" q Off "rp_rendered p"] by simp
  moreover have "Off \<le> lvl \<longleftrightarrow> lvl = Off" "Info \<le> Off" by (cases lvl; simp add: less_eq_level_def)+
  ultimately show ?thesis
    by (auto simp: logger_enabled_def set_level_for_def log_default_def target_value_def)
qed

lemma emit_for_levels: "emit_for (set_level_for cfg q l) path line = emit_for cfg path line"
  by (simp add: emit_for_def set_level_for_def console_enabled_for_def file_part_def)

section \<open>Properties\<close>

text \<open>Contexts handed down the tree share the test's services: whatever names the walk descends
  by, the device, the seed, the random stream and the objection registry are those of the test, an
  objection raised below is counted in the registry the test waits on, and the path is that of
  the parent with the names appended.\<close>

theorem ctx_children_share:
  assumes "cx_objections c < length rs"
  shows "cx_dut (descend ns c) = cx_dut c \<and> ctx_rng (descend ns c) = ctx_rng c \<and>
    rp_segments (cx_logger (descend ns c)) = rp_segments (cx_logger c) @ ns \<and>
    raise_objection rs (descend ns c) d ! cx_objections c = raise (rs ! cx_objections c) d"
  using assms by (simp add: descend_fields ctx_rng_def raise_objection_def)

theorem ctx_children_share_witness:
  "let (rs, c) = ctx_new [] ''test'' (0 :: nat) 7 in
     ob_count (raise_objection rs (descend [''env'', ''agent''] c) ''busy'' ! cx_objections c) = 1"
  using ctx_children_share [of "snd (ctx_new [] ''test'' (0 :: nat) 7)" "fst (ctx_new [] ''test'' (0 :: nat) 7)" "[''env'', ''agent'']" "''busy''"]
  by (simp add: ctx_new_def raise_def registry_new_def)

text \<open>Switching logging off at a component silences exactly its subtree: with the logging a test
  starts with, a component below it, however deep, prints and writes nothing at any real level,
  and a component that is not below it, a sibling whose name merely starts with the same letters
  included, logs as before.\<close>

theorem disable_logging_scope:
  assumes "walked (cx_logger c)" "walked (cx_logger d)"
  shows "ctx_log (disable_logging_hier log_default c) d stamp lvl msg =
    (if path_is_under (cx_logger d) (cx_logger c) \<and> lvl \<noteq> Off then [] else ctx_log log_default d stamp lvl msg)"
  unfolding ctx_log_def logger_log_def disable_logging_hier_def ctx_path_def emit_for_levels
    off_default walked_under [OF assms(2,1)]
  by auto

definition demo_ctx :: "nat ctx" where
  "demo_ctx = \<lparr>cx_dut = 0, cx_seed = 1, cx_objections = 0, cx_logger = path_root ''t''\<rparr>"

theorem disable_logging_scope_witness:
  "ctx_log (disable_logging_hier log_default (descend [''env''] demo_ctx)) (descend [''env'', ''drv''] demo_ctx) ''0'' Error ''x'' = []"
proof -
  have w: "walked (cx_logger demo_ctx)" by (auto simp: demo_ctx_def ident_def intro: w_root)
  have "walked (cx_logger (descend [''env''] demo_ctx))" "walked (cx_logger (descend [''env'', ''drv''] demo_ctx))"
    by (rule descend_walked [OF w], simp add: ident_def)+
  note disable_logging_scope [OF this, of "''0''" Error "''x''"]
  moreover have "path_is_under (cx_logger (descend [''env'', ''drv''] demo_ctx)) (cx_logger (descend [''env''] demo_ctx))"
    by (simp add: path_is_under_def descend_fields(4) del: descend_simps)
  ultimately show ?thesis by (simp del: descend_simps)
qed

end
