(* ===== verification/Gpi_Callback.thy ===== *)
theory Gpi_Callback
  imports Rustdv_Prelude
begin

text \<open>
  The life of a simulator callback (\<open>rustdv-gpi/src/rustdv_gpi.rs\<close>): the reference-counted cell
  shared by the Rust handle and the simulator's user data, the RAII handle, and the trampoline the
  simulator calls. The strong count of the cell is explicit, and every access goes through it: an
  operation that would touch the cell after it was freed, or drop a reference that does not exist,
  has no result. The trampoline is split where it runs the user's closure, because the closure may
  drop the handle. The simulator is assumed to call only callbacks that are registered.
\<close>

section \<open>The shared cell\<close>

datatype cb_kind = OneShot | Recurring

record cb =
  cb_kind :: cb_kind
  cb_released :: bool
  cb_once :: bool
  cb_repeat :: bool
  cb_strong :: nat
  cb_handle :: bool
  cb_registered :: bool
  cb_inflight :: nat
  cb_removed :: nat
  cb_runs :: nat

text \<open>\<open>ok\<close> is whether the simulator returned a registration handle.\<close>

definition register :: "cb_kind \<Rightarrow> bool \<Rightarrow> cb may_panic" where
  "register k ok =
     (if \<not> ok then panics ''vpi_register_cb failed''
      else Inr \<lparr>cb_kind = k, cb_released = False, cb_once = (k = OneShot), cb_repeat = (k = Recurring),
        cb_strong = 2, cb_handle = True, cb_registered = True, cb_inflight = 0, cb_removed = 0, cb_runs = 0\<rparr>)"

definition cb_access :: "cb \<Rightarrow> cb option" where
  "cb_access c = (if cb_strong c = 0 then None else Some c)"

definition drop_ref :: "cb \<Rightarrow> cb option" where
  "drop_ref c = (if cb_strong c = 0 then None else Some (c\<lparr>cb_strong := cb_strong c - 1\<rparr>))"

definition clone_ref :: "cb \<Rightarrow> cb option" where
  "clone_ref c = (if cb_strong c = 0 then None else Some (c\<lparr>cb_strong := cb_strong c + 1\<rparr>))"

definition vpi_remove_cb :: "cb \<Rightarrow> cb" where
  "vpi_remove_cb c = c\<lparr>cb_registered := False, cb_removed := cb_removed c + 1\<rparr>"

section \<open>The handle\<close>

text \<open>The body of \<open>drop\<close> and then the drop of the field that holds the reference.\<close>

definition handle_drop :: "bool \<Rightarrow> cb \<Rightarrow> cb option" where
  "handle_drop detached c =
     Option.bind (cb_access c) (\<lambda>c.
     Option.bind
       (if detached then Some c
        else if \<not> cb_released c then drop_ref (vpi_remove_cb (c\<lparr>cb_released := True\<rparr>))
        else Some c)
       (\<lambda>c. map_option (\<lambda>c. c\<lparr>cb_handle := False\<rparr>) (drop_ref c)))"

definition handle_forget :: "cb \<Rightarrow> cb option" where
  "handle_forget c = handle_drop True c"

section \<open>The trampoline\<close>

text \<open>\<open>run\<close> tells whether the closure is called.\<close>

definition trampoline_enter :: "cb \<Rightarrow> (cb \<times> bool) option" where
  "trampoline_enter c =
     Option.bind (clone_ref c) (\<lambda>c.
       let c = c\<lparr>cb_inflight := cb_inflight c + 1\<rparr> in
       case cb_kind c of
         OneShot \<Rightarrow>
           if \<not> cb_released c
           then (let run = cb_once c in
             map_option (\<lambda>c. (if run then c\<lparr>cb_runs := cb_runs c + 1\<rparr> else c, run))
               (drop_ref (vpi_remove_cb (c\<lparr>cb_released := True, cb_once := False\<rparr>))))
           else Some (c, False)
       | Recurring \<Rightarrow>
           if cb_repeat c then Some (c\<lparr>cb_runs := cb_runs c + 1\<rparr>, True) else Some (c, False))"

definition trampoline_exit :: "cb \<Rightarrow> cb option" where
  "trampoline_exit c = map_option (\<lambda>c. c\<lparr>cb_inflight := cb_inflight c - 1\<rparr>) (drop_ref c)"

section \<open>Panics in closures\<close>

datatype payload = PayStr string | PayString string | PayOther

definition panic_message :: "payload \<Rightarrow> string" where
  "panic_message p = (case p of PayStr s \<Rightarrow> s | PayString s \<Rightarrow> s | PayOther \<Rightarrow> ''panic (non-string payload)'')"

text \<open>To the sink if one is installed, to standard error otherwise.\<close>

definition report_panic :: "(string \<Rightarrow> 's \<Rightarrow> 's) option \<Rightarrow> payload \<Rightarrow> 's \<times> string list \<Rightarrow> 's \<times> string list" where
  "report_panic sink p st =
     (case sink of
        Some f \<Rightarrow> (f (panic_message p) (fst st), snd st)
      | None \<Rightarrow> (fst st, snd st @ [''rustdv: panic in simulator callback: '' @ panic_message p]))"

section \<open>Interleavings\<close>

datatype cb_op = OpDrop | OpForget | OpFire | OpReturn

text \<open>What may happen next: the owner drops or detaches its handle, the simulator calls a registered
  callback, a running trampoline returns.\<close>

fun cb_enabled :: "cb_op \<Rightarrow> cb \<Rightarrow> bool" where
  "cb_enabled OpDrop c \<longleftrightarrow> cb_handle c"
| "cb_enabled OpForget c \<longleftrightarrow> cb_handle c"
| "cb_enabled OpFire c \<longleftrightarrow> cb_registered c"
| "cb_enabled OpReturn c \<longleftrightarrow> 0 < cb_inflight c"

fun cb_do :: "cb_op \<Rightarrow> cb \<Rightarrow> cb option" where
  "cb_do OpDrop c = handle_drop False c"
| "cb_do OpForget c = handle_forget c"
| "cb_do OpFire c = map_option fst (trampoline_enter c)"
| "cb_do OpReturn c = trampoline_exit c"

inductive cb_reachable :: "cb \<Rightarrow> bool" where
  cr_register: "register k True = Inr c \<Longrightarrow> cb_reachable c"
| cr_do: "cb_reachable c \<Longrightarrow> cb_enabled op c \<Longrightarrow> cb_do op c = Some c' \<Longrightarrow> cb_reachable c'"

definition owners :: "cb \<Rightarrow> nat" where
  "owners c = of_bool (cb_handle c) + of_bool (\<not> cb_released c) + cb_inflight c"

definition cb_inv :: "cb \<Rightarrow> bool" where
  "cb_inv c \<longleftrightarrow> cb_strong c = owners c \<and> cb_registered c = (\<not> cb_released c) \<and> cb_removed c = of_bool (cb_released c) \<and>
     (cb_once c \<longrightarrow> cb_kind c = OneShot \<and> cb_runs c = 0) \<and>
     (cb_kind c = OneShot \<longrightarrow> cb_runs c \<le> 1 \<and> (\<not> cb_released c \<longrightarrow> cb_once c))"

lemmas cb_defs = handle_drop_def handle_forget_def cb_access_def drop_ref_def clone_ref_def vpi_remove_cb_def
  trampoline_enter_def trampoline_exit_def Let_def

lemma cb_do_inv:
  assumes "cb_inv c" "cb_enabled op c"
  shows "\<exists>c'. cb_do op c = Some c' \<and> cb_inv c'"
  using assms
  by (cases op; cases "cb_released c"; cases "cb_kind c"; cases "cb_handle c")
    (auto simp: cb_defs cb_inv_def owners_def)

lemma cb_reachable_inv: "cb_reachable c \<Longrightarrow> cb_inv c"
proof (induction rule: cb_reachable.induct)
  case (cr_register k c)
  then show ?case by (cases k) (auto simp: register_def cb_inv_def owners_def)
next
  case (cr_do c op c')
  then show ?case using cb_do_inv [of c op] by auto
qed

section \<open>Properties\<close>

text \<open>C10: No use after free and no double free: in every interleaving of dropping or detaching the handle,
  firing and returning, whatever may happen next has a result. The strong count is always the number
  of references that exist: the Rust handle, the simulator's reference until it is reclaimed, and
  one per running trampoline. As long as the simulator may call the callback the cell is alive.\<close>

theorem callback_memory_safe:
  assumes "cb_reachable c"
  shows "(\<forall>op. cb_enabled op c \<longrightarrow> (\<exists>c'. cb_do op c = Some c')) \<and> cb_strong c = owners c \<and>
    (cb_registered c \<longrightarrow> 0 < cb_strong c)"
  using cb_do_inv [OF cb_reachable_inv [OF assms]] cb_reachable_inv [OF assms]
  by (auto simp: cb_inv_def owners_def)

text \<open>A callback is removed from the simulator at most once, exactly when its reference is reclaimed,
  and the closure of a one-shot callback runs at most once.\<close>

theorem callback_released_once:
  assumes "cb_reachable c"
  shows "cb_removed c = of_bool (cb_released c) \<and> cb_registered c = (\<not> cb_released c) \<and>
    (cb_kind c = OneShot \<longrightarrow> cb_runs c \<le> 1)"
  using cb_reachable_inv [OF assms] by (auto simp: cb_inv_def)

text \<open>A one-shot that fired and whose closure dropped the handle, before the trampoline returns.\<close>

definition demo_cb :: cb where
  "demo_cb = \<lparr>cb_kind = OneShot, cb_released = True, cb_once = False, cb_repeat = False, cb_strong = 1,
     cb_handle = False, cb_registered = False, cb_inflight = 1, cb_removed = 1, cb_runs = 1\<rparr>"

lemma demo_cb_reachable: "cb_reachable demo_cb"
proof -
  define c0 where "c0 = \<lparr>cb_kind = OneShot, cb_released = False, cb_once = True, cb_repeat = False, cb_strong = 2,
    cb_handle = True, cb_registered = True, cb_inflight = 0, cb_removed = 0, cb_runs = 0\<rparr>"
  have r: "register OneShot True = Inr c0" by (simp add: register_def c0_def)
  define c1 where "c1 = demo_cb\<lparr>cb_strong := 2, cb_handle := True\<rparr>"
  have f: "cb_do OpFire c0 = Some c1" by (simp add: c1_def c0_def demo_cb_def cb_defs)
  have d: "cb_do OpDrop c1 = Some demo_cb" by (simp add: c1_def demo_cb_def cb_defs)
  show ?thesis
    by (rule cr_do [OF cr_do [OF cr_register [OF r] _ f] _ d]) (simp_all add: c0_def c1_def)
qed

theorem callback_memory_safe_witness: "\<exists>c'. cb_do OpReturn demo_cb = Some c' \<and> owners demo_cb = 1"
proof -
  have "cb_enabled OpReturn demo_cb" "cb_strong demo_cb = 1" by (simp_all add: demo_cb_def)
  with callback_memory_safe [OF demo_cb_reachable] show ?thesis by metis
qed

theorem callback_released_once_witness: "cb_removed demo_cb = 1 \<and> \<not> cb_registered demo_cb"
  using callback_released_once [OF demo_cb_reachable] by (simp add: demo_cb_def)

end
