(* ===== verification/Cycle_Model.thy ===== *)
theory Cycle_Model
  imports Gpi_Callback
begin

text \<open>
  The cycle ABI (\<open>rustdv-cycle/src/rustdv_cycle.rs\<close>) and its VPI adapter (\<open>rustdv/src/cycle_vpi.rs\<close>).
  A cycle model is a record of its three methods; each may return an error or panic, and may have
  changed its outputs before doing so. Behind the C interface a model lives in a boxed context, so
  the exported functions work on a store of contexts by address: a null pointer is \<open>None\<close>, and using
  an address that is not allocated has no result.
\<close>

section \<open>Status and models\<close>

datatype cycle_status = CContinue | CPass | CFail

fun status_raw :: "cycle_status \<Rightarrow> nat" where
  "status_raw CContinue = 0" | "status_raw CPass = 1" | "status_raw CFail = 2"

definition from_raw :: "nat \<Rightarrow> cycle_status option" where
  "from_raw n = (if n = 0 then Some CContinue else if n = 1 then Some CPass else if n = 2 then Some CFail else None)"

type_synonym 'a outcome = "payload + string + 'a"

record ('m, 'i, 'o) cycle_model =
  cm_new :: "'o \<Rightarrow> 'o \<times> 'm outcome"
  cm_step :: "'m \<Rightarrow> 'i \<Rightarrow> 'o \<Rightarrow> 'm \<times> 'o \<times> cycle_status outcome"
  cm_finish :: "'m \<Rightarrow> 'm \<times> unit outcome"

section \<open>Contexts\<close>

record 'm export_context =
  ec_model :: 'm
  ec_error :: string

record 'm contexts =
  cs_heap :: "nat \<rightharpoonup> 'm export_context"
  cs_next :: nat

definition cycle_nul :: char where "cycle_nul = CHR 0x00"

text \<open>The message as it fits a C string: every NUL byte becomes a backslash and a zero.\<close>

definition clean_message :: "string \<Rightarrow> string" where
  "clean_message msg = concat (map (\<lambda>c. if c = cycle_nul then [CHR 0x5C, CHR ''0''] else [c]) msg)"

definition set_error :: "'m export_context \<Rightarrow> string \<Rightarrow> 'm export_context" where
  "set_error c msg = c\<lparr>ec_error := clean_message msg\<rparr>"

definition cycle_panic_message :: "payload \<Rightarrow> string" where
  "cycle_panic_message p = (case p of PayStr s \<Rightarrow> s | PayString s \<Rightarrow> s | PayOther \<Rightarrow> ''non-string panic in cycle model'')"

text \<open>The address of the new context, and what is printed on standard error.\<close>

definition create_context :: "('m, 'i, 'o) cycle_model \<Rightarrow> 'm contexts \<Rightarrow> 'o option
    \<Rightarrow> 'm contexts \<times> 'o option \<times> nat option \<times> string list" where
  "create_context M cs outputs =
     (case outputs of
        None \<Rightarrow> (cs, None, None, [])
      | Some out \<Rightarrow>
          (case cm_new M out of
             (out', Inr (Inr m)) \<Rightarrow>
               (cs\<lparr>cs_heap := (cs_heap cs)(cs_next cs \<mapsto> \<lparr>ec_model = m, ec_error = []\<rparr>), cs_next := cs_next cs + 1\<rparr>,
                Some out', Some (cs_next cs), [])
           | (out', Inr (Inl msg)) \<Rightarrow> (cs, Some out', None, [''rustdv-cycle: model creation failed: '' @ msg])
           | (out', Inl p) \<Rightarrow> (cs, Some out', None, [''rustdv-cycle: model creation panicked: '' @ cycle_panic_message p])))"

definition step_context :: "('m, 'i, 'o) cycle_model \<Rightarrow> 'm contexts \<Rightarrow> nat option \<Rightarrow> 'i option \<Rightarrow> 'o option
    \<Rightarrow> ('m contexts \<times> 'o option \<times> nat) option" where
  "step_context M cs ptr inputs outputs =
     (case (ptr, inputs, outputs) of
        (Some a, Some i, Some out) \<Rightarrow>
          (case cs_heap cs a of
             None \<Rightarrow> None
           | Some c \<Rightarrow>
               (let (m', out', r) = cm_step M (ec_model c) i out;
                    c1 = c\<lparr>ec_model := m'\<rparr>;
                    (c2, raw) = (case r of
                        Inr (Inr st) \<Rightarrow> (c1, status_raw st)
                      | Inr (Inl msg) \<Rightarrow> (set_error c1 msg, status_raw CFail)
                      | Inl p \<Rightarrow> (set_error c1 (''cycle model panicked: '' @ cycle_panic_message p), status_raw CFail))
                in Some (cs\<lparr>cs_heap := (cs_heap cs)(a \<mapsto> c2)\<rparr>, Some out', raw)))
      | _ \<Rightarrow> Some (cs, outputs, status_raw CFail))"

definition finish_context :: "('m, 'i, 'o) cycle_model \<Rightarrow> 'm contexts \<Rightarrow> nat option \<Rightarrow> ('m contexts \<times> nat) option" where
  "finish_context M cs ptr =
     (case ptr of
        None \<Rightarrow> Some (cs, status_raw CFail)
      | Some a \<Rightarrow>
          (case cs_heap cs a of
             None \<Rightarrow> None
           | Some c \<Rightarrow>
               (let (m', r) = cm_finish M (ec_model c);
                    c1 = c\<lparr>ec_model := m'\<rparr>;
                    (c2, raw) = (case r of
                        Inr (Inr _) \<Rightarrow> (c1, status_raw CPass)
                      | Inr (Inl msg) \<Rightarrow> (set_error c1 msg, status_raw CFail)
                      | Inl p \<Rightarrow> (set_error c1 (''cycle model panicked during finish: '' @ cycle_panic_message p), status_raw CFail))
                in Some (cs\<lparr>cs_heap := (cs_heap cs)(a \<mapsto> c2)\<rparr>, raw))))"

definition context_error :: "'m contexts \<Rightarrow> nat option \<Rightarrow> string option option" where
  "context_error cs ptr =
     (case ptr of None \<Rightarrow> Some None | Some a \<Rightarrow> (case cs_heap cs a of None \<Rightarrow> None | Some c \<Rightarrow> Some (Some (ec_error c))))"

definition destroy_context :: "'m contexts \<Rightarrow> nat option \<Rightarrow> 'm contexts option" where
  "destroy_context cs ptr =
     (case ptr of
        None \<Rightarrow> Some cs
      | Some a \<Rightarrow> (case cs_heap cs a of None \<Rightarrow> None | Some _ \<Rightarrow> Some (cs\<lparr>cs_heap := (cs_heap cs)(a := None)\<rparr>)))"

section \<open>The VPI adapter\<close>

text \<open>\<open>tick\<close> lets the simulation run to the settled point after the next rising edge, \<open>sample\<close> and
  \<open>drive\<close> are the closures that translate handles. The loop runs until the model says something
  other than continue; \<open>None\<close> means that it has not within the given number of edges. A panic of
  the model unwinds out of the adapter.\<close>

record ('s, 'i, 'o) vpi_world =
  vw_tick :: "'s \<Rightarrow> 's"
  vw_sample :: "'s \<Rightarrow> string + 'i"
  vw_drive :: "'o \<Rightarrow> 's \<Rightarrow> 's \<times> (string + unit)"

fun vpi_loop :: "('m, 'i, 'o) cycle_model \<Rightarrow> ('s, 'i, 'o) vpi_world \<Rightarrow> nat \<Rightarrow> 'm \<Rightarrow> 'o \<Rightarrow> 's
    \<Rightarrow> ('m \<times> 's \<times> (string + cycle_status)) may_panic option" where
  "vpi_loop M W 0 m out s = None"
| "vpi_loop M W (Suc k) m out s =
     (let s1 = vw_tick W s in
      case vw_sample W s1 of
        Inl e \<Rightarrow> Some (Inr (m, s1, Inl e))
      | Inr i \<Rightarrow>
          (case cm_step M m i out of
             (m', out', Inl p) \<Rightarrow> Some (panics (cycle_panic_message p))
           | (m', out', Inr (Inl e)) \<Rightarrow> Some (Inr (m', s1, Inl e))
           | (m', out', Inr (Inr CContinue)) \<Rightarrow>
               (case vw_drive W out' s1 of
                  (s2, Inl e) \<Rightarrow> Some (Inr (m', s2, Inl e))
                | (s2, Inr _) \<Rightarrow> vpi_loop M W k m' out' s2)
           | (m', out', Inr (Inr st)) \<Rightarrow> Some (Inr (m', s1, Inr st))))"

definition run_cycle_model_vpi :: "('m, 'i, 'o) cycle_model \<Rightarrow> ('s, 'i, 'o) vpi_world \<Rightarrow> nat \<Rightarrow> 'o \<Rightarrow> 's
    \<Rightarrow> ('s \<times> (string + cycle_status)) may_panic option" where
  "run_cycle_model_vpi M W k dflt s =
     (case cm_new M dflt of
        (out, Inl p) \<Rightarrow> Some (panics (cycle_panic_message p))
      | (out, Inr (Inl e)) \<Rightarrow> Some (Inr (s, Inl e))
      | (out, Inr (Inr m)) \<Rightarrow>
          (case vw_drive W out s of
             (s1, Inl e) \<Rightarrow> Some (Inr (s1, Inl e))
           | (s1, Inr _) \<Rightarrow>
               (case vpi_loop M W k m out s1 of
                  None \<Rightarrow> None
                | Some (Inl p) \<Rightarrow> Some (Inl p)
                | Some (Inr (m', s2, r)) \<Rightarrow>
                    (case cm_finish M m' of
                       (_, Inl p) \<Rightarrow> Some (panics (cycle_panic_message p))
                     | (_, Inr fin) \<Rightarrow>
                         Some (Inr (s2, case r of
                             Inl e \<Rightarrow> Inl e
                           | Inr st \<Rightarrow> (case fin of Inl e \<Rightarrow> Inl e | Inr _ \<Rightarrow> Inr st)))))))"

section \<open>Lemmas\<close>

lemma from_raw_status [simp]: "from_raw (status_raw st) = Some st"
  by (cases st) (simp_all add: from_raw_def)

lemma clean_message_nul: "cycle_nul \<notin> set (clean_message msg)"
  by (auto simp: clean_message_def cycle_nul_def)

lemma clean_message_id: "cycle_nul \<notin> set msg \<Longrightarrow> clean_message msg = msg"
  by (induction msg) (auto simp: clean_message_def)

text \<open>The direct run of a model, with errors and panics as the failing status.\<close>

definition outcome_status :: "cycle_status outcome \<Rightarrow> cycle_status" where
  "outcome_status r = (case r of Inr (Inr st) \<Rightarrow> st | _ \<Rightarrow> CFail)"

fun pure_run :: "('m, 'i, 'o) cycle_model \<Rightarrow> 'm \<Rightarrow> 'i list \<Rightarrow> 'o \<Rightarrow> 'm \<times> 'o \<times> cycle_status list" where
  "pure_run M m [] out = (m, out, [])"
| "pure_run M m (i # is) out =
     (let (m1, out1, r) = cm_step M m i out; (m2, out2, sts) = pure_run M m1 is out1
      in (m2, out2, outcome_status r # sts))"

fun context_run :: "('m, 'i, 'o) cycle_model \<Rightarrow> 'm contexts \<Rightarrow> nat \<Rightarrow> 'i list \<Rightarrow> 'o \<Rightarrow> ('m contexts \<times> 'o \<times> nat list) option" where
  "context_run M cs a [] out = Some (cs, out, [])"
| "context_run M cs a (i # is) out =
     (case step_context M cs (Some a) (Some i) (Some out) of
        Some (cs1, Some out1, raw) \<Rightarrow> map_option (\<lambda>(cs2, out2, raws). (cs2, out2, raw # raws)) (context_run M cs1 a is out1)
      | _ \<Rightarrow> None)"

text \<open>The text a caller should find: that of the last step that failed, or what was there before.\<close>

definition step_error :: "cycle_status outcome \<Rightarrow> string option" where
  "step_error r = (case r of Inr (Inr _) \<Rightarrow> None | Inr (Inl msg) \<Rightarrow> Some msg
     | Inl p \<Rightarrow> Some (''cycle model panicked: '' @ cycle_panic_message p))"

fun last_error :: "('m, 'i, 'o) cycle_model \<Rightarrow> 'm \<Rightarrow> 'i list \<Rightarrow> 'o \<Rightarrow> string \<Rightarrow> string" where
  "last_error M m [] out e = e"
| "last_error M m (i # is) out e =
     (let (m1, out1, r) = cm_step M m i out in last_error M m1 is out1 (case step_error r of Some e' \<Rightarrow> e' | None \<Rightarrow> e))"

definition finish_error :: "unit outcome \<Rightarrow> string option" where
  "finish_error r = (case r of Inr (Inr _) \<Rightarrow> None | Inr (Inl msg) \<Rightarrow> Some msg
     | Inl p \<Rightarrow> Some (''cycle model panicked during finish: '' @ cycle_panic_message p))"

lemma step_context_live:
  assumes "cs_heap cs a = Some c" "cm_step M (ec_model c) i out = (m', out', r)" "ec_error c = clean_message e"
  shows "step_context M cs (Some a) (Some i) (Some out) =
      Some (cs\<lparr>cs_heap := (cs_heap cs)(a \<mapsto> \<lparr>ec_model = m',
          ec_error = clean_message (case step_error r of Some e' \<Rightarrow> e' | None \<Rightarrow> e)\<rparr>)\<rparr>,
        Some out', status_raw (outcome_status r))"
  using assms
  by (cases c; cases r) (auto simp: step_context_def Let_def outcome_status_def set_error_def step_error_def split: sum.splits)

lemma finish_context_live:
  assumes "cs_heap cs a = Some c" "cm_finish M (ec_model c) = (m', r)" "ec_error c = clean_message e"
  shows "finish_context M cs (Some a) =
      Some (cs\<lparr>cs_heap := (cs_heap cs)(a \<mapsto> \<lparr>ec_model = m',
          ec_error = clean_message (case finish_error r of Some e' \<Rightarrow> e' | None \<Rightarrow> e)\<rparr>)\<rparr>,
        status_raw (if finish_error r = None then CPass else CFail))"
  using assms
  by (cases c; cases r) (auto simp: finish_context_def Let_def set_error_def finish_error_def split: sum.splits)

lemma context_run_refines:
  "cs_heap cs a = Some c \<Longrightarrow> ec_error c = clean_message e \<Longrightarrow> pure_run M (ec_model c) is out = (m, out', sts) \<Longrightarrow>
     \<exists>cs'. context_run M cs a is out = Some (cs', out', map status_raw sts) \<and>
       cs_heap cs' a = Some \<lparr>ec_model = m, ec_error = clean_message (last_error M (ec_model c) is out e)\<rparr>"
proof (induction "is" arbitrary: cs c out sts e)
  case (Cons i "is")
  obtain m1 out1 r where s: "cm_step M (ec_model c) i out = (m1, out1, r)" by (cases "cm_step M (ec_model c) i out")
  obtain sts1 where p: "pure_run M m1 is out1 = (m, out', sts1)" and sts: "sts = outcome_status r # sts1"
    using Cons.prems(3) s by (auto split: prod.splits)
  let ?e = "case step_error r of Some e' \<Rightarrow> e' | None \<Rightarrow> e"
  let ?c = "\<lparr>ec_model = m1, ec_error = clean_message ?e\<rparr>"
  let ?cs = "cs\<lparr>cs_heap := (cs_heap cs)(a \<mapsto> ?c)\<rparr>"
  have "\<exists>cs'. context_run M ?cs a is out1 = Some (cs', out', map status_raw sts1) \<and>
      cs_heap cs' a = Some \<lparr>ec_model = m, ec_error = clean_message (last_error M (ec_model ?c) is out1 ?e)\<rparr>"
    by (rule Cons.IH) (simp_all add: p)
  with step_context_live [OF Cons.prems(1) s Cons.prems(2)] s sts show ?case by auto
qed auto

section \<open>Properties\<close>

text \<open>C7: The exported interface runs the model: from a live context, stepping through the C functions
  hands back the outputs and the numeric statuses of the model itself, step by step, with every
  error and every panic turned into the failing status. The context stays allocated, and the text
  the caller reads from it is that of the last failed step (the model's own error, or its panic
  message behind a prefix; empty if no step failed), with each NUL byte written out as a
  backslash and a zero. Finishing reports pass or fail as the model's finish does and puts the
  text of a failure there in the same way; only then does the context go away.\<close>

theorem exported_model_refines:
  assumes "create_context M cs (Some out0) = (cs1, Some out, Some a, log)"
  shows "\<exists>m. cm_new M out0 = (out, Inr (Inr m)) \<and>
    (\<exists>cs2. context_run M cs1 a is out = (case pure_run M m is out of (_, out', sts) \<Rightarrow> Some (cs2, out', map status_raw sts)) \<and>
      context_error cs2 (Some a) = Some (Some (clean_message (last_error M m is out []))) \<and>
      (\<exists>cs3 cs4. finish_context M cs2 (Some a) =
          Some (cs3, status_raw (if finish_error (snd (cm_finish M (fst (pure_run M m is out)))) = None then CPass else CFail)) \<and>
        context_error cs3 (Some a) = Some (Some (clean_message
          (case finish_error (snd (cm_finish M (fst (pure_run M m is out)))) of
             Some e \<Rightarrow> e | None \<Rightarrow> last_error M m is out []))) \<and>
        destroy_context cs3 (Some a) = Some cs4 \<and> context_error cs4 (Some a) = None))"
proof -
  obtain m where m: "cm_new M out0 = (out, Inr (Inr m))"
    and cs1: "cs1 = cs\<lparr>cs_heap := (cs_heap cs)(a \<mapsto> \<lparr>ec_model = m, ec_error = []\<rparr>), cs_next := cs_next cs + 1\<rparr>"
    using assms by (auto simp: create_context_def split: prod.splits sum.splits)
  have nil: "clean_message [] = []" by (simp add: clean_message_def)
  obtain m' out' sts where p: "pure_run M m is out = (m', out', sts)" by (cases "pure_run M m is out")
  let ?e = "last_error M m is out []"
  obtain cs2 where c2: "context_run M cs1 a is out = Some (cs2, out', map status_raw sts)"
    "cs_heap cs2 a = Some \<lparr>ec_model = m', ec_error = clean_message ?e\<rparr>"
    using context_run_refines [of cs1 a "\<lparr>ec_model = m, ec_error = []\<rparr>" "[]" M "is" out m' out' sts] p
    by (auto simp: cs1 nil)
  obtain m3 r where f: "cm_finish M m' = (m3, r)" by (cases "cm_finish M m'")
  from finish_context_live [OF c2(2), of M m3 r ?e] f p m c2 show ?thesis
    by (simp add: context_error_def destroy_context_def)
qed

definition demo_cycle :: "(nat, nat, nat) cycle_model" where
  "demo_cycle = \<lparr>cm_new = (\<lambda>out. (1, Inr (Inr 0))),
     cm_step = (\<lambda>m i out. (m + 1, out + i, if i = 9 then Inl (PayStr ''boom'') else Inr (Inr (if 4 \<le> out + i then CPass else CContinue)))),
     cm_finish = (\<lambda>m. (m, Inr (Inr ())))\<rparr>"

definition no_contexts :: "nat contexts" where
  "no_contexts = \<lparr>cs_heap = Map.empty, cs_next = 5\<rparr>"

theorem exported_model_refines_witness:
  "\<exists>cs1 cs2. create_context demo_cycle no_contexts (Some 0) = (cs1, Some 1, Some 5, []) \<and>
     context_run demo_cycle cs1 5 [3, 9] 1 = Some (cs2, 13, [1, 2]) \<and>
     context_error cs2 (Some 5) = Some (Some ''cycle model panicked: boom'')"
proof -
  obtain cs1 where c: "create_context demo_cycle no_contexts (Some 0) = (cs1, Some 1, Some 5, [])"
    by (simp add: create_context_def demo_cycle_def no_contexts_def)
  have "pure_run demo_cycle 0 [3, 9] 1 = (2, 13, [CPass, CFail])" by (simp add: demo_cycle_def outcome_status_def)
  moreover have "cm_new demo_cycle 0 = (1, Inr (Inr 0))" by (simp add: demo_cycle_def)
  moreover have "clean_message (last_error demo_cycle 0 [3, 9] 1 []) = ''cycle model panicked: boom''"
    by (simp add: demo_cycle_def step_error_def cycle_panic_message_def clean_message_def cycle_nul_def)
  ultimately show ?thesis
    using exported_model_refines [OF c, of "[3, 9]"] c by (auto simp: no_contexts_def)
qed

end
