(* ===== verification/Stream_Model.thy ===== *)
theory Stream_Model
  imports Cycle_Model Logic_Value
begin

text \<open>
  The stream benchmark (\<open>benchmarks/stream-model/src/lib.rs\<close>): the value model that drives and checks
  a ready/valid stream, with its pseudo-random stimulus and its digests on machine words. Counters
  wrap as in a release build. The design under test, \<open>stream_bench.sv\<close>, is translated as well, so that
  the bench can be run against it.
\<close>

section \<open>Values\<close>

record bench_inputs =
  in_s_ready :: u8
  in_m_valid :: u8
  in_m_data :: u64
  in_m_id :: u16
  in_m_last :: u8
  in_m_user :: u8
  in_accepted :: u64

record bench_outputs =
  ot_reset_n :: u8
  ot_s_valid :: u8
  ot_s_data :: u64
  ot_s_id :: u16
  ot_s_last :: u8
  ot_s_user :: u8
  ot_m_ready :: u8
  ot_inject_error :: u8

record bench_report =
  br_transactions :: u64
  br_cycles :: u64
  br_digest :: u64
  br_trace_digest :: u64

datatype step_status = SContinue | SPass bench_report | SFail string

record bench_model =
  bm_target :: u64
  bm_seed :: u64
  bm_inject_error :: bool
  bm_cycles :: u64
  bm_transactions :: u64
  bm_digest :: u64
  bm_trace_digest :: u64

definition RESET_CYCLES :: u64 where "RESET_CYCLES = 4"
definition DATA_XOR :: u64 where "DATA_XOR = 0xd6e8feb86659fd93"
definition DATA_ADD :: u64 where "DATA_ADD = 0xa5a55a5a12345678"

section \<open>Stimulus\<close>

definition mix64 :: "u64 \<Rightarrow> u64" where
  "mix64 v0 =
     (let v1 = v0 + 0x9e3779b97f4a7c15;
          v2 = (v1 XOR drop_bit 30 v1) * 0xbf58476d1ce4e5b9;
          v3 = (v2 XOR drop_bit 27 v2) * 0x94d049bb133111eb
      in v3 XOR drop_bit 31 v3)"

definition bench_payload :: "u64 \<Rightarrow> u64 \<Rightarrow> u64" where
  "bench_payload seed index = mix64 (seed XOR (index * 0x9e3779b97f4a7c15))"

definition user_value :: "u64 \<Rightarrow> u64 \<Rightarrow> u8" where
  "user_value seed index = ucast (drop_bit 56 (mix64 (seed XOR index XOR 0x6a09e667f3bcc909)))"

definition source_open :: "u64 \<Rightarrow> u64 \<Rightarrow> bool" where
  "source_open seed cycle \<longleftrightarrow> mix64 (seed XOR (cycle * 0xd1342543de82ef95)) AND 7 \<noteq> 0"

definition ready_open :: "u64 \<Rightarrow> u64 \<Rightarrow> bool" where
  "ready_open seed cycle \<longleftrightarrow> mix64 (seed XOR (cycle * 0x94d049bb133111eb) XOR 0xa4093822299f31d0) AND 15 \<noteq> 0"

definition last_value :: "u64 \<Rightarrow> u8" where
  "last_value index = of_bool (index AND 0xff = 0xff)"

definition transform_data :: "u64 \<Rightarrow> u16 \<Rightarrow> u64" where
  "transform_data data i = word_rotl 13 (data XOR DATA_XOR) + DATA_ADD + ucast i"

definition digest_update :: "u64 \<Rightarrow> u64 \<Rightarrow> u16 \<Rightarrow> u8 \<Rightarrow> u8 \<Rightarrow> u64" where
  "digest_update digest data i l user =
     (let sidebands = (ucast i OR push_bit 16 (ucast l) OR push_bit 24 (ucast user)) :: u64
      in word_rotl 7 digest XOR data XOR (sidebands * 0x9e3779b97f4a7c15))"

definition trace_digest_update :: "u64 \<Rightarrow> u64 \<Rightarrow> bench_inputs \<Rightarrow> bench_outputs \<Rightarrow> u64" where
  "trace_digest_update digest cycle i out =
     (let m_data = (if in_m_valid i \<noteq> 0 then in_m_data i else 0);
          s_data = (if ot_s_valid out \<noteq> 0 then ot_s_data out else 0);
          (m_id, m_last, m_user) = (if in_m_valid i \<noteq> 0 then (in_m_id i, in_m_last i, in_m_user i) else (0, 0, 0));
          (s_id, s_last, s_user) = (if ot_s_valid out \<noteq> 0 then (ot_s_id out, ot_s_last out, ot_s_user out) else (0, 0, 0));
          flags = (ucast (ot_reset_n out) OR push_bit 1 (ucast (ot_s_valid out)) OR push_bit 2 (ucast (in_s_ready i)) OR
            push_bit 3 (ucast (in_m_valid i)) OR push_bit 4 (ucast (ot_m_ready out)) OR push_bit 5 (ucast m_last) OR
            push_bit 6 (ucast s_last) OR push_bit 8 (ucast m_user) OR push_bit 16 (ucast s_user)) :: u64;
          sidebands = ucast m_id OR push_bit 16 (ucast s_id) OR push_bit 32 flags
      in mix64 (digest XOR mix64 cycle XOR mix64 (in_accepted i) XOR mix64 m_data XOR mix64 s_data XOR mix64 sidebands))"

section \<open>The model\<close>

definition bench_new :: "u64 \<Rightarrow> u64 \<Rightarrow> bool \<Rightarrow> (bench_model \<times> bench_outputs) may_panic" where
  "bench_new target seed inject =
     (if \<not> 0 < target then panics ''benchmark transaction count must be positive''
      else Inr (\<lparr>bm_target = target, bm_seed = seed, bm_inject_error = inject, bm_cycles = 0, bm_transactions = 0,
          bm_digest = 0, bm_trace_digest = 0\<rparr>,
        \<lparr>ot_reset_n = 0, ot_s_valid = 0, ot_s_data = 0, ot_s_id = 0, ot_s_last = 0, ot_s_user = 0, ot_m_ready = 0,
          ot_inject_error = of_bool inject\<rparr>))"

definition load_source_for_cycle :: "bench_model \<Rightarrow> u64 \<Rightarrow> bench_outputs \<Rightarrow> bench_outputs" where
  "load_source_for_cycle m active_cycle out =
     (let out1 = (if source_open (bm_seed m) active_cycle
          then (let index = bm_transactions m in
            out\<lparr>ot_s_valid := 1, ot_s_data := bench_payload (bm_seed m) index, ot_s_id := ucast index,
              ot_s_last := last_value index, ot_s_user := user_value (bm_seed m) index\<rparr>)
          else out\<lparr>ot_s_valid := 0\<rparr>)
      in out1\<lparr>ot_inject_error := of_bool (bm_inject_error m)\<rparr>)"

definition dec :: "'a::len word \<Rightarrow> string" where
  "dec w = dec_string (unat w)"

definition hex_digit :: "nat \<Rightarrow> char" where
  "hex_digit d = ''0123456789abcdef'' ! (d mod 16)"

fun hex_string :: "nat \<Rightarrow> nat \<Rightarrow> string" where
  "hex_string 0 n = []"
| "hex_string (Suc k) n = hex_string k (n div 16) @ [hex_digit n]"

definition bool_string :: "bool \<Rightarrow> string" where
  "bool_string b = (if b then ''true'' else ''false'')"

definition mismatch_message :: "bench_inputs \<Rightarrow> u64 \<Rightarrow> u64 \<Rightarrow> u16 \<Rightarrow> u8 \<Rightarrow> u8 \<Rightarrow> string" where
  "mismatch_message i index data ident l user =
     ''payload mismatch for transfer '' @ dec index @ '': got data=0x'' @ hex_string 16 (unat (in_m_data i)) @
     '' id=0x'' @ hex_string 4 (unat (in_m_id i)) @ '' last='' @ dec (in_m_last i) @ '' user=0x'' @ hex_string 2 (unat (in_m_user i)) @
     ''; expected data=0x'' @ hex_string 16 (unat data) @ '' id=0x'' @ hex_string 4 (unat ident) @ '' last='' @ dec l @
     '' user=0x'' @ hex_string 2 (unat user)"

definition bench_check :: "bench_model \<Rightarrow> bench_inputs \<Rightarrow> bench_outputs \<Rightarrow> string option" where
  "bench_check m i out =
     (let accepted = (ot_s_valid out \<noteq> 0 \<and> in_s_ready i \<noteq> 0);
          emitted = (in_m_valid i \<noteq> 0 \<and> ot_m_ready out \<noteq> 0);
          index = bm_transactions m;
          data = transform_data (bench_payload (bm_seed m) index) (ucast index);
          user = user_value (bm_seed m) index
      in if accepted \<noteq> emitted
         then Some (''ready/valid transfer disagreement at cycle '' @ dec (bm_cycles m) @ '': input='' @ bool_string accepted @
           '' output='' @ bool_string emitted)
         else if in_s_ready i \<noteq> ot_m_ready out
         then Some (''ready path mismatch at cycle '' @ dec (bm_cycles m) @ '': s_ready='' @ dec (in_s_ready i) @ '' m_ready='' @ dec (ot_m_ready out))
         else if in_m_valid i \<noteq> ot_s_valid out
         then Some (''valid path mismatch at cycle '' @ dec (bm_cycles m) @ '': m_valid='' @ dec (in_m_valid i) @ '' s_valid='' @ dec (ot_s_valid out))
         else if in_m_valid i \<noteq> 0 \<and>
           (in_m_data i \<noteq> data \<or> in_m_id i \<noteq> ucast index \<or> in_m_last i \<noteq> last_value index \<or> in_m_user i \<noteq> user)
         then Some (mismatch_message i index data (ucast index) (last_value index) user)
         else None)"

definition bench_step :: "bench_model \<Rightarrow> bench_inputs \<Rightarrow> bench_outputs \<Rightarrow> bench_model \<times> bench_outputs \<times> step_status" where
  "bench_step m0 i out =
     (let m1 = m0\<lparr>bm_cycles := bm_cycles m0 + 1\<rparr>;
          m = m1\<lparr>bm_trace_digest := trace_digest_update (bm_trace_digest m1) (bm_cycles m1) i out\<rparr>
      in if ot_reset_n out = 0
         then if in_m_valid i \<noteq> 0 \<or> in_accepted i \<noteq> 0
           then (m, out, SFail (''DUT was active during reset: m_valid='' @ dec (in_m_valid i) @ '' accepted_count='' @ dec (in_accepted i)))
           else if RESET_CYCLES \<le> bm_cycles m
           then (m, load_source_for_cycle m 0 (out\<lparr>ot_reset_n := 1, ot_m_ready := of_bool (ready_open (bm_seed m) 0)\<rparr>), SContinue)
           else (m, out, SContinue)
         else (case bench_check m i out of
             Some msg \<Rightarrow> (m, out, SFail msg)
           | None \<Rightarrow>
               (let accepted = (ot_s_valid out \<noteq> 0 \<and> in_s_ready i \<noteq> 0);
                    emitted = (in_m_valid i \<noteq> 0 \<and> ot_m_ready out \<noteq> 0);
                    m2 = (if emitted
                      then m\<lparr>bm_digest := digest_update (bm_digest m) (in_m_data i) (in_m_id i) (in_m_last i) (in_m_user i),
                        bm_transactions := bm_transactions m + 1\<rparr>
                      else m)
                in if in_accepted i \<noteq> bm_transactions m2
                   then (m2, out, SFail (''DUT accepted_count mismatch at cycle '' @ dec (bm_cycles m2) @ '': got '' @ dec (in_accepted i) @
                     '', expected '' @ dec (bm_transactions m2)))
                   else if bm_transactions m2 = bm_target m2
                   then (m2, out\<lparr>ot_s_valid := 0\<rparr>, SPass \<lparr>br_transactions = bm_transactions m2, br_cycles = bm_cycles m2 - RESET_CYCLES,
                     br_digest = bm_digest m2, br_trace_digest = bm_trace_digest m2\<rparr>)
                   else
                     (let active_cycle = bm_cycles m2 - RESET_CYCLES;
                          out1 = out\<lparr>ot_m_ready := of_bool (ready_open (bm_seed m2) active_cycle)\<rparr>;
                          out2 = (if accepted \<or> ot_s_valid out1 = 0 then load_source_for_cycle m2 active_cycle out1 else out1)
                      in (m2, out2, SContinue)))))"

section \<open>The design under test\<close>

text \<open>The registers after the clock edge and the combinational outputs, sampled after the edge with
  the inputs still driven.\<close>

definition dut_clock :: "u64 \<Rightarrow> bench_outputs \<Rightarrow> u64" where
  "dut_clock count out =
     (if ot_reset_n out AND 1 = 0 then 0
      else if ot_s_valid out AND 1 \<noteq> 0 \<and> ot_m_ready out AND 1 \<noteq> 0 then count + 1
      else count)"

definition dut_transform :: "u64 \<Rightarrow> u16 \<Rightarrow> u64" where
  "dut_transform data i =
     (let mixed = data XOR 0xd6e8feb86659fd93
      in (push_bit 13 mixed OR drop_bit 51 mixed) + 0xa5a55a5a12345678 + ucast i)"

definition dut_sample :: "u64 \<Rightarrow> bench_outputs \<Rightarrow> bench_inputs" where
  "dut_sample count out =
     (let data = dut_transform (ot_s_data out) (ot_s_id out) in
      \<lparr>in_s_ready = ot_m_ready out AND 1, in_m_valid = ot_s_valid out AND 1,
       in_m_data = (if ot_inject_error out AND 1 \<noteq> 0 \<and> count = 127 then data XOR 1 else data),
       in_m_id = ot_s_id out, in_m_last = ot_s_last out AND 1, in_m_user = ot_s_user out, in_accepted = count\<rparr>)"

type_synonym bench_state = "bench_model \<times> bench_outputs \<times> u64"

definition bench_cycle :: "bench_state \<Rightarrow> bench_state \<times> step_status" where
  "bench_cycle s =
     (case s of (m, out, count) \<Rightarrow>
        (let count' = dut_clock count out; (m', out', st) = bench_step m (dut_sample count' out) out
         in ((m', out', count'), st)))"

fun bench_run :: "nat \<Rightarrow> bench_state \<Rightarrow> bench_state \<times> step_status" where
  "bench_run 0 s = (s, SContinue)"
| "bench_run (Suc k) s = (case bench_cycle s of (s', st) \<Rightarrow> if st = SContinue then bench_run k s' else (s', st))"

section \<open>The bench and the design in step\<close>

lemma dut_transform_eq: "dut_transform = transform_data"
proof (intro ext)
  fix data :: u64 and i :: u16
  have "push_bit 13 x OR drop_bit 51 x = word_rotl 13 x" for x :: u64
  proof (rule bit_word_eqI)
    fix n assume "n < LENGTH(64)"
    then have n: "n < 64" by simp
    show "bit (push_bit 13 x OR drop_bit 51 x) n = bit (word_rotl 13 x) n"
    proof (cases "n < 13")
      case True
      then show ?thesis by (simp add: bit_simps add.commute)
    next
      case False
      then have "(n + 51) mod 64 = n - 13" using n by (simp add: mod_if)
      moreover have "\<not> bit x (51 + n)" using False bit_imp_le_length [of x "51 + n"] by auto
      ultimately show ?thesis using False n by (simp add: bit_simps)
    qed
  qed
  then show "dut_transform data i = transform_data data i"
    by (simp add: dut_transform_def transform_data_def DATA_XOR_def DATA_ADD_def Let_def)
qed

definition presented :: "bench_model \<Rightarrow> bench_outputs \<Rightarrow> bool" where
  "presented m out \<longleftrightarrow> ot_s_valid out = 0 \<or> ot_s_valid out = 1 \<and> ot_s_data out = bench_payload (bm_seed m) (bm_transactions m) \<and>
     ot_s_id out = ucast (bm_transactions m) \<and> ot_s_last out = last_value (bm_transactions m) \<and>
     ot_s_user out = user_value (bm_seed m) (bm_transactions m)"

definition transfer_digest :: "u64 \<Rightarrow> u64 \<Rightarrow> u64 \<Rightarrow> u64" where
  "transfer_digest seed index d =
     digest_update d (transform_data (bench_payload seed index) (ucast index)) (ucast index) (last_value index) (user_value seed index)"

definition ref_digest :: "u64 \<Rightarrow> nat \<Rightarrow> u64" where
  "ref_digest seed n = fold (\<lambda>i. transfer_digest seed (of_nat i)) [0..<n] 0"

lemma ref_digest_Suc: "ref_digest seed (Suc n) = transfer_digest seed (of_nat n) (ref_digest seed n)"
  by (simp add: ref_digest_def)

lemma load_source [simp]:
  "presented m (load_source_for_cycle m k out)"
  "ot_reset_n (load_source_for_cycle m k out) = ot_reset_n out"
  "ot_m_ready (load_source_for_cycle m k out) = ot_m_ready out"
  "ot_inject_error (load_source_for_cycle m k out) = of_bool (bm_inject_error m)"
  by (simp_all add: load_source_for_cycle_def presented_def Let_def)

lemma bit0_u8: "(of_bool b :: u8) AND 1 = of_bool b"
  by (cases b) simp_all

lemma last_value_bit: "last_value i AND 1 = last_value i"
  by (simp add: last_value_def bit0_u8)

lemma flipped: "(x :: u64) XOR 1 \<noteq> x"
proof
  assume "x XOR 1 = x"
  then have "bit (x XOR 1) 0 = bit x 0" by simp
  then show False by (simp add: bit_simps)
qed

lemma bench_check_presented:
  assumes "presented m out" "ot_m_ready out = of_bool rdy" "ot_inject_error out = of_bool flt"
  shows "bench_check m (dut_sample c out) out = None \<longleftrightarrow> \<not> (ot_s_valid out = 1 \<and> flt \<and> c = 127)"
proof (cases "ot_s_valid out = 0")
  case True
  with assms show ?thesis
    by (cases rdy) (auto simp: bench_check_def dut_sample_def Let_def)
next
  case False
  with assms(1) have p: "ot_s_valid out = 1" "ot_s_data out = bench_payload (bm_seed m) (bm_transactions m)"
    "ot_s_id out = ucast (bm_transactions m)" "ot_s_last out = last_value (bm_transactions m)"
    "ot_s_user out = user_value (bm_seed m) (bm_transactions m)"
    by (auto simp: presented_def)
  show ?thesis
    using assms(2,3)
    by (cases rdy; cases flt) (auto simp: bench_check_def dut_sample_def Let_def p dut_transform_eq last_value_bit flipped)
qed

definition bench_inv :: "u64 \<Rightarrow> u64 \<Rightarrow> bool \<Rightarrow> bench_state \<Rightarrow> bool" where
  "bench_inv target seed flt s \<longleftrightarrow>
     (case s of (m, out, count) \<Rightarrow>
        bm_target m = target \<and> bm_seed m = seed \<and> bm_inject_error m = flt \<and> ot_inject_error out = of_bool flt \<and>
        unat (bm_transactions m) < unat target \<and> (flt \<longrightarrow> unat (bm_transactions m) < 127) \<and>
        bm_digest m = ref_digest seed (unat (bm_transactions m)) \<and> (ot_m_ready out = 0 \<or> ot_m_ready out = 1) \<and>
        (if ot_reset_n out = 0 then bm_transactions m = 0 \<and> ot_s_valid out = 0
         else ot_reset_n out = 1 \<and> count = bm_transactions m \<and> presented m out))"

lemma bench_new_inv:
  assumes "bench_new target seed flt = Inr (m, out)"
  shows "bench_inv target seed flt (m, out, count)"
proof -
  have t: "0 < unat target" using assms by (simp add: bench_new_def word_less_nat_alt split: if_splits)
  have "m = \<lparr>bm_target = target, bm_seed = seed, bm_inject_error = flt, bm_cycles = 0, bm_transactions = 0,
      bm_digest = 0, bm_trace_digest = 0\<rparr>"
    "ot_reset_n out = 0" "ot_s_valid out = 0" "ot_m_ready out = 0" "ot_inject_error out = of_bool flt"
    using assms by (auto simp: bench_new_def split: if_splits)
  with t show ?thesis by (simp add: bench_inv_def ref_digest_def)
qed

definition verdict_ok :: "u64 \<Rightarrow> u64 \<Rightarrow> bool \<Rightarrow> bench_state \<Rightarrow> step_status \<Rightarrow> bool" where
  "verdict_ok target seed flt s st \<longleftrightarrow>
     (case st of
        SContinue \<Rightarrow> bench_inv target seed flt s
      | SPass r \<Rightarrow> \<not> flt \<and> br_transactions r = target \<and> br_digest r = ref_digest seed (unat target)
      | SFail _ \<Rightarrow> flt)"

text \<open>The counters every step updates first.\<close>

definition ticked :: "bench_model \<Rightarrow> bench_inputs \<Rightarrow> bench_outputs \<Rightarrow> bench_model" where
  "ticked m i out = m\<lparr>bm_cycles := bm_cycles m + 1, bm_trace_digest := trace_digest_update (bm_trace_digest m) (bm_cycles m + 1) i out\<rparr>"

lemma ticked_fields [simp]:
  "bm_target (ticked m i out) = bm_target m" "bm_seed (ticked m i out) = bm_seed m"
  "bm_inject_error (ticked m i out) = bm_inject_error m" "bm_transactions (ticked m i out) = bm_transactions m"
  "bm_digest (ticked m i out) = bm_digest m" "presented (ticked m i out) out' = presented m out'"
  by (simp_all add: ticked_def presented_def)

lemma presented_ticked [simp]: "presented m (load_source_for_cycle (ticked m i out) k out')"
  using load_source(1) [of "ticked m i out" k out'] by (simp only: ticked_fields)

lemma bench_step_reset:
  assumes "ot_reset_n out = 0" "in_m_valid i = 0" "in_accepted i = 0"
  shows "\<exists>out'. bench_step m i out = (ticked m i out, out', SContinue) \<and>
    (out' = out \<or> out' = load_source_for_cycle (ticked m i out) 0
       (out\<lparr>ot_reset_n := 1, ot_m_ready := of_bool (ready_open (bm_seed m) 0)\<rparr>))"
  using assms by (simp add: bench_step_def ticked_def Let_def)

definition transferred :: "bench_model \<Rightarrow> bench_inputs \<Rightarrow> bench_outputs \<Rightarrow> bench_model" where
  "transferred m i out =
     (if in_m_valid i \<noteq> 0 \<and> ot_m_ready out \<noteq> 0
      then m\<lparr>bm_digest := digest_update (bm_digest m) (in_m_data i) (in_m_id i) (in_m_last i) (in_m_user i),
        bm_transactions := bm_transactions m + 1\<rparr>
      else m)"

lemma bench_step_active:
  assumes "ot_reset_n out \<noteq> 0" "bench_check (ticked m i out) i out = None"
    and "m2 = transferred (ticked m i out) i out" "in_accepted i = bm_transactions m2"
  shows "bench_step m i out =
    (if bm_transactions m2 = bm_target m2
     then (m2, out\<lparr>ot_s_valid := 0\<rparr>, SPass \<lparr>br_transactions = bm_transactions m2, br_cycles = bm_cycles m2 - RESET_CYCLES,
       br_digest = bm_digest m2, br_trace_digest = bm_trace_digest m2\<rparr>)
     else (let out1 = out\<lparr>ot_m_ready := of_bool (ready_open (bm_seed m2) (bm_cycles m2 - RESET_CYCLES))\<rparr> in
       (m2, if ot_s_valid out \<noteq> 0 \<and> in_s_ready i \<noteq> 0 \<or> ot_s_valid out = 0
          then load_source_for_cycle m2 (bm_cycles m2 - RESET_CYCLES) out1 else out1, SContinue)))"
proof -
  have t: "m\<lparr>bm_cycles := bm_cycles m + 1, bm_trace_digest := trace_digest_update (bm_trace_digest m) (bm_cycles m + 1) i out\<rparr> = ticked m i out"
    by (simp add: ticked_def)
  show ?thesis using assms by (simp add: bench_step_def transferred_def t Let_def)
qed

lemma bench_step_rejects:
  assumes "ot_reset_n out \<noteq> 0" "bench_check (ticked m i out) i out \<noteq> None"
  shows "\<exists>m' msg. bench_step m i out = (m', out, SFail msg)"
proof -
  have t: "m\<lparr>bm_cycles := bm_cycles m + 1, bm_trace_digest := trace_digest_update (bm_trace_digest m) (bm_cycles m + 1) i out\<rparr> = ticked m i out"
    by (simp add: ticked_def)
  show ?thesis using assms by (auto simp: bench_step_def t Let_def)
qed

lemma unat_next:
  assumes "unat (x :: u64) < unat (t :: u64)"
  shows "unat (x + 1) = Suc (unat x)"
proof -
  have "unat t < 2 ^ 64" using unsigned_less [of t] by simp
  with assms show ?thesis by (simp add: unat_word_ariths)
qed

lemma bench_cycle_reset:
  assumes "bench_inv target seed flt (m, out, c)" "ot_reset_n out = 0"
  shows "\<exists>s'. bench_cycle (m, out, c) = (s', SContinue) \<and> bench_inv target seed flt s'"
proof -
  let ?i = "dut_sample 0 out"
  have v: "in_m_valid ?i = 0" "in_accepted ?i = 0" using assms by (simp_all add: bench_inv_def dut_sample_def Let_def)
  have c: "dut_clock c out = 0" using assms(2) by (simp add: dut_clock_def)
  obtain out' where s: "bench_step m ?i out = (ticked m ?i out, out', SContinue)"
    and o: "out' = out \<or> out' = load_source_for_cycle (ticked m ?i out) 0
       (out\<lparr>ot_reset_n := 1, ot_m_ready := of_bool (ready_open (bm_seed m) 0)\<rparr>)"
    using bench_step_reset [OF assms(2) v] by blast
  have "bench_inv target seed flt (ticked m ?i out, out', 0)"
    using o
  proof
    assume "out' = out"
    with assms show ?thesis by (simp add: bench_inv_def)
  next
    assume o': "out' = load_source_for_cycle (ticked m ?i out) 0
       (out\<lparr>ot_reset_n := 1, ot_m_ready := of_bool (ready_open (bm_seed m) 0)\<rparr>)"
    have "presented m out'" unfolding o' by simp
    moreover have "ot_reset_n out' = 1" "ot_m_ready out' = 0 \<or> ot_m_ready out' = 1" "ot_inject_error out' = of_bool (bm_inject_error m)"
      unfolding o' by auto
    ultimately show ?thesis using assms by (simp add: bench_inv_def)
  qed
  with s c show ?thesis by (simp add: bench_cycle_def)
qed

lemma bench_cycle_idle:
  assumes "bench_inv target seed flt (m, out, c)" "ot_reset_n out \<noteq> 0" "ot_s_valid out = 0 \<or> ot_m_ready out = 0"
  shows "\<exists>s'. bench_cycle (m, out, c) = (s', SContinue) \<and> bench_inv target seed flt s'"
proof -
  have inv: "presented m out" "c = bm_transactions m" "ot_m_ready out = 0 \<or> ot_m_ready out = 1" "ot_inject_error out = of_bool flt"
    "ot_reset_n out = 1" "flt \<Longrightarrow> unat c < 127"
    using assms(1,2) by (auto simp: bench_inv_def)
  let ?i = "dut_sample c out"
  let ?m = "ticked m ?i out"
  have c: "dut_clock c out = c" using assms(3) inv(3,5) by (auto simp: dut_clock_def)
  have sv: "ot_s_valid out = 0 \<or> ot_s_valid out = 1" using inv(1) by (auto simp: presented_def)
  have "c \<noteq> 127" if flt using inv(6) [OF that] by auto
  then have ck: "bench_check ?m ?i out = None"
    using bench_check_presented [of ?m out "ot_m_ready out = 1" flt c] inv by auto
  have tr: "transferred ?m ?i out = ?m" using assms(3) by (auto simp: transferred_def dut_sample_def Let_def)
  have acc: "in_accepted ?i = bm_transactions ?m" by (simp add: dut_sample_def Let_def inv(2))
  have ne: "bm_transactions m \<noteq> bm_target m" using assms(1) by (auto simp: bench_inv_def)
  let ?out1 = "out\<lparr>ot_m_ready := of_bool (ready_open (bm_seed ?m) (bm_cycles ?m - RESET_CYCLES))\<rparr>"
  obtain out' where st: "bench_step m ?i out = (?m, out', SContinue)"
    and o: "out' = ?out1 \<or> out' = load_source_for_cycle ?m (bm_cycles ?m - RESET_CYCLES) ?out1"
    using bench_step_active [OF assms(2) ck tr [symmetric] acc] ne by (simp add: Let_def split: if_splits)
  have "presented m out'" "ot_reset_n out' = 1" "ot_m_ready out' = 0 \<or> ot_m_ready out' = 1" "ot_inject_error out' = of_bool flt"
    using o inv load_source [of ?m] assms(1) by (auto simp: presented_def bench_inv_def)
  then have "bench_inv target seed flt (?m, out', c)" using assms(1) inv(2,5) by (simp add: bench_inv_def)
  with st c show ?thesis by (simp add: bench_cycle_def)
qed

lemma bench_cycle_transfer:
  assumes "bench_inv target seed flt (m, out, c)" "ot_reset_n out \<noteq> 0" "ot_s_valid out \<noteq> 0" "ot_m_ready out \<noteq> 0"
    and "flt \<Longrightarrow> 127 \<le> unat target" "bench_cycle (m, out, c) = (s', st)"
  shows "verdict_ok target seed flt s' st"
proof -
  have inv: "presented m out" "c = bm_transactions m" "ot_m_ready out = 1" "ot_inject_error out = of_bool flt" "ot_reset_n out = 1"
    "bm_target m = target" "bm_seed m = seed" "bm_inject_error m = flt" "bm_digest m = ref_digest seed (unat c)"
    "unat c < unat target" "flt \<Longrightarrow> unat c < 127"
    using assms by (auto simp: bench_inv_def)
  have p: "ot_s_valid out = 1" "ot_s_data out = bench_payload seed c" "ot_s_id out = ucast c" "ot_s_last out = last_value c"
    "ot_s_user out = user_value seed c"
    using inv(1,2,7) assms(3) by (auto simp: presented_def)
  let ?i = "dut_sample (c + 1) out"
  let ?m = "ticked m ?i out"
  have c: "dut_clock c out = c + 1" by (simp add: dut_clock_def inv(3,5) p(1))
  have un: "unat (c + 1) = Suc (unat c)" by (rule unat_next [OF inv(10)])
  have ck: "bench_check ?m ?i out = None \<longleftrightarrow> \<not> (flt \<and> c + 1 = 127)"
    using bench_check_presented [of ?m out True flt "c + 1"] inv p(1) by auto
  show ?thesis
  proof (cases "flt \<and> c + 1 = 127")
    case True
    then obtain m' msg where "bench_step m ?i out = (m', out, SFail msg)"
      using bench_step_rejects [OF assms(2)] ck by blast
    with assms(6) c True show ?thesis by (auto simp: bench_cycle_def verdict_ok_def)
  next
    case False
    have f: "flt \<Longrightarrow> Suc (unat c) < 127"
    proof -
      assume flt
      have "unat (c + 1) \<noteq> unat (127 :: u64)" using False \<open>flt\<close> word_unat_eq_iff [of "c + 1" 127] by blast
      then have "unat (c + 1) \<noteq> 127" by simp
      with un inv(11) [OF \<open>flt\<close>] show ?thesis by linarith
    qed
    let ?m2 = "?m\<lparr>bm_digest := ref_digest seed (Suc (unat c)), bm_transactions := c + 1\<rparr>"
    have "in_m_data ?i = transform_data (bench_payload seed c) (ucast c)"
      using False by (auto simp: dut_sample_def Let_def dut_transform_eq p inv(4))
    then have tr: "?m2 = transferred ?m ?i out"
      using inv p by (simp add: transferred_def dut_sample_def Let_def ref_digest_Suc transfer_digest_def last_value_bit)
    have acc: "in_accepted ?i = bm_transactions ?m2" by (simp add: dut_sample_def Let_def)
    note st = bench_step_active [OF assms(2) _ tr acc]
    show ?thesis
    proof (cases "c + 1 = target")
      case True
      with f assms(5) un have "\<not> flt" by auto
      then show ?thesis using st ck assms(6) c True un inv by (auto simp: bench_cycle_def verdict_ok_def)
    next
      case ne: False
      then have "Suc (unat c) < unat target" using inv(10) un by (metis Suc_lessI word_unat_eq_iff)
      then show ?thesis using st ck assms(6) c ne un f inv p False
        by (auto simp: bench_cycle_def verdict_ok_def bench_inv_def Let_def dut_sample_def)
    qed
  qed
qed

lemma bench_cycle_ok:
  assumes "bench_inv target seed flt s" "flt \<Longrightarrow> 127 \<le> unat target" "bench_cycle s = (s', st)"
  shows "verdict_ok target seed flt s' st"
proof -
  obtain m out c where s: "s = (m, out, c)" by (cases s)
  note i = assms(1) [unfolded s]
  consider (reset) "ot_reset_n out = 0" | (idle) "ot_reset_n out \<noteq> 0" "ot_s_valid out = 0 \<or> ot_m_ready out = 0"
    | (transfer) "ot_reset_n out \<noteq> 0" "ot_s_valid out \<noteq> 0" "ot_m_ready out \<noteq> 0"
    by blast
  then show ?thesis
  proof cases
    case reset
    from bench_cycle_reset [OF i reset] assms(3) show ?thesis by (auto simp: s verdict_ok_def)
  next
    case idle
    from bench_cycle_idle [OF i idle] assms(3) show ?thesis by (auto simp: s verdict_ok_def)
  next
    case transfer
    from bench_cycle_transfer [OF i transfer assms(2) assms(3) [unfolded s]] show ?thesis .
  qed
qed

lemma bench_run_ok:
  assumes "flt \<Longrightarrow> 127 \<le> unat target"
  shows "bench_inv target seed flt s \<Longrightarrow> bench_run k s = (s', st) \<Longrightarrow> verdict_ok target seed flt s' st"
proof (induction k arbitrary: s)
  case 0
  then show ?case by (auto simp: verdict_ok_def)
next
  case (Suc k)
  obtain s1 st1 where c: "bench_cycle s = (s1, st1)" by (cases "bench_cycle s")
  have v: "verdict_ok target seed flt s1 st1" by (rule bench_cycle_ok [OF Suc.prems(1) assms c])
  show ?case
  proof (cases "st1 = SContinue")
    case True
    with v Suc c show ?thesis by (auto simp: verdict_ok_def)
  next
    case False
    with v Suc.prems c show ?thesis by auto
  qed
qed

section \<open>The bench as a cycle model\<close>

text \<open>\<open>StreamVpiModel\<close> and \<open>StreamCycleModel\<close> of the two benchmark crates: the value model with the values it
  last drove. The target and the seed are the results of reading the environment; the report that
  is printed and the wall-clock time are left out.\<close>

record stream_model =
  sm_model :: bench_model
  sm_values :: bench_outputs

definition stream_new :: "string + u64 \<Rightarrow> string + u64 \<Rightarrow> bool \<Rightarrow> bench_outputs \<Rightarrow> bench_outputs \<times> (payload + string + stream_model)" where
  "stream_new target seed inject out =
     (case target of
        Inl e \<Rightarrow> (out, Inr (Inl e))
      | Inr t \<Rightarrow>
          (case seed of
             Inl e \<Rightarrow> (out, Inr (Inl e))
           | Inr sd \<Rightarrow>
               (case bench_new t sd inject of
                  Inl (Panic msg) \<Rightarrow> (out, Inl (PayStr msg))
                | Inr (m, values) \<Rightarrow> (values, Inr (Inr \<lparr>sm_model = m, sm_values = values\<rparr>)))))"

definition stream_step :: "stream_model \<Rightarrow> bench_inputs \<Rightarrow> bench_outputs \<Rightarrow> stream_model \<times> bench_outputs \<times> (payload + string + cycle_status)" where
  "stream_step sm i out =
     (let (m', values', st) = bench_step (sm_model sm) i (sm_values sm);
          sm' = \<lparr>sm_model = m', sm_values = values'\<rparr>
      in case st of
           SContinue \<Rightarrow> (sm', values', Inr (Inr CContinue))
         | SPass _ \<Rightarrow> (sm', out, Inr (Inr CPass))
         | SFail msg \<Rightarrow> (sm', out, Inr (Inl msg)))"

definition stream_cycle_model :: "string + u64 \<Rightarrow> string + u64 \<Rightarrow> bool \<Rightarrow> (stream_model, bench_inputs, bench_outputs) cycle_model" where
  "stream_cycle_model target seed inject =
     \<lparr>cm_new = stream_new target seed inject, cm_step = stream_step, cm_finish = (\<lambda>sm. (sm, Inr (Inr ())))\<rparr>"

text \<open>The VPI bench reads the payload only while it is valid.\<close>

definition stream_sample :: "bench_inputs \<Rightarrow> bench_inputs" where
  "stream_sample i = (if in_m_valid i \<noteq> 0 then i else i\<lparr>in_m_data := 0, in_m_id := 0, in_m_last := 0, in_m_user := 0\<rparr>)"

datatype bench_signal = Sig_reset_n | Sig_s_valid | Sig_s_data | Sig_s_id | Sig_s_last | Sig_s_user | Sig_m_ready | Sig_inject_error

definition signal_values :: "bench_outputs \<Rightarrow> (bench_signal \<times> u64) list" where
  "signal_values v = [(Sig_reset_n, ucast (ot_reset_n v)), (Sig_s_valid, ucast (ot_s_valid v)), (Sig_s_data, ot_s_data v),
     (Sig_s_id, ucast (ot_s_id v)), (Sig_s_last, ucast (ot_s_last v)), (Sig_s_user, ucast (ot_s_user v)),
     (Sig_m_ready, ucast (ot_m_ready v)), (Sig_inject_error, ucast (ot_inject_error v))]"

text \<open>Only the values that changed are written; before the first drive every value counts as changed.\<close>

definition stream_drive :: "bench_outputs \<Rightarrow> bench_outputs option \<Rightarrow> (bench_signal \<times> u64) list \<times> bench_outputs option" where
  "stream_drive values previous =
     (let old = (case previous of Some p \<Rightarrow> p
        | None \<Rightarrow> \<lparr>ot_reset_n = NOT (ot_reset_n values), ot_s_valid = NOT (ot_s_valid values), ot_s_data = NOT (ot_s_data values),
            ot_s_id = NOT (ot_s_id values), ot_s_last = NOT (ot_s_last values), ot_s_user = NOT (ot_s_user values),
            ot_m_ready = NOT (ot_m_ready values), ot_inject_error = NOT (ot_inject_error values)\<rparr>)
      in ((if ot_reset_n values \<noteq> ot_reset_n old then [(Sig_reset_n, ucast (ot_reset_n values))] else []) @
          (if ot_s_valid values \<noteq> ot_s_valid old then [(Sig_s_valid, ucast (ot_s_valid values))] else []) @
          (if ot_s_data values \<noteq> ot_s_data old then [(Sig_s_data, ot_s_data values)] else []) @
          (if ot_s_id values \<noteq> ot_s_id old then [(Sig_s_id, ucast (ot_s_id values))] else []) @
          (if ot_s_last values \<noteq> ot_s_last old then [(Sig_s_last, ucast (ot_s_last values))] else []) @
          (if ot_s_user values \<noteq> ot_s_user old then [(Sig_s_user, ucast (ot_s_user values))] else []) @
          (if ot_m_ready values \<noteq> ot_m_ready old then [(Sig_m_ready, ucast (ot_m_ready values))] else []) @
          (if ot_inject_error values \<noteq> ot_inject_error old then [(Sig_inject_error, ucast (ot_inject_error values))] else []),
          Some values))"

definition written :: "(bench_signal \<times> u64) list \<Rightarrow> (bench_signal \<Rightarrow> u64) \<Rightarrow> bench_signal \<Rightarrow> u64" where
  "written ws st = fold (\<lambda>(g, x) st. st(g := x)) ws st"

definition shows_values :: "bench_outputs \<Rightarrow> (bench_signal \<Rightarrow> u64) \<Rightarrow> bool" where
  "shows_values v st \<longleftrightarrow> list_all (\<lambda>(g, x). st g = x) (signal_values v)"

lemma not_word_neq: "(x :: 'a::len word) \<noteq> NOT x"
proof
  assume "x = NOT x"
  then have "bit x 0 = bit (NOT x) 0" by simp
  then show False by (simp add: bit_not_iff)
qed

lemma drive_synchronises:
  assumes "\<And>p. previous = Some p \<Longrightarrow> shows_values p st"
  shows "shows_values v (written (fst (stream_drive v previous)) st)"
proof (cases previous)
  case None
  then show ?thesis by (simp add: stream_drive_def shows_values_def signal_values_def written_def not_word_neq)
next
  case (Some p)
  with assms have "shows_values p st" by blast
  with Some show ?thesis by (simp add: stream_drive_def shows_values_def signal_values_def written_def Let_def)
qed

lemma bench_check_sampled: "bench_check m (stream_sample i) out = bench_check m i out"
  by (simp add: stream_sample_def bench_check_def Let_def)

lemma trace_sampled: "trace_digest_update d c (stream_sample i) out = trace_digest_update d c i out"
  by (simp add: stream_sample_def trace_digest_update_def Let_def)

lemma stream_sample_fields [simp]:
  "in_m_valid (stream_sample i) = in_m_valid i" "in_s_ready (stream_sample i) = in_s_ready i" "in_accepted (stream_sample i) = in_accepted i"
  "in_m_valid i \<noteq> 0 \<Longrightarrow> stream_sample i = i"
  by (simp_all add: stream_sample_def)

lemma bench_step_sampled: "bench_step m (stream_sample i) out = bench_step m i out"
proof (cases "in_m_valid i = 0")
  case True
  then show ?thesis
    unfolding bench_step_def trace_sampled bench_check_sampled stream_sample_fields(1-3) Let_def by simp
qed simp

text \<open>The design behind the handles: its counter and the values driven into it.\<close>

definition dut_world :: "(u64 \<times> bench_outputs, bench_inputs, bench_outputs) vpi_world" where
  "dut_world = \<lparr>vw_tick = (\<lambda>(c, out). (dut_clock c out, out)), vw_sample = (\<lambda>(c, out). Inr (stream_sample (dut_sample c out))),
     vw_drive = (\<lambda>out (c, _). ((c, out), Inr ()))\<rparr>"

text \<open>Reset and the first transfer, cycle by cycle.\<close>

lemma ticked_cycles [simp]: "bm_cycles (ticked m i out) = bm_cycles m + 1" by (simp add: ticked_def)

lemma cycle_wait:
  assumes "ot_reset_n out = 0" "ot_s_valid out = 0" "\<not> RESET_CYCLES \<le> bm_cycles m + 1"
  shows "bench_cycle (m, out, c) = ((ticked m (dut_sample 0 out) out, out, 0), SContinue)"
  using assms by (simp add: bench_cycle_def dut_clock_def bench_step_def ticked_def dut_sample_def Let_def)

lemma cycle_release:
  assumes "ot_reset_n out = 0" "ot_s_valid out = 0" "RESET_CYCLES \<le> bm_cycles m + 1"
  shows "bench_cycle (m, out, c) = ((ticked m (dut_sample 0 out) out, load_source_for_cycle (ticked m (dut_sample 0 out) out) 0
       (out\<lparr>ot_reset_n := 1, ot_m_ready := of_bool (ready_open (bm_seed m) 0)\<rparr>), 0), SContinue)"
  using assms by (simp add: bench_cycle_def dut_clock_def bench_step_def ticked_def dut_sample_def Let_def)

lemma cycle_transfer:
  assumes "ot_reset_n out = 1" "ot_s_valid out = 1" "ot_m_ready out = 1" "ot_inject_error out = 0"
    "presented m out" "c = bm_transactions m" "bm_transactions m + 1 = bm_target m"
  shows "\<exists>s r. bench_cycle (m, out, c) = (s, SPass r)"
  using assms  by (simp add: presented_def bench_cycle_def dut_clock_def bench_step_def bench_check_def dut_sample_def dut_transform_eq last_value_def Let_def)

lemma run_continue: "bench_cycle s = (s', SContinue) \<Longrightarrow> bench_run (Suc k) s = bench_run k s'"
  by simp

lemma first_transfer:
  assumes "source_open seed 0" "ready_open seed 0" "bench_new 1 seed False = Inr (m, out)"
  shows "\<exists>s r. bench_run 5 (m, out, count) = (s, SPass r)"
proof -
  let ?t = "\<lambda>m. ticked m (dut_sample 0 out) out"
  have f: "ot_reset_n out = 0" "ot_s_valid out = 0" "ot_inject_error out = 0" "bm_cycles m = 0" "bm_transactions m = 0" "bm_target m = 1" "bm_seed m = seed" "\<not> bm_inject_error m"
    using assms(3) by (auto simp: bench_new_def split: if_splits)
  let ?o = "load_source_for_cycle (?t (?t (?t (?t m)))) 0
       (out\<lparr>ot_reset_n := 1, ot_m_ready := of_bool (ready_open (bm_seed (?t (?t (?t m)))) 0)\<rparr>)"
  have o: "ot_reset_n ?o = 1" "ot_s_valid ?o = 1" "ot_m_ready ?o = 1" "ot_inject_error ?o = 0"
    using f assms(1,2) by (simp_all add: load_source_for_cycle_def)
  have "\<exists>s r. bench_cycle (?t (?t (?t (?t m))), ?o, 0) = (s, SPass r)"
    by (rule cycle_transfer [OF o]) (simp_all add: f)
  moreover have "bench_run 5 (m, out, count) = bench_run 1 (?t (?t (?t (?t m))), ?o, 0)"
  proof -
    have r: "\<not> RESET_CYCLES \<le> bm_cycles m + 1" "\<not> RESET_CYCLES \<le> bm_cycles (?t m) + 1" "\<not> RESET_CYCLES \<le> bm_cycles (?t (?t m)) + 1"
      "RESET_CYCLES \<le> bm_cycles (?t (?t (?t m))) + 1" using f by (simp_all add: RESET_CYCLES_def word_le_nat_alt)
    have n: "5 = Suc (Suc (Suc (Suc 1)))" by simp
    show ?thesis
      unfolding n
      by (simp only: run_continue [OF cycle_wait [OF f(1,2) r(1)]] run_continue [OF cycle_wait [OF f(1,2) r(2)]]
        run_continue [OF cycle_wait [OF f(1,2) r(3)]] run_continue [OF cycle_release [OF f(1,2) r(4)]])
  qed
  ultimately show ?thesis by auto
qed

definition adapter_result :: "step_status \<Rightarrow> (string + cycle_status) option" where
  "adapter_result st = (case st of SContinue \<Rightarrow> None | SPass _ \<Rightarrow> Some (Inr CPass) | SFail msg \<Rightarrow> Some (Inl msg))"

lemma vpi_loop_bench:
  "\<exists>m' w. vpi_loop (stream_cycle_model tg sd fl) dut_world k \<lparr>sm_model = m, sm_values = out\<rparr> out (c, out) =
    map_option (\<lambda>r. Inr (m', w, r)) (adapter_result (snd (bench_run k (m, out, c))))"
proof (induction k arbitrary: m out c)
  case 0
  then show ?case by (simp add: adapter_result_def)
next
  case (Suc k)
  let ?c = "dut_clock c out"
  obtain m' out' st where st: "bench_step m (dut_sample ?c out) out = (m', out', st)" by (cases "bench_step m (dut_sample ?c out) out")
  then have cyc: "bench_cycle (m, out, c) = ((m', out', ?c), st)" by (simp add: bench_cycle_def)
  have step: "cm_step (stream_cycle_model tg sd fl) \<lparr>sm_model = m, sm_values = out\<rparr> (stream_sample (dut_sample ?c out)) out =
      (case st of SContinue \<Rightarrow> (\<lparr>sm_model = m', sm_values = out'\<rparr>, out', Inr (Inr CContinue))
       | SPass _ \<Rightarrow> (\<lparr>sm_model = m', sm_values = out'\<rparr>, out, Inr (Inr CPass))
       | SFail msg \<Rightarrow> (\<lparr>sm_model = m', sm_values = out'\<rparr>, out, Inr (Inl msg)))"
    by (simp add: stream_cycle_model_def stream_step_def bench_step_sampled st Let_def)
  have world: "vw_tick dut_world (c, out) = (?c, out)" "vw_sample dut_world (?c, out) = Inr (stream_sample (dut_sample ?c out))"
    "vw_drive dut_world out' (?c, out) = ((?c, out'), Inr ())"
    by (simp_all add: dut_world_def)
  show ?case
    using Suc.IH [of m' out' ?c] by (cases st) (simp_all add: world step cyc adapter_result_def)
qed

lemma run_adapter_bench:
  assumes "bench_new target seed flt = Inr (m, out)"
  shows "\<exists>w. run_cycle_model_vpi (stream_cycle_model (Inr target) (Inr seed) flt) dut_world k dflt (count, o0) =
    map_option (\<lambda>r. Inr (w, r)) (adapter_result (snd (bench_run k (m, out, count))))"
proof -
  have "cm_new (stream_cycle_model (Inr target) (Inr seed) flt) dflt = (out, Inr (Inr \<lparr>sm_model = m, sm_values = out\<rparr>))"
    "vw_drive dut_world out (count, o0) = ((count, out), Inr ())"
    "cm_finish (stream_cycle_model (Inr target) (Inr seed) flt) sm = (sm, Inr (Inr ()))" for sm
    by (simp_all add: stream_cycle_model_def stream_new_def assms dut_world_def)
  moreover obtain m' w where "vpi_loop (stream_cycle_model (Inr target) (Inr seed) flt) dut_world k \<lparr>sm_model = m, sm_values = out\<rparr> out (count, out) =
    map_option (\<lambda>r. Inr (m', w, r)) (adapter_result (snd (bench_run k (m, out, count))))"
    using vpi_loop_bench by blast
  ultimately show ?thesis
    by (cases "snd (bench_run k (m, out, count))") (simp_all add: run_cycle_model_vpi_def adapter_result_def)
qed

section \<open>Properties\<close>

text \<open>The bench judges the design correctly, for every transaction target, seed, number of cycles
  and content of the counter at power-up. Run against the design as written it never reports a
  failure, and when it passes it has seen exactly the requested transfers and its digest is that
  of the reference sequence. With the fault injection of the design switched on and at least 127
  transfers requested, it never passes.\<close>

theorem stream_bench_verdict:
  assumes "bench_new target seed flt = Inr (m, out)" "flt \<longrightarrow> 127 \<le> unat target"
    and "bench_run k (m, out, count) = (s, st)"
  shows "(\<forall>msg. st = SFail msg \<longrightarrow> flt) \<and>
    (\<forall>r. st = SPass r \<longrightarrow> \<not> flt \<and> br_transactions r = target \<and> br_digest r = ref_digest seed (unat target))"
  using bench_run_ok [OF _ bench_new_inv [OF assms(1)] assms(3)] assms(2) by (auto simp: verdict_ok_def)

definition demo_bench_model :: bench_model where
  "demo_bench_model = \<lparr>bm_target = 200, bm_seed = 1, bm_inject_error = True, bm_cycles = 0, bm_transactions = 0,
     bm_digest = 0, bm_trace_digest = 0\<rparr>"

definition demo_bench_outputs :: bench_outputs where
  "demo_bench_outputs = \<lparr>ot_reset_n = 0, ot_s_valid = 0, ot_s_data = 0, ot_s_id = 0, ot_s_last = 0, ot_s_user = 0, ot_m_ready = 0,
     ot_inject_error = 1\<rparr>"

theorem stream_bench_verdict_witness:
  "bench_new 200 1 True = Inr (demo_bench_model, demo_bench_outputs) \<and>
   (\<nexists>r. snd (bench_run 100000 (demo_bench_model, demo_bench_outputs, 42)) = SPass r)"
proof -
  have n: "bench_new 200 1 True = Inr (demo_bench_model, demo_bench_outputs)"
    by (simp add: bench_new_def demo_bench_model_def demo_bench_outputs_def word_less_nat_alt)
  obtain s st where r: "bench_run 100000 (demo_bench_model, demo_bench_outputs, 42) = (s, st)"
    by (rule prod.exhaust)
  from stream_bench_verdict [OF n _ r] n r show ?thesis by auto
qed



end
