(* ===== verification/Tinyalu_Bfm.thy ===== *)
theory Tinyalu_Bfm
  imports Queue_Model Logic_Value
begin

text \<open>
  The worked example (\<open>rustdv/tinyalu_tb\<close>), lower half: the transactions and the golden model of
  \<open>alu_item.rs\<close>, the device \<open>sim/hdl/tinyalu.sv\<close>, and the bus functional model of \<open>alu_bfm.rs\<close> with its
  three loops. One period of the simulation is a rising edge, on which the device's registers
  move, and a falling edge, on which the loops look at the settled signals; what they write is
  scheduled, so it appears only after all of them have looked, in whatever order they run. Signals
  are two-state here: the reset writes every input before the first edge, and whatever the
  registers hold at power-up is overwritten on it.
\<close>

unbundle bit_operations_syntax

section \<open>Transactions\<close>

datatype ops = Add | And | Xor | Mul

definition ops_all :: "ops list" where
  "ops_all = [Add, And, Xor, Mul]"

fun ops_as_u64 :: "ops \<Rightarrow> u64" where
  "ops_as_u64 Add = 1" | "ops_as_u64 And = 2" | "ops_as_u64 Xor = 3" | "ops_as_u64 Mul = 4"

definition ops_from_u64 :: "u64 \<Rightarrow> ops option" where
  "ops_from_u64 v = (if v = 1 then Some Add else if v = 2 then Some And else if v = 3 then Some Xor
     else if v = 4 then Some Mul else None)"

record alu_command =
  cmd_a :: u8
  cmd_b :: u8
  cmd_op :: ops

record alu_result =
  res_result :: u16

definition predict :: "alu_command \<Rightarrow> alu_result" where
  "predict cmd =
     (let a = ucast (cmd_a cmd) :: u16; b = ucast (cmd_b cmd) in
      \<lparr>res_result = (case cmd_op cmd of Add \<Rightarrow> a + b | And \<Rightarrow> a AND b | Xor \<Rightarrow> a XOR b | Mul \<Rightarrow> a * b)\<rparr>)"

section \<open>The device\<close>

record alu_pins =
  pin_A :: u8
  pin_B :: u8
  pin_op :: "3 word"
  pin_reset_n :: bool
  pin_start :: bool

record single_cycle =
  sc_done :: bool
  sc_result :: u16

record three_cycle =
  tc_a_int :: u8
  tc_b_int :: u8
  tc_mult1 :: u16
  tc_mult2 :: u16
  tc_done1 :: bool
  tc_done2 :: bool
  tc_done3 :: bool
  tc_done :: bool
  tc_result :: u16

definition single_cycle_rise :: "alu_pins \<Rightarrow> bool \<Rightarrow> single_cycle \<Rightarrow> single_cycle" where
  "single_cycle_rise p start d =
     (let a = ucast (pin_A p) :: u16; b = ucast (pin_B p) in
      \<lparr>sc_done = (pin_reset_n p \<and> start \<and> pin_op p \<noteq> 0),
       sc_result =
         (if \<not> pin_reset_n p then 0
          else if pin_op p = 1 then a + b
          else if pin_op p = 2 then a AND b
          else if pin_op p = 3 then a XOR b
          else push_bit 8 a OR b)\<rparr>)"

definition three_cycle_rise :: "alu_pins \<Rightarrow> bool \<Rightarrow> three_cycle \<Rightarrow> three_cycle" where
  "three_cycle_rise p start d =
     (if \<not> pin_reset_n p
      then \<lparr>tc_a_int = 0, tc_b_int = 0, tc_mult1 = 0, tc_mult2 = 0, tc_done1 = False, tc_done2 = False, tc_done3 = False,
        tc_done = False, tc_result = 0\<rparr>
      else \<lparr>tc_a_int = pin_A p, tc_b_int = pin_B p, tc_mult1 = ucast (tc_a_int d) * ucast (tc_b_int d), tc_mult2 = tc_mult1 d,
        tc_done1 = (tc_done2 d \<and> \<not> tc_done d), tc_done2 = (tc_done3 d \<and> \<not> tc_done d),
        tc_done3 = (start \<and> \<not> tc_done d), tc_done = (tc_done1 d \<and> \<not> tc_done d), tc_result = tc_mult2 d\<rparr>)"

record alu_dut =
  dut_single :: single_cycle
  dut_mult :: three_cycle

definition tinyalu_rise :: "alu_pins \<Rightarrow> alu_dut \<Rightarrow> alu_dut" where
  "tinyalu_rise p d =
     \<lparr>dut_single = single_cycle_rise p (pin_start p \<and> \<not> bit (pin_op p) 2) (dut_single d),
      dut_mult = three_cycle_rise p (pin_start p \<and> bit (pin_op p) 2) (dut_mult d)\<rparr>"

definition alu_done :: "alu_pins \<Rightarrow> alu_dut \<Rightarrow> bool" where
  "alu_done p d = (if bit (pin_op p) 2 then tc_done (dut_mult d) else sc_done (dut_single d))"

definition alu_result_out :: "alu_pins \<Rightarrow> alu_dut \<Rightarrow> u16" where
  "alu_result_out p d = (if bit (pin_op p) 2 then tc_result (dut_mult d) else sc_result (dut_single d))"

section \<open>The bus functional model\<close>

record alu_bfm =
  bf_pins :: alu_pins
  bf_dut :: alu_dut
  bf_driver_q :: "alu_command qinner"
  bf_cmd_q :: "alu_command qinner"
  bf_result_q :: "alu_result qinner"
  bf_prev_start :: bool

definition send_op :: "alu_bfm \<Rightarrow> alu_command \<Rightarrow> alu_bfm" where
  "send_op s cmd = s\<lparr>bf_driver_q := fst (fst (try_put (bf_driver_q s) cmd))\<rparr>"

text \<open>The driver loop at one falling edge: the queue and the signals after the scheduled writes.\<close>

definition driver_loop :: "alu_bfm \<Rightarrow> alu_command qinner \<times> alu_pins" where
  "driver_loop s =
     (let p = bf_pins s; st = pin_start p; dn = alu_done p (bf_dut s) in
      if \<not> st \<and> \<not> dn
      then (case try_get (bf_driver_q s) of
              ((q, _), Some cmd) \<Rightarrow>
                (q, p\<lparr>pin_A := ucast (ucast (cmd_a cmd) :: u64), pin_B := ucast (ucast (cmd_b cmd) :: u64),
                  pin_op := ucast (ops_as_u64 (cmd_op cmd)), pin_start := True\<rparr>)
            | ((q, _), None) \<Rightarrow> (q, p))
      else if st \<and> dn then (bf_driver_q s, p\<lparr>pin_start := False\<rparr>)
      else (bf_driver_q s, p))"

definition cmd_monitor_loop :: "alu_bfm \<Rightarrow> alu_command qinner \<times> bool" where
  "cmd_monitor_loop s =
     (let p = bf_pins s; st = pin_start p in
      (if st \<and> \<not> bf_prev_start s
       then (case ops_from_u64 (ucast (pin_op p)) of
               Some ops \<Rightarrow> fst (fst (try_put (bf_cmd_q s)
                 \<lparr>cmd_a = ucast (ucast (pin_A p) :: u64), cmd_b = ucast (ucast (pin_B p) :: u64), cmd_op = ops\<rparr>))
             | None \<Rightarrow> bf_cmd_q s)
       else bf_cmd_q s, st))"

definition result_monitor_loop :: "alu_bfm \<Rightarrow> alu_result qinner" where
  "result_monitor_loop s =
     (let p = bf_pins s in
      if pin_start p \<and> alu_done p (bf_dut s)
      then fst (fst (try_put (bf_result_q s) \<lparr>res_result = ucast (ucast (alu_result_out p (bf_dut s)) :: u64)\<rparr>))
      else bf_result_q s)"

definition bfm_rise :: "alu_bfm \<Rightarrow> alu_bfm" where
  "bfm_rise s = s\<lparr>bf_dut := tinyalu_rise (bf_pins s) (bf_dut s)\<rparr>"

definition bfm_fall :: "alu_bfm \<Rightarrow> alu_bfm" where
  "bfm_fall s =
     (let (dq, p) = driver_loop s; (cq, prev) = cmd_monitor_loop s; rq = result_monitor_loop s in
      s\<lparr>bf_pins := p, bf_driver_q := dq, bf_cmd_q := cq, bf_result_q := rq, bf_prev_start := prev\<rparr>)"

definition bfm_period :: "alu_bfm \<Rightarrow> alu_bfm" where
  "bfm_period s = bfm_fall (bfm_rise s)"

function drain_queue :: "'a qinner \<Rightarrow> 'a qinner" where
  "drain_queue q = (case try_get q of ((q', _), Some _) \<Rightarrow> drain_queue q' | ((q', _), None) \<Rightarrow> q')"
  by pat_completeness auto

termination by (relation "measure (\<lambda>q. length (q_buf q))") (auto simp: try_get_def wake_putters_def split: list.splits)

declare drain_queue.simps [simp del]

definition bfm_reset :: "alu_bfm \<Rightarrow> alu_bfm" where
  "bfm_reset s =
     (let s1 = s\<lparr>bf_pins := \<lparr>pin_A = 0, pin_B = 0, pin_op = 0, pin_reset_n = False, pin_start = False\<rparr>\<rparr>;
          s2 = (bfm_period ^^ 5) s1;
          s3 = bfm_period (s2\<lparr>bf_pins := (bf_pins s2)\<lparr>pin_reset_n := True\<rparr>\<rparr>)
      in s3\<lparr>bf_cmd_q := drain_queue (bf_cmd_q s3), bf_result_q := drain_queue (bf_result_q s3)\<rparr>)"

section \<open>The protocol as a state machine\<close>

text \<open>What the signals and registers look like after the writes of a falling edge: nothing in flight, a
  command driven for some periods, or its result just taken.\<close>

datatype alu_phase = PIdle | PDriven alu_command nat | PClosing

definition shows_cmd :: "alu_pins \<Rightarrow> alu_command \<Rightarrow> bool" where
  "shows_cmd p c \<longleftrightarrow> pin_A p = cmd_a c \<and> pin_B p = cmd_b c \<and> pin_op p = ucast (ops_as_u64 (cmd_op c))"

definition quiet_dut :: "alu_dut \<Rightarrow> bool" where
  "quiet_dut d \<longleftrightarrow> \<not> sc_done (dut_single d) \<and> \<not> tc_done (dut_mult d) \<and> \<not> tc_done1 (dut_mult d) \<and> \<not> tc_done2 (dut_mult d) \<and>
     \<not> tc_done3 (dut_mult d)"

definition mult_progress :: "nat \<Rightarrow> alu_command \<Rightarrow> three_cycle \<Rightarrow> bool" where
  "mult_progress n c d \<longleftrightarrow>
     (let product = ucast (cmd_a c) * ucast (cmd_b c) in
      \<not> tc_done d \<and> tc_done3 d = (0 < n) \<and> tc_done2 d = (1 < n) \<and> tc_done1 d = (2 < n) \<and>
      (0 < n \<longrightarrow> tc_a_int d = cmd_a c \<and> tc_b_int d = cmd_b c) \<and> (1 < n \<longrightarrow> tc_mult1 d = product) \<and> (2 < n \<longrightarrow> tc_mult2 d = product))"

fun in_phase :: "alu_phase \<Rightarrow> alu_bfm \<Rightarrow> bool" where
  "in_phase PIdle s \<longleftrightarrow> \<not> pin_start (bf_pins s) \<and> \<not> bf_prev_start s \<and> quiet_dut (bf_dut s)"
| "in_phase (PDriven c n) s \<longleftrightarrow> pin_start (bf_pins s) \<and> shows_cmd (bf_pins s) c \<and> bf_prev_start s = (0 < n) \<and>
     \<not> sc_done (dut_single (bf_dut s)) \<and> mult_progress n c (dut_mult (bf_dut s)) \<and> (if cmd_op c = Mul then n < 4 else n = 0)"
| "in_phase PClosing s \<longleftrightarrow> \<not> pin_start (bf_pins s) \<and>
     (\<not> tc_done (dut_mult (bf_dut s)) \<longrightarrow> \<not> tc_done1 (dut_mult (bf_dut s)) \<and> \<not> tc_done2 (dut_mult (bf_dut s)) \<and> \<not> tc_done3 (dut_mult (bf_dut s)))"

fun phase_cmds :: "alu_phase \<Rightarrow> alu_command list" where
  "phase_cmds (PDriven c n) = [c]"
| "phase_cmds _ = []"

fun phase_seen :: "alu_phase \<Rightarrow> alu_command list" where
  "phase_seen (PDriven c n) = (if 0 < n then [c] else [])"
| "phase_seen _ = []"

lemma ops_roundtrip [simp]: "ops_from_u64 (ucast (ucast (ops_as_u64 op') :: 3 word)) = Some op'"
  by (cases op') (simp_all add: ops_from_u64_def)

lemma op_bit2 [simp]: "bit (ucast (ops_as_u64 op') :: 3 word) 2 = (op' = Mul)"
  by (cases op') (simp_all add: bit_simps)

lemma op_pin [simp]:
  "(ucast (ops_as_u64 op') :: 3 word) \<noteq> 0" "((ucast (ops_as_u64 op') :: 3 word) = 1) = (op' = Add)"
  "((ucast (ops_as_u64 op') :: 3 word) = 2) = (op' = And)" "((ucast (ops_as_u64 op') :: 3 word) = 3) = (op' = Xor)"
  by (cases op'; simp)+

lemma ucast_up_down [simp]: "ucast (ucast (x :: u8) :: u64) = x" "ucast (ucast (y :: u16) :: u64) = y"
  by (simp_all add: ucast_up_ucast_id is_up)

fun next_phase :: "alu_phase \<Rightarrow> alu_command list \<Rightarrow> alu_phase" where
  "next_phase (PDriven c n) q = (if cmd_op c = Mul \<and> n < 3 then PDriven c (n + 1) else PClosing)"
| "next_phase _ [] = PIdle"
| "next_phase _ (c # q) = PDriven c 0"

fun finishing :: "alu_phase \<Rightarrow> alu_command list" where
  "finishing (PDriven c n) = (if cmd_op c = Mul \<and> n < 3 then [] else [c])"
| "finishing _ = []"

definition tracks :: "alu_phase \<Rightarrow> alu_command list \<Rightarrow> alu_command list \<Rightarrow> alu_command list \<Rightarrow> alu_result list \<Rightarrow> alu_bfm \<Rightarrow> bool" where
  "tracks ph fin sent tc tr s \<longleftrightarrow> in_phase ph s \<and> pin_reset_n (bf_pins s) \<and>
     q_cap (bf_driver_q s) = None \<and> q_cap (bf_cmd_q s) = None \<and> q_cap (bf_result_q s) = None \<and>
     sent = fin @ phase_cmds ph @ q_buf (bf_driver_q s) \<and>
     tc @ q_buf (bf_cmd_q s) = fin @ phase_seen ph \<and> tr @ q_buf (bf_result_q s) = map predict fin"

lemma try_put_unbounded:
  "q_cap q = None \<Longrightarrow> q_buf (fst (fst (try_put q x))) = q_buf q @ [x] \<and> q_cap (fst (fst (try_put q x))) = None"
  by (simp add: queue_defs)

lemma command_eta [simp]: "\<lparr>cmd_a = cmd_a c, cmd_b = cmd_b c, cmd_op = cmd_op c\<rparr> = c"
  by simp

lemma quiet_rise:
  assumes "in_phase ph s" "ph = PIdle \<or> ph = PClosing" "pin_reset_n (bf_pins s)"
  shows "quiet_dut (bf_dut (bfm_rise s))"
  using assms by (auto simp: bfm_rise_def tinyalu_rise_def single_cycle_rise_def three_cycle_rise_def quiet_dut_def Let_def)

lemma quiet_not_done: "quiet_dut d \<Longrightarrow> \<not> alu_done p d"
  by (simp add: quiet_dut_def alu_done_def)

lemma bfm_rise_fields [simp]: "bf_pins (bfm_rise s) = bf_pins s" "bf_driver_q (bfm_rise s) = bf_driver_q s" "bf_cmd_q (bfm_rise s) = bf_cmd_q s"
  "bf_result_q (bfm_rise s) = bf_result_q s" "bf_prev_start (bfm_rise s) = bf_prev_start s"
  by (simp_all add: bfm_rise_def)

lemma fall_quiet:
  assumes "quiet_dut (bf_dut r)" "\<not> pin_start (bf_pins r)"
  shows "bfm_fall r = r\<lparr>bf_pins := snd (driver_loop r), bf_driver_q := fst (driver_loop r), bf_prev_start := False\<rparr>"
  using assms quiet_not_done [OF assms(1)]
  by (simp add: bfm_fall_def cmd_monitor_loop_def result_monitor_loop_def Let_def split_def)

lemma idle_tracks:
  assumes "tracks ph fin sent tc tr s" "ph = PIdle \<or> ph = PClosing"
  shows "tracks (next_phase ph (q_buf (bf_driver_q s))) fin sent tc tr (bfm_period s)"
proof -
  have r: "quiet_dut (bf_dut (bfm_rise s))" "\<not> pin_start (bf_pins s)" "phase_cmds ph = []" "phase_seen ph = []"
    using quiet_rise [of ph s] assms by (auto simp: tracks_def)
  show ?thesis
  proof (cases "q_buf (bf_driver_q s)")
    case Nil
    then have "driver_loop (bfm_rise s) = (bf_driver_q s, bf_pins s)"
      using r quiet_not_done [OF r(1)] by (simp add: driver_loop_def try_get_def Let_def)
    then show ?thesis using assms r Nil fall_quiet [OF r(1)] unfolding bfm_period_def by (auto simp: tracks_def)
  next
    case (Cons c q)
    then have "driver_loop (bfm_rise s) = ((bf_driver_q s)\<lparr>q_buf := q, q_put_waiters := []\<rparr>,
        (bf_pins s)\<lparr>pin_A := cmd_a c, pin_B := cmd_b c, pin_op := ucast (ops_as_u64 (cmd_op c)), pin_start := True\<rparr>)"
      using r quiet_not_done [OF r(1)] by (simp add: driver_loop_def try_get_def wake_putters_def Let_def)
    then show ?thesis using assms r Cons fall_quiet [OF r(1)] unfolding bfm_period_def
      by (auto simp: tracks_def shows_cmd_def mult_progress_def quiet_dut_def)
  qed
qed

lemma driven_waits:
  assumes "tracks (PDriven c n) fin sent tc tr s" "cmd_op c = Mul" "n < 3"
  shows "tracks (PDriven c (n + 1)) fin sent tc tr (bfm_period s)"
proof -
  have d: "\<not> tc_done1 (dut_mult (bf_dut s))" using assms by (simp add: tracks_def mult_progress_def Let_def)
  have o: "bit (pin_op (bf_pins s)) 2" using assms by (simp add: tracks_def shows_cmd_def)
  have m: "mult_progress (n + 1) c (dut_mult (bf_dut (bfm_rise s)))" "\<not> sc_done (dut_single (bf_dut (bfm_rise s)))"
    using assms o by (auto simp: tracks_def bfm_rise_def tinyalu_rise_def single_cycle_rise_def three_cycle_rise_def mult_progress_def shows_cmd_def Let_def)
  then have nd: "\<not> alu_done (bf_pins s) (bf_dut (bfm_rise s))" using o by (simp add: alu_done_def mult_progress_def Let_def)
  have "driver_loop (bfm_rise s) = (bf_driver_q s, bf_pins s)" "result_monitor_loop (bfm_rise s) = bf_result_q s"
    using nd assms(1) by (simp_all add: driver_loop_def result_monitor_loop_def tracks_def Let_def)
  moreover have "cmd_monitor_loop (bfm_rise s) = (if n = 0 then fst (fst (try_put (bf_cmd_q s) c)) else bf_cmd_q s, True)"
    using assms(1) by (auto simp: cmd_monitor_loop_def tracks_def shows_cmd_def Let_def)
  ultimately have "bfm_period s = (bfm_rise s)\<lparr>bf_cmd_q := if n = 0 then fst (fst (try_put (bf_cmd_q s) c)) else bf_cmd_q s, bf_prev_start := True\<rparr>"
    by (simp add: bfm_period_def bfm_fall_def)
  then show ?thesis
    using assms m try_put_unbounded [of "bf_cmd_q s" c] by (auto simp: tracks_def)
qed

lemma driven_finishes:
  assumes "tracks (PDriven c n) fin sent tc tr s" "\<not> (cmd_op c = Mul \<and> n < 3)"
  shows "tracks PClosing (fin @ [c]) sent tc tr (bfm_period s)"
proof -
  have st: "pin_start (bf_pins s)" "shows_cmd (bf_pins s) c" using assms by (auto simp: tracks_def)
  have dn: "alu_done (bf_pins s) (bf_dut (bfm_rise s))" "\<lparr>res_result = alu_result_out (bf_pins s) (bf_dut (bfm_rise s))\<rparr> = predict c"
    using assms by (auto simp: tracks_def bfm_rise_def tinyalu_rise_def single_cycle_rise_def three_cycle_rise_def alu_done_def alu_result_out_def
      predict_def mult_progress_def shows_cmd_def Let_def split: ops.splits if_splits)
  have cl: "\<not> tc_done (dut_mult (bf_dut (bfm_rise s))) \<longrightarrow> \<not> tc_done1 (dut_mult (bf_dut (bfm_rise s))) \<and> \<not> tc_done2 (dut_mult (bf_dut (bfm_rise s))) \<and> \<not> tc_done3 (dut_mult (bf_dut (bfm_rise s)))"
    using assms by (auto simp: tracks_def bfm_rise_def tinyalu_rise_def three_cycle_rise_def mult_progress_def shows_cmd_def Let_def split: if_splits)
  have "driver_loop (bfm_rise s) = (bf_driver_q s, (bf_pins s)\<lparr>pin_start := False\<rparr>)"
    "result_monitor_loop (bfm_rise s) = fst (fst (try_put (bf_result_q s) (predict c)))"
    using dn st by (simp_all add: driver_loop_def result_monitor_loop_def Let_def)
  moreover have "cmd_monitor_loop (bfm_rise s) = (if n = 0 then fst (fst (try_put (bf_cmd_q s) c)) else bf_cmd_q s, True)"
    using assms(1) by (auto simp: cmd_monitor_loop_def tracks_def shows_cmd_def Let_def)
  ultimately have "bfm_period s = (bfm_rise s)\<lparr>bf_pins := (bf_pins s)\<lparr>pin_start := False\<rparr>,
      bf_cmd_q := if n = 0 then fst (fst (try_put (bf_cmd_q s) c)) else bf_cmd_q s,
      bf_result_q := fst (fst (try_put (bf_result_q s) (predict c))), bf_prev_start := True\<rparr>"
    by (simp add: bfm_period_def bfm_fall_def)
  then show ?thesis
    using assms cl try_put_unbounded [of "bf_cmd_q s" c] try_put_unbounded [of "bf_result_q s" "predict c"] by (auto simp: tracks_def)
qed

lemma period_tracks:
  assumes "tracks ph fin sent tc tr s"
  shows "tracks (next_phase ph (q_buf (bf_driver_q s))) (fin @ finishing ph) sent tc tr (bfm_period s)"
proof (cases ph)
  case (PDriven c n)
  then show ?thesis using assms driven_waits [of c n] driven_finishes [of c n] by auto
qed (use assms idle_tracks in auto)
text \<open>The sixteen bits of the golden model hold every result: the sums and products of the source cannot
  overflow.\<close>

lemma predict_exact:
  "unat (res_result (predict c)) =
     (case cmd_op c of Add \<Rightarrow> unat (cmd_a c) + unat (cmd_b c) | Mul \<Rightarrow> unat (cmd_a c) * unat (cmd_b c)
      | And \<Rightarrow> unat (cmd_a c) AND unat (cmd_b c) | Xor \<Rightarrow> unat (cmd_a c) XOR unat (cmd_b c))"
proof -
  have b: "unat x < 256" for x :: u8 using unsigned_less [of x, where ?'a = nat] by simp
  have u: "unat (ucast x :: u16) = unat x" for x :: u8 by (simp add: unsigned_ucast_eq take_bit_nat_eq_self order_less_trans [OF b])
  have m: "unat x * unat y < 65536" for x y :: u8
  proof -
    have "unat x * unat y \<le> 255 * 255" using b [of x] b [of y] by (intro mult_le_mono) simp_all
    then show ?thesis by simp
  qed
  have s: "unat x + unat y < 65536" for x y :: u8 using b [of x] b [of y] by simp
  show ?thesis
    using m [of "cmd_a c" "cmd_b c"] s [of "cmd_a c" "cmd_b c"]
    by (cases "cmd_op c") (simp_all add: predict_def Let_def unat_word_ariths u unsigned_and_eq unsigned_xor_eq)
qed

section \<open>Reset and stimulus\<close>

lemma drain_queue_empty: "q_buf (drain_queue q) = [] \<and> q_cap (drain_queue q) = q_cap q"
proof (induction q rule: drain_queue.induct)
  case (1 q)
  show ?case
  proof (cases "q_buf q")
    case Nil
    then have "drain_queue q = q" by (simp add: drain_queue.simps [of q] try_get_def)
    with Nil show ?thesis by simp
  next
    case (Cons x xs)
    then have g: "try_get q = ((q\<lparr>q_buf := xs, q_put_waiters := []\<rparr>, q_put_waiters q), Some x)"
      by (simp add: try_get_def wake_putters_def)
    then have "drain_queue q = drain_queue (q\<lparr>q_buf := xs, q_put_waiters := []\<rparr>)" by (simp add: drain_queue.simps [of q])
    with 1 [OF g [symmetric] refl refl] show ?thesis by simp
  qed
qed

lemma period_silent:
  assumes "\<not> pin_start (bf_pins s)" "q_buf (bf_driver_q s) = []"
  shows "bfm_period s = s\<lparr>bf_dut := tinyalu_rise (bf_pins s) (bf_dut s), bf_prev_start := False\<rparr>"
  using assms by (simp add: bfm_period_def bfm_fall_def bfm_rise_def driver_loop_def cmd_monitor_loop_def result_monitor_loop_def try_get_def Let_def)

lemma silent_periods:
  assumes "\<not> pin_start (bf_pins s)" "q_buf (bf_driver_q s) = []"
  shows "(bfm_period ^^ Suc n) s = s\<lparr>bf_dut := (tinyalu_rise (bf_pins s) ^^ Suc n) (bf_dut s), bf_prev_start := False\<rparr>"
  using assms by (induction n) (simp_all add: period_silent)

lemma reset_tracks:
  assumes "q_buf (bf_driver_q s) = []" "q_cap (bf_driver_q s) = None" "q_cap (bf_cmd_q s) = None" "q_cap (bf_result_q s) = None"
  shows "tracks PIdle [] [] [] [] (bfm_reset s)"
proof -
  let ?p = "\<lparr>pin_A = 0, pin_B = 0, pin_op = 0, pin_reset_n = False, pin_start = False\<rparr>"
  let ?s1 = "s\<lparr>bf_pins := ?p\<rparr>"
  have five: "(bfm_period ^^ 5) ?s1 = ?s1\<lparr>bf_dut := (tinyalu_rise ?p ^^ 5) (bf_dut s), bf_prev_start := False\<rparr>"
    using silent_periods [of ?s1 4] assms(1) by (simp add: eval_nat_numeral)
  have q: "quiet_dut (tinyalu_rise ?p d)" "quiet_dut d \<Longrightarrow> quiet_dut (tinyalu_rise (?p\<lparr>pin_reset_n := True\<rparr>) d)" for d
    by (simp_all add: quiet_dut_def tinyalu_rise_def single_cycle_rise_def three_cycle_rise_def)
  have "quiet_dut ((tinyalu_rise ?p ^^ 5) (bf_dut s))" by (simp add: eval_nat_numeral q)
  with q(2) assms drain_queue_empty [of "bf_cmd_q s"] drain_queue_empty [of "bf_result_q s"] show ?thesis
    by (simp add: bfm_reset_def five period_silent tracks_def Let_def)
qed

lemma send_op_tracks: "tracks ph fin sent tc tr s \<Longrightarrow> tracks ph fin (sent @ [c]) tc tr (send_op s c)"
  using try_put_unbounded [of "bf_driver_q s" c] by (cases ph) (auto simp: tracks_def send_op_def)

section \<open>Progress\<close>

fun phase_left :: "alu_phase \<Rightarrow> nat" where
  "phase_left PIdle = 0" | "phase_left (PDriven c n) = 5 - n" | "phase_left PClosing = 1"

definition periods_left :: "alu_phase \<Rightarrow> alu_bfm \<Rightarrow> nat" where
  "periods_left ph s = 6 * length (q_buf (bf_driver_q s)) + phase_left ph"

lemma period_queue:
  assumes "tracks ph fin sent tc tr s"
  shows "q_buf (bf_driver_q (bfm_period s)) = (case ph of PDriven c n \<Rightarrow> q_buf (bf_driver_q s) | _ \<Rightarrow> tl (q_buf (bf_driver_q s)))"
proof -
  let ?q = "q_buf (bf_driver_q s)" and ?ph = "next_phase ph (q_buf (bf_driver_q s))"
  have "fin @ phase_cmds ph @ ?q = fin @ finishing ph @ phase_cmds ?ph @ q_buf (bf_driver_q (bfm_period s))"
    using assms period_tracks [OF assms] by (simp add: tracks_def)
  then show ?thesis by (cases ph; cases ?q) (auto split: if_splits)
qed

lemma period_progress:
  assumes "tracks ph fin sent tc tr s"
  shows "periods_left (next_phase ph (q_buf (bf_driver_q s))) (bfm_period s) < periods_left ph s \<or>
    ph = PIdle \<and> q_buf (bf_driver_q s) = [] \<and> periods_left (next_phase ph (q_buf (bf_driver_q s))) (bfm_period s) = 0"
proof (cases ph)
  case (PDriven c n)
  have "n < 4" using assms PDriven by (simp add: tracks_def split: if_splits)
  then show ?thesis using period_queue [OF assms] PDriven by (auto simp: periods_left_def)
qed (use period_queue [OF assms] in \<open>cases "q_buf (bf_driver_q s)"; simp add: periods_left_def\<close>)+

end
