(* ===== verification/Tinyalu_Tb.thy ===== *)
theory Tinyalu_Tb
  imports Tinyalu_Bfm Rng_Model Sequence_Model Component_Model
begin

text \<open>
  The worked example, upper half: the monitors, scoreboard and coverage collector of
  \<open>tinyalu_tb/src/components.rs\<close>, the sequences of \<open>sequences.rs\<close>, and the tests of \<open>tinyalu_tb.rs\<close> from the
  reset to the check phase. After every falling edge the two monitor tasks, which are parked on
  their queue or have just been woken by it, run until they block again. The handshake between
  the sequence and the driver takes no simulated time, so a sequence is here the list of commands
  it finishes, sent at any periods.
\<close>

section \<open>Monitors, scoreboard, coverage\<close>

record scoreboard =
  sb_cmds :: "alu_command list"
  sb_results :: "alu_result list"
  sb_compared :: nat
  sb_mismatches :: nat

type_synonym coverage = "ops \<rightharpoonup> nat"

definition scoreboard_new :: scoreboard where
  "scoreboard_new = \<lparr>sb_cmds = [], sb_results = [], sb_compared = 0, sb_mismatches = 0\<rparr>"

definition cmd_log_write :: "alu_command \<Rightarrow> scoreboard \<Rightarrow> scoreboard" where
  "cmd_log_write cmd sb = sb\<lparr>sb_cmds := sb_cmds sb @ [cmd]\<rparr>"

definition result_log_write :: "alu_result \<Rightarrow> scoreboard \<Rightarrow> scoreboard" where
  "result_log_write r sb = sb\<lparr>sb_results := sb_results sb @ [r]\<rparr>"

definition cov_write :: "alu_command \<Rightarrow> coverage \<Rightarrow> coverage" where
  "cov_write cmd seen = seen(cmd_op cmd \<mapsto> (case seen (cmd_op cmd) of None \<Rightarrow> 0 | Some n \<Rightarrow> n) + 1)"

text \<open>The command bus calls the scoreboard, then the coverage collector.\<close>

definition cmd_bus_write :: "alu_command \<Rightarrow> scoreboard \<times> coverage \<Rightarrow> scoreboard \<times> coverage" where
  "cmd_bus_write cmd = (\<lambda>(sb, seen). (cmd_log_write cmd sb, cov_write cmd seen))"

function monitor_loop :: "waker \<Rightarrow> ('a \<Rightarrow> 'l \<Rightarrow> 'l) \<Rightarrow> 'a qinner \<Rightarrow> 'l \<Rightarrow> 'a qinner \<times> 'l" where
  "monitor_loop w wr q l =
     (case get_poll w q of ((q', _), Ready x) \<Rightarrow> monitor_loop w wr q' (wr x l) | ((q', _), Pending) \<Rightarrow> (q', l))"
  by pat_completeness auto

termination by (relation "measure (\<lambda>(w, wr, q, l). length (q_buf q))") (auto simp: get_poll_def wake_putters_def split: list.splits)

declare monitor_loop.simps [simp del]

definition monitor_run :: "waker \<Rightarrow> ('a \<Rightarrow> 'l \<Rightarrow> 'l) \<Rightarrow> 'a qinner \<Rightarrow> 'l \<Rightarrow> 'a qinner \<times> 'l" where
  "monitor_run w wr q l = (if queue_is_empty q then (q, l) else monitor_loop w wr q l)"

definition show_op :: "ops \<Rightarrow> string" where
  "show_op x = (case x of Add \<Rightarrow> ''Add'' | And \<Rightarrow> ''And'' | Xor \<Rightarrow> ''Xor'' | Mul \<Rightarrow> ''Mul'')"

definition show_cmd :: "alu_command \<Rightarrow> string" where
  "show_cmd c = ''AluCommand { a: '' @ dec_string (unat (cmd_a c)) @ '', b: '' @ dec_string (unat (cmd_b c)) @
     '', op: '' @ show_op (cmd_op c) @ '' }''"

definition show_res :: "alu_result \<Rightarrow> string" where
  "show_res r = ''AluResult { result: '' @ dec_string (unat (res_result r)) @ '' }''"

definition sb_line :: "alu_command \<Rightarrow> alu_result \<Rightarrow> alu_result \<Rightarrow> string \<Rightarrow> string" where
  "sb_line cmd actual expected verdict =
     ''scoreboard: in='' @ show_cmd cmd @ '' out='' @ show_res actual @ '' expected='' @ show_res expected @ '' check='' @ verdict"

definition sb_compare :: "alu_command \<times> alu_result \<Rightarrow> scoreboard \<times> string list \<times> string list \<Rightarrow> scoreboard \<times> string list \<times> string list" where
  "sb_compare = (\<lambda>(cmd, actual) (sb, log, errs).
     (let expected = predict cmd; sb1 = sb\<lparr>sb_compared := sb_compared sb + 1\<rparr> in
      if expected \<noteq> actual
      then (sb1\<lparr>sb_mismatches := sb_mismatches sb1 + 1\<rparr>, log @ [sb_line cmd actual expected ''FAIL''],
        errs @ [''scoreboard mismatch: '' @ show_cmd cmd @ '' -> got '' @ show_res actual @ '', expected '' @ show_res expected])
      else (sb1, log @ [sb_line cmd actual expected ''PASS''], errs)))"

definition sb_check :: "scoreboard \<Rightarrow> string list \<Rightarrow> scoreboard \<times> string list \<times> string list" where
  "sb_check sb errs =
     (let (sb1, log, errs1) = fold sb_compare (zip (sb_cmds sb) (sb_results sb)) (sb, [], errs);
          errs2 = (if length (sb_cmds sb) \<noteq> length (sb_results sb)
            then errs1 @ [''scoreboard: saw '' @ dec_string (length (sb_cmds sb)) @ '' commands and '' @ dec_string (length (sb_results sb)) @ '' results'']
            else errs1);
          errs3 = (if sb_compared sb1 = 0 then errs2 @ [''scoreboard: nothing was compared''] else errs2)
      in (sb1, log, errs3))"

definition sb_report :: "scoreboard \<Rightarrow> string" where
  "sb_report sb = ''scoreboard: '' @ dec_string (sb_compared sb) @ '' compared, '' @ dec_string (sb_mismatches sb) @ '' mismatches''"

definition cov_check :: "coverage \<Rightarrow> string list \<Rightarrow> string list" where
  "cov_check seen errs = errs @ map (\<lambda>x. ''coverage: op '' @ show_op x @ '' was never exercised'') (filter (\<lambda>x. seen x = None) ops_all)"

section \<open>The running testbench\<close>

record alu_tb =
  tb_bfm :: alu_bfm
  tb_board :: scoreboard
  tb_seen :: coverage

definition tb_start :: "alu_bfm \<Rightarrow> alu_tb" where
  "tb_start s = \<lparr>tb_bfm = bfm_reset s, tb_board = scoreboard_new, tb_seen = Map.empty\<rparr>"

text \<open>Both monitors after a falling edge; \<open>w\<close> holds the wakers of their tasks.\<close>

definition monitors :: "waker \<times> waker \<Rightarrow> alu_tb \<Rightarrow> alu_tb" where
  "monitors w t =
     (let b = tb_bfm t;
          (cq, sb1, seen1) = monitor_run (fst w) cmd_bus_write (bf_cmd_q b) (tb_board t, tb_seen t);
          (rq, sb2) = monitor_run (snd w) result_log_write (bf_result_q b) sb1
      in \<lparr>tb_bfm = b\<lparr>bf_cmd_q := cq, bf_result_q := rq\<rparr>, tb_board = sb2, tb_seen = seen1\<rparr>)"

definition tb_period :: "waker \<times> waker \<Rightarrow> alu_tb \<Rightarrow> alu_tb" where
  "tb_period w t = monitors w (t\<lparr>tb_bfm := bfm_period (tb_bfm t)\<rparr>)"

text \<open>Waiting for the bus to go quiet. The task may look at the queue before or after the driver loop
  has taken a command on the same edge, which is \<open>early\<close>; \<open>None\<close> when the given number of edges is not
  enough.\<close>

fun wait_idle :: "(nat \<Rightarrow> bool) \<Rightarrow> waker \<times> waker \<Rightarrow> nat \<Rightarrow> nat \<Rightarrow> alu_tb \<Rightarrow> alu_tb option" where
  "wait_idle early w k idle_edges t =
     (if 2 \<le> idle_edges then Some (tb_period w t)
      else case k of
        0 \<Rightarrow> None
      | Suc k' \<Rightarrow>
          (let r = bfm_rise (tb_bfm t); s' = bfm_fall r;
               q = (if early k' then bf_driver_q r else bf_driver_q s');
               quiet = (queue_is_empty q \<and> \<not> pin_start (bf_pins r) \<and> \<not> alu_done (bf_pins r) (bf_dut r))
           in wait_idle early w k' (if quiet then idle_edges + 1 else 0) (monitors w (t\<lparr>tb_bfm := s'\<rparr>))))"

declare wait_idle.simps [simp del]

datatype tb_action = SendOp alu_command | Period

fun tb_act :: "waker \<times> waker \<Rightarrow> tb_action \<Rightarrow> alu_tb \<Rightarrow> alu_tb" where
  "tb_act w (SendOp c) t = t\<lparr>tb_bfm := send_op (tb_bfm t) c\<rparr>"
| "tb_act w Period t = tb_period w t"

definition tb_check :: "bool \<Rightarrow> alu_tb \<Rightarrow> string list" where
  "tb_check with_coverage t =
     (let errs = snd (snd (sb_check (tb_board t) [])) in if with_coverage then cov_check (tb_seen t) errs else errs)"

section \<open>Sequences\<close>

datatype alu_seq = BaseSeq | RandomSeq | MaxSeq

fun set_operands :: "alu_seq \<Rightarrow> rng \<Rightarrow> alu_command \<Rightarrow> rng \<times> alu_command" where
  "set_operands BaseSeq rng cmd = (rng, cmd)"
| "set_operands RandomSeq rng cmd = (let (rng1, a) = rng_u8 rng; (rng2, b) = rng_u8 rng1 in (rng2, cmd\<lparr>cmd_a := a, cmd_b := b\<rparr>))"
| "set_operands MaxSeq rng cmd = (rng, cmd\<lparr>cmd_a := 0xFF, cmd_b := 0xFF\<rparr>)"

fun ops_walk :: "alu_seq \<Rightarrow> ops list \<Rightarrow> rng \<Rightarrow> rng \<times> alu_command list" where
  "ops_walk q [] rng = (rng, [])"
| "ops_walk q (x # xs) rng =
     (let (rng1, cmd) = set_operands q rng \<lparr>cmd_a = 0, cmd_b = 0, cmd_op = x\<rparr>; (rng2, cmds) = ops_walk q xs rng1
      in (rng2, cmd # cmds))"

fun all_ops :: "alu_seq \<Rightarrow> nat \<Rightarrow> rng \<Rightarrow> rng \<times> alu_command list" where
  "all_ops q 0 rng = (rng, [])"
| "all_ops q (Suc n) rng = (let (rng1, c1) = ops_walk q ops_all rng; (rng2, c2) = all_ops q n rng1 in (rng2, c1 @ c2))"

definition seq_rounds :: "alu_seq \<Rightarrow> nat" where
  "seq_rounds q = (case q of BaseSeq \<Rightarrow> 1 | RandomSeq \<Rightarrow> 5 | MaxSeq \<Rightarrow> 1)"

definition seq_body :: "alu_seq \<Rightarrow> u64 \<Rightarrow> alu_command list" where
  "seq_body q seed = snd (all_ops q (seq_rounds q) (rng_new seed))"

text \<open>The tests install an override for the base sequence and run what the factory then builds.\<close>

definition base_test_seq :: "alu_seq seq_overrides \<Rightarrow> alu_seq" where
  "base_test_seq ov = create_seq ov 0 (\<lambda>_. BaseSeq)"

definition random_test_build :: "alu_seq seq_overrides \<Rightarrow> alu_seq seq_overrides" where
  "random_test_build ov = set_seq_override ov 0 1 (\<lambda>_. RandomSeq)"

definition max_test_build :: "alu_seq seq_overrides \<Rightarrow> alu_seq seq_overrides" where
  "max_test_build ov = set_seq_override ov 0 2 (\<lambda>_. MaxSeq)"

section \<open>The scoreboard's verdict\<close>

lemma sb_compare_fold:
  "fold sb_compare ps (sb, log, errs) = (sb1, log1, errs1) \<Longrightarrow>
    sb_compared sb1 = sb_compared sb + length ps \<and>
    sb_mismatches sb1 = sb_mismatches sb + length (filter (\<lambda>(c, r). predict c \<noteq> r) ps) \<and>
    sb_cmds sb1 = sb_cmds sb \<and> sb_results sb1 = sb_results sb \<and>
    length errs1 = length errs + length (filter (\<lambda>(c, r). predict c \<noteq> r) ps) \<and> length log1 = length log + length ps"
proof (induction ps arbitrary: sb log errs)
  case (Cons p ps)
  obtain c r where p: "p = (c, r)" by (cases p)
  obtain sb2 log2 errs2 where s: "sb_compare p (sb, log, errs) = (sb2, log2, errs2)" by (cases "sb_compare p (sb, log, errs)")
  with Cons.prems have "fold sb_compare ps (sb2, log2, errs2) = (sb1, log1, errs1)" by simp
  from Cons.IH [OF this] s p show ?case by (auto simp: sb_compare_def Let_def split: if_splits)
qed simp

lemma all_match_iff:
  "length cs = length rs \<Longrightarrow> (filter (\<lambda>(c, r). predict c \<noteq> r) (zip cs rs) = []) = (rs = map predict cs)"
  by (induction cs rs rule: list_induct2) auto

lemma sb_check_errors:
  assumes "sb_check sb errs = (sb', log, errs')"
  shows "errs' = [] \<longleftrightarrow> errs = [] \<and> sb_results sb = map predict (sb_cmds sb) \<and> sb_compared sb + length (sb_cmds sb) \<noteq> 0"
    "sb_mismatches sb' = sb_mismatches sb + length (filter (\<lambda>(c, r). predict c \<noteq> r) (zip (sb_cmds sb) (sb_results sb)))"
proof -
  let ?ps = "zip (sb_cmds sb) (sb_results sb)"
  obtain sb1 log1 errs1 where f: "fold sb_compare ?ps (sb, [], errs) = (sb1, log1, errs1)" by (cases "fold sb_compare ?ps (sb, [], errs)")
  note F = sb_compare_fold [OF f]
  have e1: "errs1 = [] \<longleftrightarrow> errs = [] \<and> filter (\<lambda>(c, r). predict c \<noteq> r) ?ps = []"
    using F by (metis add_is_0 length_0_conv)
  show "sb_mismatches sb' = sb_mismatches sb + length (filter (\<lambda>(c, r). predict c \<noteq> r) ?ps)"
    using assms f F by (simp add: sb_check_def Let_def)
  show "errs' = [] \<longleftrightarrow> errs = [] \<and> sb_results sb = map predict (sb_cmds sb) \<and> sb_compared sb + length (sb_cmds sb) \<noteq> 0"
  proof (cases "length (sb_cmds sb) = length (sb_results sb)")
    case True
    then show ?thesis using assms f F e1 all_match_iff [OF True] by (auto simp: sb_check_def Let_def split: if_splits)
  next
    case False
    then show ?thesis using assms f by (auto simp: sb_check_def Let_def split: if_splits dest: arg_cong [where f = length])
  qed
qed

section \<open>The monitors lose nothing\<close>

lemma monitor_loop_all:
  "monitor_loop w wr q l = (q', l') \<Longrightarrow> l' = fold wr (q_buf q) l \<and> q_buf q' = [] \<and> q_cap q' = q_cap q"
proof (induction w wr q l arbitrary: q' l' rule: monitor_loop.induct)
  case (1 w wr q l)
  show ?case
  proof (cases "q_buf q")
    case Nil
    then show ?thesis using "1.prems" by (simp add: monitor_loop.simps [of w wr q] get_poll_def) auto
  next
    case (Cons x xs)
    then have g: "get_poll w q = ((q\<lparr>q_buf := xs, q_put_waiters := []\<rparr>, q_put_waiters q), Ready x)"
      by (simp add: get_poll_def wake_putters_def)
    then have "monitor_loop w wr (q\<lparr>q_buf := xs, q_put_waiters := []\<rparr>) (wr x l) = (q', l')"
      using "1.prems" by (simp add: monitor_loop.simps [of w wr q])
    from "1.IH" [OF g [symmetric] refl refl this] Cons show ?thesis by simp
  qed
qed

lemma monitor_run_all:
  "monitor_run w wr q l = (q', l') \<Longrightarrow> l' = fold wr (q_buf q) l \<and> q_buf q' = [] \<and> q_cap q' = q_cap q"
  using monitor_loop_all [of w wr q l q' l'] by (auto simp: monitor_run_def queue_is_empty_def split: if_splits)

lemma cmd_bus_fold:
  "fold cmd_bus_write cs (sb, seen) = (sb\<lparr>sb_cmds := sb_cmds sb @ cs\<rparr>, fold cov_write cs seen)"
  by (induction cs arbitrary: sb seen) (auto simp: cmd_bus_write_def cmd_log_write_def)

lemma result_log_fold: "fold result_log_write rs sb = sb\<lparr>sb_results := sb_results sb @ rs\<rparr>"
  by (induction rs arbitrary: sb) (auto simp: result_log_write_def)

definition tb_tracks :: "alu_phase \<Rightarrow> alu_command list \<Rightarrow> alu_command list \<Rightarrow> alu_tb \<Rightarrow> bool" where
  "tb_tracks ph fin sent t \<longleftrightarrow> tracks ph fin sent (sb_cmds (tb_board t)) (sb_results (tb_board t)) (tb_bfm t) \<and>
     tb_seen t = fold cov_write (sb_cmds (tb_board t)) Map.empty \<and> sb_compared (tb_board t) = 0 \<and>
     q_buf (bf_cmd_q (tb_bfm t)) = [] \<and> q_buf (bf_result_q (tb_bfm t)) = []"

lemma in_phase_queues [simp]: "in_phase ph (s\<lparr>bf_cmd_q := cq, bf_result_q := rq\<rparr>) = in_phase ph s"
  by (cases ph) simp_all

lemma monitors_tracks:
  assumes "tracks ph fin sent (sb_cmds (tb_board t)) (sb_results (tb_board t)) (tb_bfm t)"
    "tb_seen t = fold cov_write (sb_cmds (tb_board t)) Map.empty" "sb_compared (tb_board t) = 0"
  shows "tb_tracks ph fin sent (monitors w t)" "bf_driver_q (tb_bfm (monitors w t)) = bf_driver_q (tb_bfm t)"
proof -
  let ?b = "tb_bfm t"
  obtain cq sb1 seen1 where c: "monitor_run (fst w) cmd_bus_write (bf_cmd_q ?b) (tb_board t, tb_seen t) = (cq, sb1, seen1)"
    by (cases "monitor_run (fst w) cmd_bus_write (bf_cmd_q ?b) (tb_board t, tb_seen t)") auto
  obtain rq sb2 where r: "monitor_run (snd w) result_log_write (bf_result_q ?b) sb1 = (rq, sb2)"
    by (cases "monitor_run (snd w) result_log_write (bf_result_q ?b) sb1")
  note C = monitor_run_all [OF c] and R = monitor_run_all [OF r]
  have m: "monitors w t = \<lparr>tb_bfm = ?b\<lparr>bf_cmd_q := cq, bf_result_q := rq\<rparr>, tb_board = sb2, tb_seen = seen1\<rparr>"
    by (simp add: monitors_def c r Let_def)
  have "fold cov_write (sb_cmds (tb_board t) @ q_buf (bf_cmd_q ?b)) Map.empty = fold cov_write (fin @ phase_seen ph) Map.empty"
    using assms(1) by (simp only: tracks_def)
  then have seen: "fold cov_write (q_buf (bf_cmd_q ?b)) (fold cov_write (sb_cmds (tb_board t)) Map.empty) =
      fold cov_write (phase_seen ph) (fold cov_write fin Map.empty)"
    by simp
  show "tb_tracks ph fin sent (monitors w t)" "bf_driver_q (tb_bfm (monitors w t)) = bf_driver_q ?b"
    using assms C R seen by (auto simp: m tb_tracks_def tracks_def cmd_bus_fold result_log_fold)
qed

lemma tb_period_tracks:
  assumes "tb_tracks ph fin sent t" "ph' = next_phase ph (q_buf (bf_driver_q (tb_bfm t)))"
  shows "tb_tracks ph' (fin @ finishing ph) sent (tb_period w t)"
    "bf_driver_q (tb_bfm (tb_period w t)) = bf_driver_q (bfm_period (tb_bfm t))"
  using monitors_tracks [of ph' "fin @ finishing ph" sent "t\<lparr>tb_bfm := bfm_period (tb_bfm t)\<rparr>" w] period_tracks [of ph fin sent _ _ "tb_bfm t"] assms
  by (simp_all add: tb_tracks_def tb_period_def)

lemma tb_act_tracks:
  "tb_tracks ph fin sent t \<Longrightarrow> \<exists>ph fin. tb_tracks ph fin (case a of SendOp c \<Rightarrow> sent @ [c] | Period \<Rightarrow> sent) (tb_act w a t)"
proof (cases a)
  case (SendOp c)
  assume "tb_tracks ph fin sent t"
  then have "tb_tracks ph fin (sent @ [c]) (tb_act w a t)"
    using SendOp send_op_tracks [of ph fin sent _ _ "tb_bfm t" c] by (simp add: tb_tracks_def send_op_def)
  with SendOp show ?thesis by auto
next
  case Period
  assume "tb_tracks ph fin sent t"
  from tb_period_tracks [OF this refl, of w] Period show ?thesis by auto
qed

definition sent_by :: "tb_action list \<Rightarrow> alu_command list" where
  "sent_by acts = List.map_filter (\<lambda>a. case a of SendOp c \<Rightarrow> Some c | Period \<Rightarrow> None) acts"

lemma sent_by_snoc: "sent_by (acts @ [a]) = (case a of SendOp c \<Rightarrow> sent_by acts @ [c] | Period \<Rightarrow> sent_by acts)"
  by (cases a) (simp_all add: sent_by_def List.map_filter_def)

lemma run_tracks:
  assumes "tb_tracks PIdle [] [] t"
  shows "\<exists>ph fin. tb_tracks ph fin (sent_by acts) (fold (tb_act w) acts t)"
proof (induction acts rule: rev_induct)
  case Nil
  then show ?case using assms by (auto simp: sent_by_def List.map_filter_simps)
next
  case (snoc a acts)
  then obtain ph fin where "tb_tracks ph fin (sent_by acts) (fold (tb_act w) acts t)" by blast
  from tb_act_tracks [OF this, of a w] show ?case by (simp add: sent_by_snoc)
qed

section \<open>Going quiet\<close>

definition idle_ok :: "nat \<Rightarrow> alu_phase \<Rightarrow> alu_tb \<Rightarrow> bool" where
  "idle_ok n ph t \<longleftrightarrow> (0 < n \<longrightarrow> q_buf (bf_driver_q (tb_bfm t)) = [] \<and> (ph = PIdle \<or> n = 1 \<and> (\<exists>c. ph = PDriven c 0)))"

lemma tb_period_unfold: "monitors w (t\<lparr>tb_bfm := bfm_fall (bfm_rise (tb_bfm t))\<rparr>) = tb_period w t"
  by (simp add: tb_period_def bfm_period_def)

lemma quiet_edge:
  assumes "tb_tracks ph fin sent t" "idle_ok n ph t" "n < 2"
    and q: "quiet \<longleftrightarrow> queue_is_empty (if e then bf_driver_q (bfm_rise (tb_bfm t)) else bf_driver_q (bfm_fall (bfm_rise (tb_bfm t)))) \<and>
      \<not> pin_start (bf_pins (bfm_rise (tb_bfm t))) \<and> \<not> alu_done (bf_pins (bfm_rise (tb_bfm t))) (bf_dut (bfm_rise (tb_bfm t)))"
  shows "idle_ok (if quiet then n + 1 else 0) (next_phase ph (q_buf (bf_driver_q (tb_bfm t)))) (tb_period w t)"
    "ph = PIdle \<Longrightarrow> q_buf (bf_driver_q (tb_bfm t)) = [] \<Longrightarrow> quiet"
proof -
  let ?s = "tb_bfm t" let ?q = "q_buf (bf_driver_q ?s)"
  have tr: "tracks ph fin sent (sb_cmds (tb_board t)) (sb_results (tb_board t)) ?s" using assms(1) by (simp add: tb_tracks_def)
  have q': "q_buf (bf_driver_q (tb_bfm (tb_period w t))) = (case ph of PDriven c n \<Rightarrow> ?q | _ \<Rightarrow> tl ?q)"
    using period_queue [OF tr] tb_period_tracks(2) [OF assms(1) refl] by simp
  have fq: "bf_driver_q (bfm_fall (bfm_rise ?s)) = bf_driver_q (bfm_period ?s)" by (simp add: bfm_period_def)
  show "idle_ok (if quiet then n + 1 else 0) (next_phase ph ?q) (tb_period w t)"
  proof (cases quiet)
    case True
    then have "\<not> pin_start (bf_pins ?s)" using q by simp
    then have ph: "ph = PIdle \<or> ph = PClosing" using tr by (cases ph) (auto simp: tracks_def)
    have e: "tl ?q = []" using True ph q' period_queue [OF tr] by (cases e) (auto simp: q queue_is_empty_def fq)
    show ?thesis
    proof (cases ?q)
      case Nil
      then show ?thesis using True ph q' by (auto simp: idle_ok_def)
    next
      case (Cons c q1)
      then show ?thesis using True ph q' e assms(2) by (auto simp: idle_ok_def)
    qed
  qed (simp add: idle_ok_def)
  show quiet if "ph = PIdle" "?q = []"
    using that tr quiet_rise [of ph ?s] quiet_not_done period_queue [OF tr] by (auto simp: q queue_is_empty_def fq tracks_def)
qed

lemma wait_idle_returns:
  assumes "tb_tracks ph fin sent t" "idle_ok n ph t" "n \<le> 2"
    and "periods_left ph (tb_bfm t) + 2 \<le> k \<or> periods_left ph (tb_bfm t) = 0 \<and> 2 \<le> k + n"
  shows "\<exists>t'. wait_idle early w k n t = Some t' \<and> tb_tracks PIdle sent sent t'"
  using assms
proof (induction k arbitrary: n ph fin t)
  case 0
  then have "n = 2" by auto
  then have "ph = PIdle" "q_buf (bf_driver_q (tb_bfm t)) = []" using 0 by (auto simp: idle_ok_def)
  then show ?case using tb_period_tracks(1) [OF "0.prems"(1) refl, of w] \<open>n = 2\<close> "0.prems"(1)
    by (auto simp: wait_idle.simps tb_tracks_def tracks_def)
next
  case (Suc k)
  let ?q = "q_buf (bf_driver_q (tb_bfm t))"
  have tr: "tracks ph fin sent (sb_cmds (tb_board t)) (sb_results (tb_board t)) (tb_bfm t)" using Suc.prems(1) by (simp add: tb_tracks_def)
  show ?case
  proof (cases "n = 2")
    case True
    then have "ph = PIdle" "?q = []" using Suc.prems by (auto simp: idle_ok_def)
    then show ?thesis using tb_period_tracks(1) [OF Suc.prems(1) refl, of w] True Suc.prems(1)
      by (auto simp: wait_idle.simps tb_tracks_def tracks_def)
  next
    case False
    with Suc.prems(3) have n: "n < 2" by simp
    define quiet where "quiet \<longleftrightarrow> queue_is_empty (if early k then bf_driver_q (bfm_rise (tb_bfm t)) else bf_driver_q (bfm_fall (bfm_rise (tb_bfm t)))) \<and>
      \<not> pin_start (bf_pins (bfm_rise (tb_bfm t))) \<and> \<not> alu_done (bf_pins (bfm_rise (tb_bfm t))) (bf_dut (bfm_rise (tb_bfm t)))"
    let ?n = "if quiet then n + 1 else 0" and ?ph = "next_phase ph ?q"
    note edge = quiet_edge [OF Suc.prems(1,2) n quiet_def]
    have step: "wait_idle early w (Suc k) n t = wait_idle early w k ?n (tb_period w t)"
      using n by (simp add: wait_idle.simps [of early w "Suc k"] quiet_def tb_period_unfold Let_def)
    have left: "periods_left ?ph (tb_bfm (tb_period w t)) = periods_left ?ph (bfm_period (tb_bfm t))"
      using tb_period_tracks(2) [OF Suc.prems(1) refl, of w] by (simp add: periods_left_def)
    have "periods_left ?ph (tb_bfm (tb_period w t)) + 2 \<le> k \<or> periods_left ?ph (tb_bfm (tb_period w t)) = 0 \<and> 2 \<le> k + ?n"
      using period_progress [OF tr] Suc.prems(4) edge(2) n unfolding left by (auto simp: periods_left_def)
    from Suc.IH [OF tb_period_tracks(1) [OF Suc.prems(1) refl, of w] edge(1) _ this] n step show ?thesis by auto
  qed
qed

section \<open>Coverage and sequences\<close>

lemma cov_fold_seen: "fold cov_write cs seen x = None \<longleftrightarrow> seen x = None \<and> x \<notin> cmd_op ` set cs"
  by (induction cs arbitrary: seen) (auto simp: cov_write_def)

lemma ops_all_UNIV: "set ops_all = UNIV"
proof -
  have "x \<in> set ops_all" for x by (cases x) (simp_all add: ops_all_def)
  then show ?thesis by auto
qed

lemma cov_check_empty: "cov_check (fold cov_write cs Map.empty) errs = [] \<longleftrightarrow> errs = [] \<and> cmd_op ` set cs = UNIV"
  using ops_all_UNIV by (auto simp: cov_check_def cov_fold_seen filter_empty_conv)

lemma set_operands_op: "cmd_op (snd (set_operands q rng c)) = cmd_op c"
  by (cases q) (simp_all add: rng_u8_def split_def Let_def)

lemma ops_walk_ops: "map cmd_op (snd (ops_walk q xs rng)) = xs"
proof (induction xs arbitrary: rng)
  case (Cons x xs)
  then show ?case using set_operands_op [of q rng "\<lparr>cmd_a = 0, cmd_b = 0, cmd_op = x\<rparr>"] by (simp add: split_def Let_def)
qed simp

lemma all_ops_ops: "map cmd_op (snd (all_ops q n rng)) = concat (replicate n ops_all)"
  by (induction n arbitrary: rng) (simp_all add: ops_walk_ops split_def Let_def)

lemma seq_body_ops: "map cmd_op (seq_body q seed) = concat (replicate (seq_rounds q) ops_all)"
  by (simp add: seq_body_def all_ops_ops)

lemma seq_body_length: "length (seq_body q seed) = 4 * seq_rounds q"
proof -
  have "length (map cmd_op (seq_body q seed)) = 4 * seq_rounds q"
    unfolding seq_body_ops by (simp add: length_concat ops_all_def sum_list_replicate)
  then show ?thesis by simp
qed

lemma seq_body_covers: "cmd_op ` set (seq_body q seed) = UNIV"
proof -
  have "cmd_op ` set (seq_body q seed) = set (concat (replicate (seq_rounds q) ops_all))"
    by (simp only: seq_body_ops [of q seed, symmetric] set_map)
  then show ?thesis using ops_all_UNIV by (cases q) (simp_all add: seq_rounds_def)
qed

section \<open>The whole test\<close>

definition power_up :: "alu_bfm \<Rightarrow> bool" where
  "power_up s \<longleftrightarrow> q_buf (bf_driver_q s) = [] \<and> q_cap (bf_driver_q s) = None \<and> q_cap (bf_cmd_q s) = None \<and> q_cap (bf_result_q s) = None"

lemma start_tracks: "power_up s \<Longrightarrow> tb_tracks PIdle [] [] (tb_start s)"
  using reset_tracks [of s] by (auto simp: power_up_def tb_tracks_def tb_start_def scoreboard_new_def tracks_def)

lemma test_completes:
  assumes "power_up s" "6 * length (sent_by acts) + 7 \<le> k"
  shows "\<exists>t. wait_idle early w k 0 (fold (tb_act w) acts (tb_start s)) = Some t \<and> tb_tracks PIdle (sent_by acts) (sent_by acts) t"
proof -
  let ?t = "fold (tb_act w) acts (tb_start s)"
  obtain ph fin where tr: "tb_tracks ph fin (sent_by acts) ?t" using run_tracks [OF start_tracks [OF assms(1)]] by blast
  then have "length (q_buf (bf_driver_q (tb_bfm ?t))) \<le> length (sent_by acts)" by (auto simp: tb_tracks_def tracks_def)
  moreover have "phase_left ph \<le> 5" by (cases ph) simp_all
  ultimately have "periods_left ph (tb_bfm ?t) + 2 \<le> k" using assms(2) by (simp add: periods_left_def)
  then show ?thesis using wait_idle_returns [OF tr, of 0 k early w] by (simp add: idle_ok_def)
qed

lemma tracked_check:
  assumes "tb_tracks PIdle sent sent t"
  shows "sb_cmds (tb_board t) = sent" "sb_results (tb_board t) = map predict sent"
    "tb_check cov t = [] \<longleftrightarrow> sent \<noteq> [] \<and> (cov \<longrightarrow> cmd_op ` set sent = UNIV)"
proof -
  show c: "sb_cmds (tb_board t) = sent" and r: "sb_results (tb_board t) = map predict sent"
    using assms by (auto simp: tb_tracks_def tracks_def)
  obtain sb log errs where k: "sb_check (tb_board t) [] = (sb, log, errs)" by (cases "sb_check (tb_board t) []")
  have "errs = [] \<longleftrightarrow> sent \<noteq> []" using sb_check_errors(1) [OF k] assms by (simp add: c r tb_tracks_def)
  then show "tb_check cov t = [] \<longleftrightarrow> sent \<noteq> [] \<and> (cov \<longrightarrow> cmd_op ` set sent = UNIV)"
    using assms cov_check_empty [of sent errs] by (auto simp: tb_check_def k c tb_tracks_def Let_def)
qed

section \<open>Properties\<close>

text \<open>The scoreboard is exact: a fresh one, checked once, files no error precisely when something was
  observed and the results are, in number, order and value, what the golden model predicts for the
  commands, and its count of mismatches is the number of compared pairs that differ.\<close>

theorem scoreboard_verdict:
  assumes "sb_compared sb = 0" "sb_mismatches sb = 0" "sb_check sb [] = (sb', log, errs)"
  shows "(errs = [] \<longleftrightarrow> sb_cmds sb \<noteq> [] \<and> sb_results sb = map predict (sb_cmds sb)) \<and>
    sb_mismatches sb' = length (filter (\<lambda>(c, r). predict c \<noteq> r) (zip (sb_cmds sb) (sb_results sb)))"
  using sb_check_errors [OF assms(3)] assms(1,2) by auto

definition demo_board :: scoreboard where
  "demo_board = \<lparr>sb_cmds = [\<lparr>cmd_a = 255, cmd_b = 255, cmd_op = Add\<rparr>], sb_results = [\<lparr>res_result = 0xFE\<rparr>], sb_compared = 0, sb_mismatches = 0\<rparr>"

theorem scoreboard_verdict_witness: "snd (snd (sb_check demo_board [])) \<noteq> []"
proof -
  obtain sb log errs where k: "sb_check demo_board [] = (sb, log, errs)" by (cases "sb_check demo_board []")
  have "sb_results demo_board \<noteq> map predict (sb_cmds demo_board)" by code_simp
  with scoreboard_verdict [OF _ _ k] k show ?thesis by (simp add: demo_board_def)
qed

text \<open>C6: The worked example is right end to end: from any content of the device's registers at power-up,
  after the reset, with commands handed to the bus functional model at any periods, waiting for the
  bus to go quiet returns within six periods per command and seven more, whichever of the two tasks
  looks at the queue first, and by then the scoreboard holds exactly the commands sent, in order,
  with the golden model's results; so the check phase files an error exactly when nothing was sent
  or, with coverage on, some operation was not.\<close>

theorem alu_bench_end_to_end:
  assumes "power_up s" "6 * length (sent_by acts) + 7 \<le> k"
  shows "\<exists>t. wait_idle early w k 0 (fold (tb_act w) acts (tb_start s)) = Some t \<and>
    sb_cmds (tb_board t) = sent_by acts \<and> sb_results (tb_board t) = map predict (sent_by acts) \<and>
    (tb_check cov t = [] \<longleftrightarrow> sent_by acts \<noteq> [] \<and> (cov \<longrightarrow> cmd_op ` set (sent_by acts) = UNIV))"
  using test_completes [OF assms, of early w] tracked_check by blast

text \<open>The three stimulus programs pass on the device: the random and the maximum test build their
  sequence whatever override an earlier test left behind, and each sequence, for every seed and
  every interleaving with the clock, ends with no check failure, coverage included.\<close>

theorem alu_tests_pass:
  assumes "power_up s" "sent_by acts = seq_body q seed" "6 * length (seq_body q seed) + 7 \<le> k"
  shows "base_test_seq (random_test_build ov) = RandomSeq \<and> base_test_seq (max_test_build ov) = MaxSeq \<and>
    (\<exists>t. wait_idle early w k 0 (fold (tb_act w) acts (tb_start s)) = Some t \<and> sink_into_result (tb_check True t) = None)"
proof -
  have "seq_body q seed \<noteq> []" using seq_body_covers [of q seed] by auto
  moreover obtain t where "wait_idle early w k 0 (fold (tb_act w) acts (tb_start s)) = Some t" "tb_tracks PIdle (sent_by acts) (sent_by acts) t"
    using test_completes [OF assms(1), of acts k early w] assms(2,3) by auto
  ultimately show ?thesis
    using tracked_check(3) [of "sent_by acts" t True] seq_body_covers [of q seed] assms(2)
    by (simp add: base_test_seq_def random_test_build_def max_test_build_def create_seq_def set_seq_override_def sink_into_result_def)
qed

definition demo_power_up :: alu_bfm where
  "demo_power_up = \<lparr>bf_pins = \<lparr>pin_A = 1, pin_B = 2, pin_op = 7, pin_reset_n = True, pin_start = True\<rparr>,
     bf_dut = \<lparr>dut_single = \<lparr>sc_done = True, sc_result = 9\<rparr>, dut_mult = \<lparr>tc_a_int = 3, tc_b_int = 4, tc_mult1 = 5, tc_mult2 = 6,
       tc_done1 = True, tc_done2 = False, tc_done3 = True, tc_done = True, tc_result = 7\<rparr>\<rparr>,
     bf_driver_q = queue_unbounded, bf_cmd_q = queue_unbounded, bf_result_q = queue_unbounded, bf_prev_start = True\<rparr>"

lemma demo_powered: "power_up demo_power_up"
  by (simp add: power_up_def demo_power_up_def queue_defs)

definition demo_sends :: "tb_action list" where
  "demo_sends = [SendOp \<lparr>cmd_a = 200, cmd_b = 100, cmd_op = Mul\<rparr>, Period, SendOp \<lparr>cmd_a = 1, cmd_b = 2, cmd_op = Xor\<rparr>]"

theorem alu_bench_end_to_end_witness:
  "\<exists>t. wait_idle (\<lambda>_. False) (1, 2) 20 0 (fold (tb_act (1, 2)) demo_sends (tb_start demo_power_up)) = Some t \<and>
     map res_result (sb_results (tb_board t)) = [20000, 3]"
proof -
  have l: "6 * length (sent_by demo_sends) + 7 \<le> 20" by (simp add: demo_sends_def sent_by_def List.map_filter_simps)
  have "map res_result (map predict (sent_by demo_sends)) = [20000, 3]" by code_simp
  with alu_bench_end_to_end [OF demo_powered l, of "\<lambda>_. False" "(1, 2)" False] show ?thesis by auto
qed

theorem alu_tests_pass_witness:
  "\<exists>t. wait_idle (\<lambda>_. True) (1, 2) 500 0 (fold (tb_act (1, 2)) (map SendOp (seq_body RandomSeq 1)) (tb_start demo_power_up)) = Some t \<and>
     sink_into_result (tb_check True t) = None"
proof -
  have s: "sent_by (map SendOp cs) = cs" for cs by (induction cs) (simp_all add: sent_by_def List.map_filter_simps)
  have "6 * length (seq_body RandomSeq 1) + 7 \<le> 500" by (simp add: seq_body_length seq_rounds_def)
  from alu_tests_pass [OF demo_powered s this, of Map.empty "\<lambda>_. True" "(1, 2)"] show ?thesis by blast
qed
end
