(* ===== verification/Testing_Model.thy ===== *)
theory Testing_Model
  imports Executor_Model
begin

text \<open>
  Running a future in a unit test, with no simulator (\<open>rustdv-sim/src/testing.rs\<close>): \<open>block_on\<close> and
  \<open>assert_pending\<close> alternate polling the future with draining a fresh executor. The polled future
  is the parameter \<open>pr\<close>, the tasks it spawns behave by \<open>pf\<close>. The future is polled with a waker that
  does nothing; tasks are numbered from 1, so that is the waker of task 0. \<open>None\<close> means that a drain
  does not return.
\<close>

definition MAX_ROUNDS :: nat where "MAX_ROUNDS = 10000"

type_synonym ('g, 'r, 'f, 'v, 'w) root_behaviour =
  "'g \<Rightarrow> ('f, 'v, 'w) exec \<Rightarrow> 'w \<times> 'f action list \<times> ('g, 'r) outcome"

definition noop_waker :: waker where "noop_waker = 0"

definition root_poll :: "('g, 'r, 'f, 'v, 'w) root_behaviour \<Rightarrow> ('f, 'w) destructor \<Rightarrow> 'g \<Rightarrow> ('f, 'v, 'w) exec
    \<Rightarrow> ('f, 'v, 'w) exec \<times> ('g, 'r) outcome" where
  "root_poll pr dr g e = (case pr g e of (w, acts, out) \<Rightarrow> (fold (act dr noop_waker) acts (e\<lparr>ex_world := w\<rparr>), out))"

definition pending_message :: string where
  "pending_message = ''block_on: the future is still pending after 10000 rounds.''"

fun block_on_loop :: "('g, 'r, 'f, 'v, 'w) root_behaviour \<Rightarrow> ('f, 'v, 'w) behaviour \<Rightarrow> ('f, 'w) destructor \<Rightarrow> nat \<Rightarrow> 'g
    \<Rightarrow> ('f, 'v, 'w) exec \<Rightarrow> 'r may_panic option" where
  "block_on_loop pr pf dr 0 g e = Some (panics pending_message)"
| "block_on_loop pr pf dr (Suc n) g e =
     (case root_poll pr dr g e of
        (e1, FReady v) \<Rightarrow> Some (Inr v)
      | (e1, FPanic m) \<Rightarrow> Some (panics m)
      | (e1, FPending g') \<Rightarrow> (case run_until_idle pf dr e1 of None \<Rightarrow> None | Some e2 \<Rightarrow> block_on_loop pr pf dr n g' e2))"

definition block_on :: "('g, 'r, 'f, 'v, 'w) root_behaviour \<Rightarrow> ('f, 'v, 'w) behaviour \<Rightarrow> ('f, 'w) destructor \<Rightarrow> 'g \<Rightarrow> 'w \<Rightarrow> 'r may_panic option" where
  "block_on pr pf dr g w = block_on_loop pr pf dr MAX_ROUNDS g (exec_init w)"

fun assert_pending_loop :: "('g, 'r, 'f, 'v, 'w) root_behaviour \<Rightarrow> ('f, 'v, 'w) behaviour \<Rightarrow> ('f, 'w) destructor \<Rightarrow> nat \<Rightarrow> 'g
    \<Rightarrow> ('f, 'v, 'w) exec \<Rightarrow> unit may_panic option" where
  "assert_pending_loop pr pf dr 0 g e = Some (Inr ())"
| "assert_pending_loop pr pf dr (Suc n) g e =
     (case root_poll pr dr g e of
        (e1, FReady v) \<Rightarrow> Some (panics ''assert_pending: the future completed, but the test expected it to wait'')
      | (e1, FPanic m) \<Rightarrow> Some (panics m)
      | (e1, FPending g') \<Rightarrow> (case run_until_idle pf dr e1 of None \<Rightarrow> None | Some e2 \<Rightarrow> assert_pending_loop pr pf dr n g' e2))"

definition assert_pending :: "('g, 'r, 'f, 'v, 'w) root_behaviour \<Rightarrow> ('f, 'v, 'w) behaviour \<Rightarrow> ('f, 'w) destructor \<Rightarrow> 'g \<Rightarrow> 'w \<Rightarrow> unit may_panic option" where
  "assert_pending pr pf dr g w = assert_pending_loop pr pf dr 64 g (exec_init w)"

section \<open>Rounds\<close>

text \<open>What the future says in round \<open>n\<close>, if it is still asked then.\<close>

fun round_outcome :: "('g, 'r, 'f, 'v, 'w) root_behaviour \<Rightarrow> ('f, 'v, 'w) behaviour \<Rightarrow> ('f, 'w) destructor \<Rightarrow> nat \<Rightarrow> 'g
    \<Rightarrow> ('f, 'v, 'w) exec \<Rightarrow> ('g, 'r) outcome option" where
  "round_outcome pr pf dr 0 g e = Some (snd (root_poll pr dr g e))"
| "round_outcome pr pf dr (Suc n) g e =
     (case root_poll pr dr g e of
        (e1, FPending g') \<Rightarrow> (case run_until_idle pf dr e1 of None \<Rightarrow> None | Some e2 \<Rightarrow> round_outcome pr pf dr n g' e2)
      | _ \<Rightarrow> None)"

definition ready_at :: "('g, 'r) outcome option \<Rightarrow> bool" where
  "ready_at x \<longleftrightarrow> (\<exists>v. x = Some (FReady v))"

definition still_pending :: "('g, 'r) outcome option \<Rightarrow> bool" where
  "still_pending x \<longleftrightarrow> (\<exists>g. x = Some (FPending g))"

lemma running_fields [simp]:
  "ex_running (cancel dr i e) = ex_running e"
  "ex_running (complete i r e) = ex_running e"
  "ex_running (fst (handle_poll w i e)) = ex_running e"
  by (simp_all add: cancel_def on_abort_def complete_def set_state_cell_def remove_task_def handle_poll_def handle_result_def
      Let_def split: option.splits prod.splits)

lemma running_act [simp]: "ex_running (act dr self a e) = ex_running e"
  by (cases a) (simp_all add: wake_def spawn_named_def Let_def)

lemma running_acts [simp]: "ex_running (fold (act dr self) acts e) = ex_running e"
  by (induction acts arbitrary: e) simp_all

lemma acts_keep:
  "exec_inv e \<Longrightarrow> exec_inv (fold (act dr self) acts e)" "ex_polling (fold (act dr self) acts e) = ex_polling e"
  by (induction acts arbitrary: e) (simp_all add: exec_inv_act)

definition drainable :: "('f, 'v, 'w) exec \<Rightarrow> bool" where
  "drainable e \<longleftrightarrow> exec_inv e \<and> ex_polling e = None \<and> \<not> ex_running e"

lemma root_poll_drainable: "drainable e \<Longrightarrow> root_poll pr dr g e = (e1, out) \<Longrightarrow> drainable e1"
  by (auto simp: root_poll_def drainable_def acts_keep split: prod.splits)

lemma drain_returns:
  assumes "ranked rk pf" "drainable e"
  shows "\<exists>e'. run_until_idle pf dr e = Some e' \<and> drainable e'"
proof -
  have i: "exec_inv e" "ex_polling e = None" "\<not> ex_running e" using assms(2) by (simp_all add: drainable_def)
  obtain e1 where ret: "idle_loop pf dr (e\<lparr>ex_running := True\<rparr>) = Some e1"
    using idle_loop_returns [OF assms(1), of "e\<lparr>ex_running := True\<rparr>" dr] i by auto
  from idle_loop_quiescent [OF ret] i have "exec_inv e1" "ex_polling e1 = None" by simp_all
  with ret i show ?thesis by (auto simp: run_until_idle_def drainable_def)
qed

lemma block_on_rounds:
  assumes "ranked rk pf" "drainable e"
  shows "\<exists>r. block_on_loop pr pf dr n g e = Some r \<and>
    (\<forall>v. r = Inr v \<longleftrightarrow> (\<exists>k<n. round_outcome pr pf dr k g e = Some (FReady v))) \<and>
    ((\<forall>k<n. still_pending (round_outcome pr pf dr k g e)) \<longrightarrow> r = panics pending_message)"
  using assms(2)
proof (induction n arbitrary: g e)
  case (Suc n)
  obtain e1 out where p: "root_poll pr dr g e = (e1, out)" by (cases "root_poll pr dr g e")
  show ?case
  proof (cases out)
    case (FPending g')
    from drain_returns [OF assms(1) root_poll_drainable [OF Suc.prems p]] obtain e2
      where e2: "run_until_idle pf dr e1 = Some e2" "drainable e2" by blast
    from Suc.IH [OF e2(2), of g'] obtain r where r: "block_on_loop pr pf dr n g' e2 = Some r"
      "\<forall>v. r = Inr v \<longleftrightarrow> (\<exists>k<n. round_outcome pr pf dr k g' e2 = Some (FReady v))"
      "(\<forall>k<n. still_pending (round_outcome pr pf dr k g' e2)) \<longrightarrow> r = panics pending_message" by blast
    have "(\<exists>k<Suc n. round_outcome pr pf dr k g e = Some (FReady v)) \<longleftrightarrow> (\<exists>k<n. round_outcome pr pf dr k g' e2 = Some (FReady v))" for v
      unfolding Ex_less_Suc2 by (simp add: p FPending e2)
    moreover have "(\<forall>k<Suc n. still_pending (round_outcome pr pf dr k g e)) \<longleftrightarrow> (\<forall>k<n. still_pending (round_outcome pr pf dr k g' e2))"
      unfolding All_less_Suc2 by (simp add: p FPending e2 still_pending_def)
    ultimately show ?thesis using r by (simp add: p FPending e2)
  next
    case (FReady v)
    then show ?thesis unfolding Ex_less_Suc2 All_less_Suc2 by (auto simp: p still_pending_def)
  next
    case (FPanic m)
    then show ?thesis unfolding Ex_less_Suc2 All_less_Suc2 by (auto simp: p still_pending_def)
  qed
qed simp

lemma assert_pending_rounds:
  assumes "ranked rk pf" "drainable e"
  shows "\<exists>r. assert_pending_loop pr pf dr n g e = Some r \<and>
    (r = Inr () \<longleftrightarrow> (\<forall>k<n. still_pending (round_outcome pr pf dr k g e)))"
  using assms(2)
proof (induction n arbitrary: g e)
  case (Suc n)
  obtain e1 out where p: "root_poll pr dr g e = (e1, out)" by (cases "root_poll pr dr g e")
  show ?case
  proof (cases out)
    case (FPending g')
    from drain_returns [OF assms(1) root_poll_drainable [OF Suc.prems p]] obtain e2
      where e2: "run_until_idle pf dr e1 = Some e2" "drainable e2" by blast
    show ?thesis using Suc.IH [OF e2(2), of g'] unfolding All_less_Suc2 by (simp add: p FPending e2 still_pending_def)
  qed (unfold All_less_Suc2, auto simp: p still_pending_def)
qed simp

section \<open>Properties\<close>

text \<open>The unit-test harness decides: when the work of the spawned tasks is bounded, both functions
  return; block_on returns a value exactly when the future yields it in one of its rounds and
  panics with its message when the future waits through all of them, and assert_pending accepts
  exactly the futures that wait through the first 64 rounds, so a future it accepts never gave
  block_on a value in them.\<close>

theorem harness_decides:
  assumes "ranked rk pf"
  shows "(\<exists>r. block_on pr pf dr g w = Some r \<and>
      (\<forall>v. r = Inr v \<longleftrightarrow> (\<exists>k<MAX_ROUNDS. round_outcome pr pf dr k g (exec_init w) = Some (FReady v))) \<and>
      ((\<forall>k<MAX_ROUNDS. still_pending (round_outcome pr pf dr k g (exec_init w))) \<longrightarrow> r = panics pending_message)) \<and>
    (\<exists>r. assert_pending pr pf dr g w = Some r \<and> (r = Inr () \<longleftrightarrow> (\<forall>k<64. still_pending (round_outcome pr pf dr k g (exec_init w)))))"
proof -
  have "drainable (exec_init w)" by (simp add: drainable_def exec_inv_init) (simp add: exec_init_def)
  from block_on_rounds [OF assms this, of pr dr MAX_ROUNDS g] assert_pending_rounds [OF assms this, of pr dr 64 g] show ?thesis
    by (simp add: block_on_def assert_pending_def)
qed

text \<open>A future that spawns a task once, waits twice and then answers.\<close>

fun demo_root :: "(nat, nat, nat, nat, unit) root_behaviour" where
  "demo_root 0 e = ((), [], FReady 42)"
| "demo_root (Suc n) e = ((), [ASpawn 2 None], FPending n)"

theorem harness_decides_witness: "block_on demo_root countdown no_drop 0 () = Some (Inr 42)"
proof -
  obtain r where r: "block_on demo_root countdown no_drop 0 () = Some r"
    "\<forall>v. r = Inr v \<longleftrightarrow> (\<exists>k<MAX_ROUNDS. round_outcome demo_root countdown no_drop k 0 (exec_init ()) = Some (FReady v))"
    using harness_decides [OF ranked_countdown, of demo_root no_drop 0 "()"] by blast
  have "round_outcome demo_root countdown no_drop 0 0 (exec_init ()) = Some (FReady 42)" by (simp add: root_poll_def)
  moreover have "0 < MAX_ROUNDS" by (simp add: MAX_ROUNDS_def)
  ultimately have "r = Inr 42" using r(2) [rule_format, of 42] by blast
  with r(1) show ?thesis by simp
qed

end
