(* ===== verification/Trace_Model.thy ===== *)
theory Trace_Model
  imports Phase_Model Logic_Value
begin

text \<open>
  Runtime waveform capture (\<open>rustdv-sim/src/simulator_trace.rs\<close>). The trace host is a function the
  simulator may export; it is outside the repository, so it is a parameter: from the command, the
  path and its own state it returns its new state, the status record and the error buffer it has
  filled in, and a result code. Looking a symbol up in the process is the parameter \<open>lookup\<close>. The
  phase is \<open>None\<close> before the phase hub exists. Bytes of an error text are kept as they are; decoding
  ill-formed UTF-8 is not modelled.
\<close>

section \<open>Types\<close>

definition ABI_VERSION :: u32 where "ABI_VERSION = 1"
definition ERROR_CAPACITY :: nat where "ERROR_CAPACITY = 512"

datatype trace_command = CmdStatus | CmdStart | CmdStop | CmdFlush

fun command_code :: "trace_command \<Rightarrow> u32" where
  "command_code CmdStatus = 0" | "command_code CmdStart = 1" | "command_code CmdStop = 2" | "command_code CmdFlush = 3"

record raw_trace_status =
  rt_abi_version :: u32
  rt_capability :: u32
  rt_state :: u32
  rt_reserved :: u32
  rt_start :: u64
  rt_end :: u64
  rt_dumps :: u64

definition raw_default :: raw_trace_status where
  "raw_default = \<lparr>rt_abi_version = 0, rt_capability = 0, rt_state = 0, rt_reserved = 0, rt_start = 0, rt_end = 0, rt_dumps = 0\<rparr>"

datatype trace_format = Fst | OtherFormat u32

datatype trace_state = TraceUnavailable | TraceIdle | TraceActive

record trace_status =
  tr_state :: trace_state
  tr_start :: u64
  tr_end :: u64
  tr_dumps :: u64

datatype trace_error = Unavailable string | InvalidPath string | WrongState string | Host string

fun trace_error_display :: "trace_error \<Rightarrow> string" where
  "trace_error_display (Unavailable m) = m" | "trace_error_display (InvalidPath m) = m"
| "trace_error_display (WrongState m) = m" | "trace_error_display (Host m) = m"

type_synonym 'h trace_control = "u32 \<Rightarrow> string option \<Rightarrow> raw_trace_status \<Rightarrow> string \<Rightarrow> 'h \<Rightarrow> 'h \<times> raw_trace_status \<times> string \<times> int"
type_synonym 'h symbols = "string \<Rightarrow> 'h trace_control option"

section \<open>Finding the host\<close>

definition control_symbol :: string where "control_symbol = ''rustdv_simulator_trace_control''"
definition legacy_symbol :: string where "legacy_symbol = ''rustdv_verilator_trace_control''"

definition resolve_control :: "'h symbols \<Rightarrow> 'h trace_control option" where
  "resolve_control lookup = (case lookup control_symbol of Some f \<Rightarrow> Some f | None \<Rightarrow> lookup legacy_symbol)"

definition load_control :: "'h symbols \<Rightarrow> trace_error + 'h trace_control" where
  "load_control lookup =
     (case resolve_control lookup of
        Some f \<Rightarrow> Inr f
      | None \<Rightarrow> Inl (trace_error.Unavailable ''the current simulator host does not provide runtime waveform capture''))"

definition host_present :: "'h symbols \<Rightarrow> bool" where
  "host_present lookup = (case load_control lookup of Inr _ \<Rightarrow> True | Inl _ \<Rightarrow> False)"

definition host_format :: "u32 option \<Rightarrow> 'h symbols \<Rightarrow> trace_format option" where
  "host_format probe lookup =
     (case probe of
        Some n \<Rightarrow> Some (if n = 1 then Fst else OtherFormat n)
      | None \<Rightarrow> if lookup legacy_symbol \<noteq> None then Some Fst else None)"

section \<open>Calling it\<close>

definition error_message :: "string \<Rightarrow> string" where
  "error_message buf =
     (let message = takeWhile (\<lambda>c. c \<noteq> CHR 0x00) buf
      in if message = [] then ''simulator trace host returned an unspecified error'' else message)"

definition u32_string :: "u32 \<Rightarrow> string" where "u32_string w = dec_string (unat w)"

definition decode_status :: "raw_trace_status \<Rightarrow> trace_error + trace_status" where
  "decode_status raw =
     (if rt_abi_version raw \<noteq> ABI_VERSION
      then Inl (Host (''unsupported simulator trace ABI '' @ u32_string (rt_abi_version raw) @ '' (expected 1)''))
      else
        (let st = (if rt_capability raw = 0 then Some TraceUnavailable
             else if rt_capability raw = 1 \<and> rt_state raw = 0 then Some TraceIdle
             else if rt_capability raw = 1 \<and> rt_state raw = 1 then Some TraceActive
             else None)
         in case st of
              None \<Rightarrow> Inl (Host (''invalid simulator trace status capability='' @ u32_string (rt_capability raw) @
                '' state='' @ u32_string (rt_state raw)))
            | Some s \<Rightarrow> Inr \<lparr>tr_state = s, tr_start = rt_start raw, tr_end = rt_end raw, tr_dumps = rt_dumps raw\<rparr>))"

definition trace_control :: "'h symbols \<Rightarrow> sim_phase option \<Rightarrow> trace_command \<Rightarrow> string option \<Rightarrow> 'h \<Rightarrow> 'h \<times> (trace_error + trace_status)" where
  "trace_control lookup phase command path h =
     (case load_control lookup of
        Inl e \<Rightarrow> (h, Inl e)
      | Inr f \<Rightarrow>
          if phase \<noteq> Some ReadOnly
          then (h, Inl (WrongState ''simulator trace control must run on the simulator thread at settled ReadOnly''))
          else
            (let (h', raw, buf, result) = f (command_code command) path raw_default (replicate ERROR_CAPACITY (CHR 0x00)) h;
                 message = error_message buf
             in (h', if result = 0 then decode_status raw
                     else if result = 1 then Inl (Unavailable message)
                     else if result = 3 then Inl (InvalidPath message)
                     else if result = 4 then Inl (WrongState message)
                     else Inl (Host message))))"

definition path_to_c_string :: "string \<Rightarrow> trace_error + string" where
  "path_to_c_string path =
     (if CHR 0x00 \<in> set path then Inl (InvalidPath ''trace path contains an interior NUL byte'') else Inr path)"

definition trace_status_cmd :: "'h symbols \<Rightarrow> sim_phase option \<Rightarrow> 'h \<Rightarrow> 'h \<times> (trace_error + trace_status)" where
  "trace_status_cmd lookup phase h = trace_control lookup phase CmdStatus None h"

definition trace_start :: "'h symbols \<Rightarrow> sim_phase option \<Rightarrow> string \<Rightarrow> 'h \<Rightarrow> 'h \<times> (trace_error + trace_status)" where
  "trace_start lookup phase path h =
     (case path_to_c_string path of Inl e \<Rightarrow> (h, Inl e) | Inr p \<Rightarrow> trace_control lookup phase CmdStart (Some p) h)"

definition trace_flush :: "'h symbols \<Rightarrow> sim_phase option \<Rightarrow> 'h \<Rightarrow> 'h \<times> (trace_error + trace_status)" where
  "trace_flush lookup phase h = trace_control lookup phase CmdFlush None h"

definition trace_stop :: "'h symbols \<Rightarrow> sim_phase option \<Rightarrow> 'h \<Rightarrow> 'h \<times> (trace_error + trace_status)" where
  "trace_stop lookup phase h = trace_control lookup phase CmdStop None h"

section \<open>Properties\<close>

lemma error_message_nonempty: "error_message buf \<noteq> [] \<and> CHR 0x00 \<notin> set (error_message buf)"
  by (auto simp: error_message_def Let_def dest: set_takeWhileD)

lemma decode_status_ok:
  "decode_status raw = Inr st \<longleftrightarrow> rt_abi_version raw = ABI_VERSION \<and> tr_start st = rt_start raw \<and> tr_end st = rt_end raw \<and>
     tr_dumps st = rt_dumps raw \<and>
     (case tr_state st of TraceUnavailable \<Rightarrow> rt_capability raw = 0
      | TraceIdle \<Rightarrow> rt_capability raw = 1 \<and> rt_state raw = 0 | TraceActive \<Rightarrow> rt_capability raw = 1 \<and> rt_state raw = 1)"
  by (cases st) (auto simp: decode_status_def Let_def split: trace_state.splits)

text \<open>The trace host is only ever called at a settled ReadOnly point: in any other phase, before the
  simulation, without a host, or with a path that a C string cannot hold, starting a capture
  changes nothing and returns the error that says which; in ReadOnly with a host, the new or the
  legacy one, it is called once with the start command and the path, and success is reported only
  for result code 0 and a status record of the known version and a known state.\<close>

theorem trace_start_guarded:
  "fst (trace_start lookup phase path h) =
     (if CHR 0x00 \<in> set path \<or> phase \<noteq> Some ReadOnly then h
      else case resolve_control lookup of None \<Rightarrow> h
        | Some f \<Rightarrow> fst (f 1 (Some path) raw_default (replicate 512 (CHR 0x00)) h)) \<and>
   (\<forall>st. snd (trace_start lookup phase path h) = Inr st \<longleftrightarrow>
      CHR 0x00 \<notin> set path \<and> phase = Some ReadOnly \<and>
      (\<exists>f raw. resolve_control lookup = Some f \<and>
         (\<exists>buf. snd (f 1 (Some path) raw_default (replicate 512 (CHR 0x00)) h) = (raw, buf, 0)) \<and> decode_status raw = Inr st)) \<and>
   (if CHR 0x00 \<in> set path then \<exists>m. snd (trace_start lookup phase path h) = Inl (InvalidPath m)
    else if resolve_control lookup = None then \<exists>m. snd (trace_start lookup phase path h) = Inl (trace_error.Unavailable m)
    else phase \<noteq> Some ReadOnly \<longrightarrow> (\<exists>m. snd (trace_start lookup phase path h) = Inl (WrongState m)))"
proof (cases "CHR 0x00 \<in> set path")
  case True
  then show ?thesis by (simp add: trace_start_def path_to_c_string_def)
next
  case False
  then have s: "trace_start lookup phase path h = trace_control lookup phase CmdStart (Some path) h"
    by (simp add: trace_start_def path_to_c_string_def)
  show ?thesis
  proof (cases "resolve_control lookup")
    case None
    then show ?thesis using False by (simp add: s trace_control_def load_control_def)
  next
    case (Some f)
    obtain h' raw buf r where c: "f 1 (Some path) raw_default (replicate 512 (CHR 0x00)) h = (h', raw, buf, r)"
      by (cases "f 1 (Some path) raw_default (replicate 512 (CHR 0x00)) h")
    show ?thesis using False Some by (auto simp: s trace_control_def load_control_def ERROR_CAPACITY_def c Let_def split: if_splits)
  qed
qed

end
