(* ===== verification/Macro_Model.thy ===== *)
theory Macro_Model
  imports Runner_Model Component_Model
begin

text \<open>
  The two procedural macros (\<open>rustdv-macros/src/rustdv_macros.rs\<close>). The test attribute turns its
  options and the item below it into a registration; the component derive turns a struct into the
  child visitors and the port table of \<open>Component_Model\<close>. Rust syntax is parsed by a library
  outside the repository, so the input is what that library hands over: the option tokens with
  the expression after an equals sign already read, and the fields of a struct with their
  attributes. A compile error is its message.
\<close>

section \<open>Options of the test attribute\<close>

datatype lit = LitStr string | LitInt nat | LitBool bool | LitOther

datatype expr = ELit lit | EOther

datatype token = TIdent string | TEq | TExpr expr | TComma

record test_opts =
  to_name :: "string option"
  to_timeout_time :: "u64 option"
  to_timeout_unit :: "string option"
  to_skip :: bool
  to_expect_fail :: bool
  to_expect_error :: "string option"

definition opts_default :: test_opts where
  "opts_default = \<lparr>to_name = None, to_timeout_time = None, to_timeout_unit = None, to_skip = False, to_expect_fail = False,
     to_expect_error = None\<rparr>"

definition literal :: "string \<Rightarrow> expr option \<Rightarrow> string + lit" where
  "literal key v =
     (case v of
        Some (ELit l) \<Rightarrow> Inr l
      | Some EOther \<Rightarrow> Inl (key @ '' requires a literal value'')
      | None \<Rightarrow> Inl (key @ '' requires a value''))"

definition string_value :: "string \<Rightarrow> expr option \<Rightarrow> string + string" where
  "string_value key v =
     (case literal key v of
        Inl e \<Rightarrow> Inl e
      | Inr (LitStr s) \<Rightarrow> Inr s
      | Inr _ \<Rightarrow> Inl (key @ '' requires a string literal''))"

definition integer_value :: "string \<Rightarrow> expr option \<Rightarrow> string + u64" where
  "integer_value key v =
     (case literal key v of
        Inl e \<Rightarrow> Inl e
      | Inr (LitInt n) \<Rightarrow> if n < 2 ^ 64 then Inr (of_nat n) else Inl ''number too large to fit in target type''
      | Inr _ \<Rightarrow> Inl (key @ '' requires an integer literal''))"

definition flag_value :: "string \<Rightarrow> expr option \<Rightarrow> string + bool" where
  "flag_value key v =
     (case v of
        None \<Rightarrow> Inr True
      | Some x \<Rightarrow>
          (case literal key (Some x) of
             Inl e \<Rightarrow> Inl e
           | Inr (LitBool b) \<Rightarrow> Inr b
           | Inr _ \<Rightarrow> Inl (key @ '' requires true or false'')))"

definition set_test_option :: "string \<Rightarrow> expr option \<Rightarrow> test_opts \<Rightarrow> string + test_opts" where
  "set_test_option key v opts =
     (if key = ''name'' then map_sum id (\<lambda>x. opts\<lparr>to_name := Some x\<rparr>) (string_value key v)
      else if key = ''timeout_time'' then map_sum id (\<lambda>x. opts\<lparr>to_timeout_time := Some x\<rparr>) (integer_value key v)
      else if key = ''timeout_unit'' then map_sum id (\<lambda>x. opts\<lparr>to_timeout_unit := Some x\<rparr>) (string_value key v)
      else if key = ''skip'' then map_sum id (\<lambda>x. opts\<lparr>to_skip := x\<rparr>) (flag_value key v)
      else if key = ''expect_fail'' then map_sum id (\<lambda>x. opts\<lparr>to_expect_fail := x\<rparr>) (flag_value key v)
      else if key = ''expect_error'' then map_sum id (\<lambda>x. opts\<lparr>to_expect_error := Some x\<rparr>) (string_value key v)
      else Inl ''unknown #[rustdv::test] option'')"

text \<open>An option is an identifier with an optional value; options are separated by commas, and a trailing
  comma is allowed. What the parsing library says about a token it did not expect is \<open>bad\<close>.\<close>

definition take_value :: "string \<Rightarrow> token list \<Rightarrow> string + (expr option \<times> token list)" where
  "take_value bad ts =
     (case ts of
        TEq # TExpr x # rest \<Rightarrow> Inr (Some x, rest)
      | TEq # _ \<Rightarrow> Inl bad
      | _ \<Rightarrow> Inr (None, ts))"

lemma take_value_length: "take_value bad ts = Inr (v, rest) \<Longrightarrow> length rest \<le> length ts"
  by (auto simp: take_value_def split: list.splits token.splits)

function parse_opts :: "string \<Rightarrow> token list \<Rightarrow> test_opts \<Rightarrow> string + test_opts" where
  "parse_opts bad ts opts =
     (case ts of
        [] \<Rightarrow> Inr opts
      | TIdent key # ts1 \<Rightarrow>
          (case take_value bad ts1 of
             Inl e \<Rightarrow> Inl e
           | Inr (v, ts2) \<Rightarrow>
               (case set_test_option key v opts of
                  Inl e \<Rightarrow> Inl e
                | Inr opts' \<Rightarrow>
                    (case ts2 of [] \<Rightarrow> Inr opts' | TComma # ts3 \<Rightarrow> parse_opts bad ts3 opts' | _ \<Rightarrow> Inl bad)))
      | _ \<Rightarrow> Inl bad)"
  by pat_completeness auto

termination by (relation "measure (\<lambda>(bad, ts, opts). length ts)") (auto dest: take_value_length)

declare parse_opts.simps [simp del]

definition parse_test_opts :: "string \<Rightarrow> token list \<Rightarrow> string + test_opts" where
  "parse_test_opts bad ts = parse_opts bad ts opts_default"

section \<open>Expansion of the test attribute\<close>

datatype test_form = Function | Component

datatype item = ItemFn string | ItemStruct string | ItemType string | ItemOther

definition item_form :: "item \<Rightarrow> string + (test_form \<times> string)" where
  "item_form it =
     (case it of
        ItemFn n \<Rightarrow> Inr (Function, n)
      | ItemStruct n \<Rightarrow> Inr (Component, n)
      | ItemType n \<Rightarrow> Inr (Component, n)
      | ItemOther \<Rightarrow> Inl ''#[rustdv::test] must be applied to an async fn, a struct, or a type alias'')"

definition expand_test :: "string \<Rightarrow> string \<Rightarrow> string \<Rightarrow> nat \<Rightarrow> token list \<Rightarrow> item \<Rightarrow> string + (test_form \<times> test_reg)" where
  "expand_test bad modul file line ats it =
     (case parse_test_opts bad ats of
        Inl e \<Rightarrow> Inl e
      | Inr opts \<Rightarrow>
          (case item_form it of
             Inl e \<Rightarrow> Inl e
           | Inr (form, item_name) \<Rightarrow>
               Inr (form, \<lparr>tr_name = (case to_name opts of Some n \<Rightarrow> n | None \<Rightarrow> item_name), tr_module = modul, tr_file = file, tr_line = line,
                 tr_timeout = map_option (\<lambda>t. (t, case to_timeout_unit opts of Some u \<Rightarrow> u | None \<Rightarrow> ''ns'')) (to_timeout_time opts),
                 tr_skip = to_skip opts, tr_expect_fail = to_expect_fail opts, tr_expect_error = to_expect_error opts\<rparr>)))"

section \<open>The component derive\<close>

datatype child_kind = KRustdvComp | KOption | KVec | KPlain

text \<open>A field: its name, the last segment of the path of its type if it is a plain path, whether it is marked
  as a component, and the arguments of its port attributes.\<close>

record struct_field =
  sf_name :: string
  sf_type :: "string option"
  sf_component :: bool
  sf_ports :: "(string + string) list"

datatype struct_data = NamedFields "struct_field list" | UnitStruct | TupleStruct | NotAStruct

record field_info =
  fi_name :: string
  fi_child :: "child_kind option"
  fi_port :: "string option"

definition child_kind_of :: "string option \<Rightarrow> child_kind" where
  "child_kind_of ty =
     (if ty = Some ''RustdvComp'' then KRustdvComp else if ty = Some ''Option'' then KOption
      else if ty = Some ''Vec'' then KVec else KPlain)"

definition port_attr :: "struct_field \<Rightarrow> string + string option" where
  "port_attr f =
     (case sf_ports f of
        [] \<Rightarrow> Inr None
      | [a] \<Rightarrow> map_sum id Some a
      | _ # _ # _ \<Rightarrow> Inl ''a field may have only one #[port(...)] attribute'')"

definition field_info_of :: "struct_field \<Rightarrow> string + field_info" where
  "field_info_of f =
     (case port_attr f of
        Inl e \<Rightarrow> Inl e
      | Inr port \<Rightarrow>
          if sf_component f \<and> port \<noteq> None then Inl ''a field cannot be both #[component] and #[port(...)]''
          else Inr \<lparr>fi_name = sf_name f, fi_child = (if sf_component f then Some (child_kind_of (sf_type f)) else None), fi_port = port\<rparr>)"

text \<open>Collecting results stops at the first error.\<close>

fun collect :: "('e + 'a) list \<Rightarrow> 'e + 'a list" where
  "collect [] = Inr []"
| "collect (Inl e # xs) = Inl e"
| "collect (Inr x # xs) = map_sum id (Cons x) (collect xs)"

definition struct_fields :: "struct_data \<Rightarrow> string + field_info list" where
  "struct_fields d =
     (case d of
        NamedFields fs \<Rightarrow> collect (map field_info_of fs)
      | UnitStruct \<Rightarrow> Inr []
      | TupleStruct \<Rightarrow> Inl ''#[derive(Component)] requires named fields, or a unit struct''
      | NotAStruct \<Rightarrow> Inl ''#[derive(Component)] supports only structs'')"

definition port_kinds :: "string list" where
  "port_kinds = [''put'', ''get'', ''peek'', ''publish'', ''subscribe'', ''seq_item'']"

definition port_item :: "string \<Rightarrow> string \<Rightarrow> string + (bool \<Rightarrow> port_info)" where
  "port_item name kind =
     (if kind \<notin> set port_kinds then Inl ''expected put, get, peek, publish, subscribe, or seq_item''
      else Inr (\<lambda>connected. \<lparr>pi_name = name, pi_kind = kind, pi_required = (kind \<noteq> ''publish'' \<and> kind \<noteq> ''subscribe''), pi_connected = connected\<rparr>))"

text \<open>What the expansion is made of: the child fields to visit, in order, and the port table.\<close>

definition derive_component :: "struct_data \<Rightarrow> string + ((string \<times> child_kind) list \<times> (bool \<Rightarrow> port_info) list)" where
  "derive_component d =
     (case struct_fields d of
        Inl e \<Rightarrow> Inl e
      | Inr fs \<Rightarrow>
          map_sum id (\<lambda>ports. (List.map_filter (\<lambda>f. map_option (Pair (fi_name f)) (fi_child f)) fs, ports))
            (collect (List.map_filter (\<lambda>f. map_option (port_item (fi_name f)) (fi_port f)) fs)))"

section \<open>The options as written\<close>

type_synonym written_option = "string \<times> expr option"

fun option_tokens :: "written_option \<Rightarrow> token list" where
  "option_tokens (key, None) = [TIdent key]"
| "option_tokens (key, Some x) = [TIdent key, TEq, TExpr x]"

fun attribute_tokens :: "bool \<Rightarrow> written_option list \<Rightarrow> token list" where
  "attribute_tokens trailing [] = []"
| "attribute_tokens trailing [g] = option_tokens g @ (if trailing then [TComma] else [])"
| "attribute_tokens trailing (g # g' # gs) = option_tokens g @ TComma # attribute_tokens trailing (g' # gs)"

fun apply_options :: "written_option list \<Rightarrow> test_opts \<Rightarrow> string + test_opts" where
  "apply_options [] opts = Inr opts"
| "apply_options ((key, v) # gs) opts = (case set_test_option key v opts of Inl e \<Rightarrow> Inl e | Inr opts' \<Rightarrow> apply_options gs opts')"

lemma take_value_tokens:
  "take_value bad (drop 1 (option_tokens (key, v)) @ rest) = (if v = None \<and> (\<exists>ts. rest = TEq # ts) then take_value bad rest else Inr (v, rest))"
  by (cases v) (auto simp: take_value_def split: list.splits token.splits)

lemma parse_option:
  assumes "rest = [] \<or> (\<exists>ts. rest = TComma # ts)"
  shows "parse_opts bad (option_tokens (key, v) @ rest) opts =
    (case set_test_option key v opts of Inl e \<Rightarrow> Inl e
     | Inr opts' \<Rightarrow> (case rest of [] \<Rightarrow> Inr opts' | TComma # ts \<Rightarrow> parse_opts bad ts opts' | _ \<Rightarrow> Inl bad))"
proof -
  obtain ts1 where t: "option_tokens (key, v) @ rest = TIdent key # ts1" "ts1 = drop 1 (option_tokens (key, v)) @ rest"
    by (cases v) auto
  have "take_value bad ts1 = Inr (v, rest)" using take_value_tokens [of bad key v rest] assms t(2) by auto
  then show ?thesis unfolding t(1) by (subst parse_opts.simps) (auto split: sum.splits)
qed

lemma parse_attribute: "parse_opts bad (attribute_tokens trailing gs) opts = apply_options gs opts"
proof (induction trailing gs arbitrary: opts rule: attribute_tokens.induct)
  case (1 trailing)
  then show ?case by (simp add: parse_opts.simps)
next
  case (2 trailing g)
  have e: "parse_opts bad [] o' = Inr o'" for o' by (simp add: parse_opts.simps)
  obtain key v where g: "g = (key, v)" by (cases g)
  have "parse_opts bad (attribute_tokens trailing [g]) opts =
    (case set_test_option key v opts of Inl e \<Rightarrow> Inl e | Inr opts' \<Rightarrow> Inr opts')"
    using parse_option [of "if trailing then [TComma] else []" bad key v opts] by (cases trailing) (auto simp: g e split: sum.splits)
  then show ?case by (simp add: g split: sum.split)
next
  case (3 trailing g g' gs)
  obtain key v where g: "g = (key, v)" by (cases g)
  show ?case
    using parse_option [of "TComma # attribute_tokens trailing (g' # gs)" bad key v opts] 3
    by (auto simp: g split: sum.splits)
qed

definition write_opts :: "test_opts \<Rightarrow> written_option list" where
  "write_opts opts =
     (case to_name opts of None \<Rightarrow> [] | Some n \<Rightarrow> [(''name'', Some (ELit (LitStr n)))]) @
     (case to_timeout_time opts of None \<Rightarrow> [] | Some t \<Rightarrow> [(''timeout_time'', Some (ELit (LitInt (unat t))))]) @
     (case to_timeout_unit opts of None \<Rightarrow> [] | Some u \<Rightarrow> [(''timeout_unit'', Some (ELit (LitStr u)))]) @
     (if to_skip opts then [(''skip'', None)] else []) @
     (if to_expect_fail opts then [(''expect_fail'', None)] else []) @
     (case to_expect_error opts of None \<Rightarrow> [] | Some e \<Rightarrow> [(''expect_error'', Some (ELit (LitStr e)))])"

lemma apply_append:
  "apply_options (gs @ hs) opts = (case apply_options gs opts of Inl e \<Rightarrow> Inl e | Inr opts' \<Rightarrow> apply_options hs opts')"
  by (induction gs opts rule: apply_options.induct) (auto split: sum.splits)

lemma apply_write_opts: "apply_options (write_opts opts) opts_default = Inr opts"
proof -
  have u: "unat t < 18446744073709551616" for t :: u64 using unsigned_less [of t, where ?'a = nat] by simp
  show ?thesis
    by (cases opts; cases "to_name opts"; cases "to_timeout_time opts"; cases "to_timeout_unit opts"; cases "to_expect_error opts")
      (simp_all add: write_opts_def apply_append set_test_option_def string_value_def integer_value_def flag_value_def literal_def opts_default_def u)
qed

section \<open>Which structs derive\<close>

lemma collect_ok: "collect xs = Inr ys \<longleftrightarrow> xs = map Inr ys"
proof (induction xs arbitrary: ys)
  case (Cons x xs)
  show ?case
  proof (cases x)
    case (Inr y)
    show ?thesis
    proof (cases "collect xs")
      case (Inl e)
      then have "xs \<noteq> map Inr zs" for zs using Cons.IH [of zs] by auto
      then show ?thesis using Inl Inr by (cases ys) auto
    next
      case (Inr zs)
      with Cons.IH [of zs] \<open>x = Inr y\<close> show ?thesis by (cases ys) auto
    qed
  qed (cases ys; simp)
qed auto

definition field_ok :: "struct_field \<Rightarrow> bool" where
  "field_ok f \<longleftrightarrow> (case sf_ports f of [] \<Rightarrow> True | [Inr kind] \<Rightarrow> \<not> sf_component f \<and> kind \<in> set port_kinds | _ \<Rightarrow> False)"

definition field_port :: "struct_field \<Rightarrow> (bool \<Rightarrow> port_info) list" where
  "field_port f = (case sf_ports f of
       [Inr kind] \<Rightarrow> [\<lambda>c. \<lparr>pi_name = sf_name f, pi_kind = kind, pi_required = (kind \<noteq> ''publish'' \<and> kind \<noteq> ''subscribe''), pi_connected = c\<rparr>]
     | _ \<Rightarrow> [])"

definition field_child :: "struct_field \<Rightarrow> (string \<times> child_kind) list" where
  "field_child f = (if sf_component f then [(sf_name f, child_kind_of (sf_type f))] else [])"

lemma derive_shape:
  assumes "list_all field_ok fs"
  shows "derive_component (NamedFields fs) = Inr (concat (map field_child fs), concat (map field_port fs))"
proof -
  define fi where "fi f = \<lparr>fi_name = sf_name f, fi_child = (if sf_component f then Some (child_kind_of (sf_type f)) else None),
    fi_port = (case sf_ports f of [Inr k] \<Rightarrow> Some k | _ \<Rightarrow> None)\<rparr>" for f :: struct_field
  have i: "field_ok f \<Longrightarrow> field_info_of f = Inr (fi f)" for f
    by (auto simp: field_ok_def field_info_of_def port_attr_def fi_def split: list.splits sum.splits)
  have "map field_info_of fs = map Inr (map fi fs)" using assms by (auto simp: list_all_iff i)
  then have sf: "struct_fields (NamedFields fs) = Inr (map fi fs)" by (simp add: struct_fields_def collect_ok)
  have c: "List.map_filter (\<lambda>f. map_option (Pair (fi_name f)) (fi_child f)) (map fi fs) = concat (map field_child fs)"
    by (induction fs) (auto simp: List.map_filter_simps fi_def field_child_def)
  have "List.map_filter (\<lambda>f. map_option (port_item (fi_name f)) (fi_port f)) (map fi fs) = map Inr (concat (map field_port fs))"
    using assms by (induction fs) (auto simp: List.map_filter_simps fi_def field_port_def field_ok_def port_item_def split: list.splits sum.splits)
  then have "collect (List.map_filter (\<lambda>f. map_option (port_item (fi_name f)) (fi_port f)) (map fi fs)) = Inr (concat (map field_port fs))"
    by (simp add: collect_ok)
  then show ?thesis by (simp add: derive_component_def sf c)
qed

lemma port_item_kind: "port_item name kind = Inr x \<Longrightarrow> kind \<in> set port_kinds"
  by (simp add: port_item_def split: if_splits)

lemma derive_rejects:
  assumes "derive_component (NamedFields fs) = Inr r"
  shows "list_all field_ok fs"
proof -
  obtain infos where i: "map field_info_of fs = map Inr infos"
    using assms by (auto simp: derive_component_def struct_fields_def collect_ok split: sum.splits)
  obtain ports where p: "List.map_filter (\<lambda>f. map_option (port_item (fi_name f)) (fi_port f)) infos = map Inr ports"
    using assms i by (auto simp: derive_component_def struct_fields_def collect_ok map_sum_def split: sum.splits)
  show ?thesis using i p
  proof (induction fs arbitrary: infos ports)
    case (Cons f fs)
    then obtain info infos' where infos: "infos = info # infos'" "field_info_of f = Inr info" "map field_info_of fs = map Inr infos'"
      by (cases infos) auto
    obtain ports' where p': "List.map_filter (\<lambda>f. map_option (port_item (fi_name f)) (fi_port f)) infos' = map Inr ports'"
      and k: "\<And>kind. fi_port info = Some kind \<Longrightarrow> kind \<in> set port_kinds"
      using Cons.prems(2) infos(1) by (cases "fi_port info") (auto simp: List.map_filter_simps Cons_eq_map_conv dest: port_item_kind)
    have "field_ok f" using infos(2) k
      by (auto simp: field_info_of_def port_attr_def field_ok_def split: list.splits sum.splits if_splits)
    with Cons.IH [OF infos(3) p'] show ?case by simp
  qed simp
qed

section \<open>Properties\<close>

text \<open>C40: The test attribute means what it says: any options, written out in the attribute in any spelling
  the grammar allows (trailing comma or not), on a function, become exactly that registration, with the
  name of the function and nanoseconds as the defaults; and in general an attribute is its options
  applied left to right, so a later one wins and the first bad one is the compile error.\<close>

theorem test_attribute_round_trip:
  "expand_test bad modul file line (attribute_tokens trailing (write_opts opts)) (ItemFn n) =
     Inr (Function, \<lparr>tr_name = (case to_name opts of Some x \<Rightarrow> x | None \<Rightarrow> n), tr_module = modul, tr_file = file, tr_line = line,
       tr_timeout = map_option (\<lambda>t. (t, case to_timeout_unit opts of Some u \<Rightarrow> u | None \<Rightarrow> ''ns'')) (to_timeout_time opts),
       tr_skip = to_skip opts, tr_expect_fail = to_expect_fail opts, tr_expect_error = to_expect_error opts\<rparr>) \<and>
   parse_test_opts bad (attribute_tokens trailing gs) = apply_options gs opts_default"
  by (simp add: expand_test_def parse_test_opts_def parse_attribute apply_write_opts item_form_def)

text \<open>The component derive accepts a struct with named fields exactly when every field has at most one
  port attribute, of one of the six kinds and not on a component field; then the children are the
  component fields in declaration order, each walked by the kind of its type, and the port table
  is the port fields in order, required unless they publish or subscribe.\<close>

theorem derive_component_exact:
  "derive_component (NamedFields fs) = Inr r \<longleftrightarrow>
     list_all field_ok fs \<and> r = (concat (map field_child fs), concat (map field_port fs))"
  using derive_shape [of fs] derive_rejects [of fs r] by auto

end
