(* ===== verification/Error_Model.thy ===== *)
theory Error_Model
  imports Runner_Model Seq_Slot
begin

text \<open>
  The conversions into the error a test returns (\<open>rustdv-methodology/src/error.rs\<close>), which the question
  mark operator applies in test bodies: every error keeps its text, and a configuration error also
  keeps its machine-readable cause.
\<close>

section \<open>Conversions\<close>

definition dq :: char where "dq = CHR 0x22"

fun config_error_display :: "config_error \<Rightarrow> string" where
  "config_error_display (config_error.NotFound path field) =
     ''ConfigDb: no value for '' @ dq # field @ dq # '' at '' @ dq # path @ dq #
     '' (never set, path does not match, or the key is misspelled)''"
| "config_error_display (config_error.TypeMismatch path field stored requested) =
     ''ConfigDb: '' @ dq # field @ dq # '' at '' @ dq # path @ dq # '' holds a '' @ stored @ '', but a '' @ requested @ '' was requested''"

definition from_str_error :: "string \<Rightarrow> test_error" where
  "from_str_error s = test_error_new s"

definition from_handle_error :: "handle_error \<Rightarrow> test_error" where
  "from_handle_error e = test_error_new (handle_error_display e)"

definition from_value_error :: "value_error \<Rightarrow> test_error" where
  "from_value_error e = test_error_new (value_error_display e)"

definition from_seq_error :: "seq_error \<Rightarrow> test_error" where
  "from_seq_error e = test_error_new (seq_error_display e)"

definition from_task_error :: "task_error \<Rightarrow> test_error" where
  "from_task_error e = test_error_new (task_error_display e)"

definition from_config_error :: "config_error \<Rightarrow> test_error" where
  "from_config_error e = test_error_with_kind (config_error_display e) (config_error_kind e)"

text \<open>The question mark after a read of the configuration database.\<close>

definition question_config :: "config_error + 'v \<Rightarrow> test_error + 'v" where
  "question_config r = map_sum from_config_error id r"

section \<open>Properties\<close>

lemma from_config_kind: "ter_kind (from_config_error e) = Some (config_error_kind e)"
  by (simp add: from_config_error_def test_error_with_kind_def)

lemma unclassified:
  "ter_kind (from_str_error s) = None" "ter_kind (from_handle_error h) = None" "ter_kind (from_value_error v) = None"
  "ter_kind (from_seq_error q) = None" "ter_kind (from_task_error t) = None"
  by (simp_all add: from_str_error_def from_handle_error_def from_value_error_def from_seq_error_def from_task_error_def test_error_new_def)

lemma config_get_cleared: "fst (config_get (config_clear db) T ctx offset field) = Inl (config_error.NotFound (resolve ctx offset) field)"
  by (simp add: config_get_def config_clear_def config_find_def candidates_def List.map_filter_simps Let_def)

lemma question_expected:
  "expectation (Some k) ef (case question_config r of Inl e \<Rightarrow> Fail (ter_msg e) (ter_kind e) | Inr _ \<Rightarrow> Pass) = Pass \<longleftrightarrow>
     (\<exists>e. r = Inl e \<and> config_error_kind e = k)"
  by (cases r) (simp_all add: question_config_def expectation_def from_config_kind fail_def)

end
