(* ===== verification/Run_Phase.thy ===== *)
theory Run_Phase
  imports Component_Model Trigger_Model Objection_Model "HOL-Library.Multiset"
begin

text \<open>
  The run phase of \<open>rustdv-methodology/src/component.rs\<close> as the state machine its futures are: \<open>run_all\<close>
  with its two joins and \<open>run_one\<close>, the race of a component's body against the objection consensus.
  What a body does in one poll is user code, a parameter that may read and change the world all
  bodies share. \<open>Component_Model\<close> has the phase by its outcome; here every interleaving is shown to
  come to such an outcome, every body to get its turn, and the consensus to end the phase. A body is taken
  to work on the component's own fields and on the shared world; it is borrowed the whole struct, with the
  children that were not moved out, and is assumed to leave those as their own runs left them.
\<close>

section \<open>Bodies\<close>

text \<open>A body in progress is a \<open>'b\<close> that holds the component's fields; the wait for the consensus a \<open>'g\<close>.\<close>

record ('u, 'b, 'g, 'w) run_env =
  re_begin :: "rustdv_path \<Rightarrow> 'u \<Rightarrow> 'b"
  re_poll :: "rustdv_path \<Rightarrow> ('b, 'w, test_error option) poller"
  re_user :: "'b \<Rightarrow> 'u"
  re_wait :: 'g
  re_drained :: "('g, 'w, unit) poller"

definition set_user :: "'u node \<Rightarrow> 'u \<Rightarrow> 'u node" where
  "set_user n u = Node (nd_name n) u (nd_ports n) (nd_fields n)"

section \<open>Futures\<close>

type_synonym 'u run_result = "'u node \<times> test_error option"

datatype ('u, 'b, 'g) run_fut =
    Rf_start rustdv_path "'u node"
  | Rf_kept rustdv_path "'u node" "(string \<times> 'u node) list" "('u, 'b, 'g) run_fut option list" "'u run_result option list"
  | Rf_taken "string list" "('u, 'b, 'g) run_fut option list" "'u run_result option list"
  | Rf_own rustdv_path "'u node" 'b 'g

type_synonym ('u, 'b, 'g, 'w) run_poller = "(('u, 'b, 'g) run_fut, 'w, 'u run_result) poller"

definition own_start :: "('u, 'b, 'g, 'w) run_env \<Rightarrow> rustdv_path \<Rightarrow> 'u node \<Rightarrow> ('u, 'b, 'g) run_fut" where
  "own_start E p n = Rf_own p n (re_begin E p (nd_user n)) (re_wait E)"

text \<open>\<open>run_one\<close>: a body that loses the race is dropped, and that is no failure.\<close>

definition own_poll :: "('u, 'b, 'g, 'w) run_env \<Rightarrow> rustdv_path \<Rightarrow> 'u node \<Rightarrow> 'b \<Rightarrow> 'g \<Rightarrow> waker \<Rightarrow> 'w
    \<Rightarrow> ('u, 'b, 'g) run_fut \<times> 'w \<times> 'u run_result poll" where
  "own_poll E p n b g w s =
     (case first2_poll (re_poll E p) (re_drained E) (b, g) w s of
        ((b', g'), s', Pending) \<Rightarrow> (Rf_own p n b' g', s', Pending)
      | ((b', g'), s', Ready (First r)) \<Rightarrow> (Rf_own p n b' g', s', Ready (set_user n (re_user E b'), r))
      | ((b', g'), s', Ready (Second u)) \<Rightarrow> (Rf_own p n b' g', s', Ready (set_user n (re_user E b'), None)))"

text \<open>Step 3 of \<open>run_all\<close>: the children moved out are joined with the component's own run, which is the
  last of the list; then they go back.\<close>

definition taken_result :: "string list \<Rightarrow> 'u run_result list \<Rightarrow> 'u run_result" where
  "taken_result names res =
     (restore_children (fst (last res)) (zip names (map fst (butlast res))), first_error (map snd res))"

definition taken_stage :: "('u, 'b, 'g, 'w) run_poller \<Rightarrow> string list \<Rightarrow> ('u, 'b, 'g) run_fut option list
    \<Rightarrow> 'u run_result option list \<Rightarrow> waker \<Rightarrow> 'w \<Rightarrow> ('u, 'b, 'g) run_fut \<times> 'w \<times> 'u run_result poll" where
  "taken_stage rp names futs outs w s =
     (let (futs', outs', s', all_done) = poll_slots rp w futs outs s in
      (Rf_taken names futs' outs', s', if all_done then Ready (taken_result names (map the outs')) else Pending))"

definition fresh_kids :: "rustdv_path \<Rightarrow> (string \<times> 'u node) list \<Rightarrow> ('u, 'b, 'g) run_fut option list" where
  "fresh_kids p kids = map (\<lambda>(name, c). Some (Rf_start (path_child p name) c)) kids"

text \<open>Step 2: the children that stay in place are joined first; an error among them ends the run.\<close>

definition kept_stage :: "('u, 'b, 'g, 'w) run_env \<Rightarrow> ('u, 'b, 'g, 'w) run_poller \<Rightarrow> rustdv_path \<Rightarrow> 'u node
    \<Rightarrow> (string \<times> 'u node) list \<Rightarrow> ('u, 'b, 'g) run_fut option list \<Rightarrow> 'u run_result option list \<Rightarrow> waker \<Rightarrow> 'w
    \<Rightarrow> ('u, 'b, 'g) run_fut \<times> 'w \<times> 'u run_result poll" where
  "kept_stage E rp p n taken futs outs w s =
     (let (futs', outs', s', all_done) = poll_slots rp w futs outs s in
      if \<not> all_done then (Rf_kept p n taken futs' outs', s', Pending)
      else
        let res = map the outs'; n2 = put_children n (map fst res) in
        case first_error (map snd res) of
          Some e \<Rightarrow> (Rf_kept p n taken futs' outs', s', Ready (restore_children n2 taken, Some e))
        | None \<Rightarrow>
            if taken = [] then own_poll E p n2 (re_begin E p (nd_user n2)) (re_wait E) w s'
            else taken_stage rp (map fst taken) (fresh_kids p taken @ [Some (own_start E p n2)])
                   (map (\<lambda>_. None) taken @ [None]) w s')"

text \<open>The future holds futures of its children and so on down: the first argument bounds how deep.\<close>

fun run_poll :: "('u, 'b, 'g, 'w) run_env \<Rightarrow> nat \<Rightarrow> ('u, 'b, 'g, 'w) run_poller" where
  "run_poll E 0 f w s = (f, s, Pending)"
| "run_poll E (Suc k) f w s =
     (case f of
        Rf_start p n \<Rightarrow>
          let (n1, taken) = take_children n; kids = children_mut n1
          in kept_stage E (run_poll E k) p n1 taken (fresh_kids p kids) (map (\<lambda>_. None) kids) w s
      | Rf_kept p n taken futs outs \<Rightarrow> kept_stage E (run_poll E k) p n taken futs outs w s
      | Rf_taken names futs outs \<Rightarrow> taken_stage (run_poll E k) names futs outs w s
      | Rf_own p n b g \<Rightarrow> own_poll E p n b g w s)"

section \<open>Outcomes\<close>

text \<open>The states a body gets into, whatever the world is at each poll, and how it may end: with a result,
  or stopped with its fields as the last poll left them. A component whose turn never came, because
  an error ended the run before, is as it was.\<close>

inductive body_reach :: "('u, 'b, 'g, 'w) run_env \<Rightarrow> rustdv_path \<Rightarrow> 'u \<Rightarrow> 'b \<Rightarrow> bool" for E p u where
  br_begin: "body_reach E p u (re_begin E p u)"
| br_poll: "body_reach E p u b \<Longrightarrow> re_poll E p b w s = (b', s', Pending) \<Longrightarrow> body_reach E p u b'"

definition body_outcome :: "('u, 'b, 'g, 'w) run_env \<Rightarrow> rustdv_path \<Rightarrow> 'u \<Rightarrow> 'u \<times> test_error option \<Rightarrow> bool" where
  "body_outcome E p u out \<longleftrightarrow> out = (u, None) \<or>
     (\<exists>b w s b' s' r. body_reach E p u b \<and> re_poll E p b w s = (b', s', r) \<and> fst out = re_user E b' \<and>
        snd out = (case r of Ready e \<Rightarrow> e | Pending \<Rightarrow> None))"

lemma body_outcome_idle: "body_outcome E p u (u, None)"
  by (simp add: body_outcome_def)

definition comes_to :: "('u, 'b, 'g, 'w) run_env \<Rightarrow> rustdv_path \<Rightarrow> 'u node \<Rightarrow> 'u run_result \<Rightarrow> bool" where
  "comes_to E p n res \<longleftrightarrow> (\<exists>one. (\<forall>q u. body_outcome E q u (one q u)) \<and> res = run_all one p n)"

lemma run_all_cong:
  "(\<And>q u ss. rp_segments q = rp_segments p @ ss \<Longrightarrow> one q u = one' q u) \<Longrightarrow> run_all one p n = run_all one' p n"
proof (induction n arbitrary: p rule: measure_induct_rule [of size])
  case (less n)
  have kid: "run_all one (path_child p name) c = run_all one' (path_child p name) c" if "size c < size n" for name c
    by (rule less.IH [OF that]) (use less.prems in \<open>simp add: path_child_def\<close>)
  have k: "map (\<lambda>(name, c). run_all one (path_child p name) c) (kept_kids n) =
      map (\<lambda>(name, c). run_all one' (path_child p name) c) (kept_kids n)"
    by (rule map_cong [OF refl]) (auto simp: kept_kids_def dest!: kept_size intro: kid)
  have t: "map (\<lambda>(name, c). (name, run_all one (path_child p name) c)) (taken_kids n) =
      map (\<lambda>(name, c). (name, run_all one' (path_child p name) c)) (taken_kids n)"
    by (rule map_cong [OF refl]) (auto simp: taken_kids_def dest!: taken_size intro: kid)
  have "run_one one p m = run_one one' p m" for m
    using less.prems [of p "[]"] by (simp add: run_one_def)
  then show ?case
    by (simp only: run_all_unfold [of one p n] run_all_unfold [of one' p n] k t)
qed

text \<open>Outcomes of the children, each with its own account of who did what, are outcomes under one
  account: the name of a child is the segment of the path at its level.\<close>

lemma glue_outcomes:
  assumes "distinct (map fst kids)" "length rs = length kids"
    and "\<And>i. i < length kids \<Longrightarrow> comes_to E (path_child p (fst (kids ! i))) (snd (kids ! i)) (rs ! i)"
    and "body_outcome E p u out"
  shows "\<exists>one. (\<forall>q v. body_outcome E q v (one q v)) \<and> one p u = out \<and>
    map (\<lambda>(name, c). run_all one (path_child p name) c) kids = rs"
proof -
  obtain f where f: "\<And>i q v. i < length kids \<Longrightarrow> body_outcome E q v (f i q v)"
    "\<And>i. i < length kids \<Longrightarrow> rs ! i = run_all (f i) (path_child p (fst (kids ! i))) (snd (kids ! i))"
    using assms(3) unfolding comes_to_def by metis
  let ?named = "\<lambda>q. map_of (zip (map fst kids) [0..<length kids]) (rp_segments q ! length (rp_segments p))"
  let ?one = "\<lambda>q v. if q = p \<and> v = u then out else case ?named q of Some i \<Rightarrow> f i q v | None \<Rightarrow> (v, None)"
  have "body_outcome E q v (f i q v)" if "?named q = Some i" for q v i
    using set_zip_rightD [OF map_of_SomeD [OF that]] by (intro f(1)) simp
  then have "body_outcome E q v (?one q v)" for q v
    using assms(4) body_outcome_idle [of E q v] by (auto split: option.split)
  moreover have "run_all ?one (path_child p (fst (kids ! i))) (snd (kids ! i)) = rs ! i" if "i < length kids" for i
  proof -
    have nm: "?named q = Some i" if "rp_segments q = rp_segments (path_child p (fst (kids ! i))) @ ss" for q :: rustdv_path and ss
      using that \<open>i < length kids\<close> assms(1)
      by (simp add: path_child_def nth_append map_of_zip_nth [of "map fst kids" "[0..<length kids]" i, simplified])
    have np: "q \<noteq> p" if "rp_segments q = rp_segments (path_child p (fst (kids ! i))) @ ss" for q :: rustdv_path and ss
      using that by (auto simp: path_child_def)
    show ?thesis unfolding f(2) [OF that]
    proof (rule run_all_cong)
      fix q :: rustdv_path and v ss assume a: "rp_segments q = rp_segments (path_child p (fst (kids ! i))) @ ss"
      from nm [OF a] np [OF a] show "?one q v = f i q v" by simp
    qed
  qed
  ultimately show ?thesis
    using assms(2) by (intro exI [of _ ?one]) (auto intro!: nth_equalityI simp: split_def)
qed

section \<open>Names\<close>

text \<open>The children of a component have different names: they are fields of one Rust struct, and elements
  of a vector have their index.\<close>

fun named_rose :: "rose \<Rightarrow> bool" where
  "named_rose (Rose ns ks) \<longleftrightarrow> distinct (map fst ks) \<and> list_all (\<lambda>(name, r). named_rose r) ks"

abbreviation named :: "'u node \<Rightarrow> bool" where
  "named n \<equiv> named_rose (skel n)"

lemma named_unfold: "named n \<longleftrightarrow> distinct (map fst (children_mut n)) \<and> (\<forall>kc \<in> set (children_mut n). named (snd kc))"
  by (subst skel.simps) (auto simp: list_all_iff comp_def split_def)

lemma named_kids:
  assumes "named n"
  shows "distinct (map fst (kept_kids n @ taken_kids n))"
    and "kc \<in> set (kept_kids n) \<union> set (taken_kids n) \<Longrightarrow> named (snd kc)"
proof -
  have "distinct (map fst (children_mut n))" using assms by (simp add: named_unfold [of n])
  moreover have "mset (map fst (kept_kids n @ taken_kids n)) = mset (map fst (children_mut n))"
    by (simp only: mset_map kids_mset)
  ultimately show "distinct (map fst (kept_kids n @ taken_kids n))" by (metis mset_eq_imp_distinct_iff)
  assume "kc \<in> set (kept_kids n) \<union> set (taken_kids n)"
  then have "kc \<in> set (children_mut n)" using mset_eq_setD [OF kids_mset [of n]] by auto
  then show "named (snd kc)" using assms by (simp add: named_unfold [of n])
qed

section \<open>Slots of a join\<close>

fun slots :: "('k \<Rightarrow> 'f \<Rightarrow> bool) \<Rightarrow> ('k \<Rightarrow> 'a \<Rightarrow> bool) \<Rightarrow> 'k list \<Rightarrow> 'f option list \<Rightarrow> 'a option list \<Rightarrow> bool" where
  "slots B D [] [] [] = True"
| "slots B D (k # ks) (f # fs) (r # rs) \<longleftrightarrow>
     (case f of Some g \<Rightarrow> B k g | None \<Rightarrow> (\<exists>v. r = Some v \<and> D k v)) \<and> slots B D ks fs rs"
| "slots B D ks fs rs = False"

lemma slots_mono [mono]: "(\<And>k f. B k f \<longrightarrow> B' k f) \<Longrightarrow> slots B D ks fs rs \<longrightarrow> slots B' D ks fs rs"
  by (induction B D ks fs rs rule: slots.induct) (auto split: option.splits)

lemma slots_poll:
  assumes "slots B D ks fs rs"
    and "\<And>k f w s f' s'. k \<in> set ks \<Longrightarrow> B k f \<Longrightarrow> rp f w s = (f', s', Pending) \<Longrightarrow> B k f'"
    and "\<And>k f w s f' s' v. k \<in> set ks \<Longrightarrow> B k f \<Longrightarrow> rp f w s = (f', s', Ready v) \<Longrightarrow> D k v"
    and "poll_slots rp w fs rs s = (fs', rs', s', all_done)"
  shows "slots B D ks fs' rs' \<and> (all_done \<longrightarrow> list_all2 D ks (map the rs'))"
  using assms
proof (induction B D ks fs rs arbitrary: s s' fs' rs' all_done rule: slots.induct)
  case (2 B D k ks f fs r rs)
  show ?case
  proof (cases f)
    case None
    obtain fs2 rs2 s2 d2 where rest: "poll_slots rp w fs rs s = (fs2, rs2, s2, d2)" by (cases "poll_slots rp w fs rs s")
    have "slots B D ks fs2 rs2 \<and> (d2 \<longrightarrow> list_all2 D ks (map the rs2))"
      by (rule "2.IH" [OF _ "2.prems"(2,3) rest]) (use "2.prems"(1) in auto)
    with None rest "2.prems"(1,4) show ?thesis by auto
  next
    case (Some g)
    obtain g' s1 res where g: "rp g w s = (g', s1, res)" by (cases "rp g w s")
    obtain fs2 rs2 s2 d2 where rest: "poll_slots rp w fs rs s1 = (fs2, rs2, s2, d2)" by (cases "poll_slots rp w fs rs s1")
    have "slots B D ks fs2 rs2 \<and> (d2 \<longrightarrow> list_all2 D ks (map the rs2))"
      by (rule "2.IH" [OF _ "2.prems"(2,3) rest]) (use "2.prems"(1) in auto)
    with Some g rest "2.prems"(1,4) "2.prems"(2,3) [of k g w s g' s1] show ?thesis
      by (cases res) auto
  qed
qed auto

lemma slots_fresh: "(\<And>k. k \<in> set ks \<Longrightarrow> B k (h k)) \<Longrightarrow> slots B D ks (map (\<lambda>k. Some (h k)) ks) (map (\<lambda>_. None) ks)"
  by (induction ks) auto

section \<open>Futures in progress\<close>

definition kept_done :: "('u, 'b, 'g, 'w) run_env \<Rightarrow> rustdv_path \<Rightarrow> 'u node \<Rightarrow> 'u run_result list \<Rightarrow> bool" where
  "kept_done E p n ks \<longleftrightarrow>
     list_all2 (\<lambda>k r. comes_to E (path_child p (fst k)) (snd k) r) (kept_kids n) ks \<and> first_error (map snd ks) = None"

definition after_kept :: "'u node \<Rightarrow> 'u run_result list \<Rightarrow> 'u node" where
  "after_kept n ks = put_children (fst (take_children n)) (map fst ks)"

definition own_busy :: "('u, 'b, 'g, 'w) run_env \<Rightarrow> rustdv_path \<Rightarrow> 'u node \<Rightarrow> ('u, 'b, 'g) run_fut \<Rightarrow> bool" where
  "own_busy E p m f \<longleftrightarrow> (\<exists>b g. f = Rf_own p m b g \<and> body_reach E p (nd_user m) b)"

definition own_done :: "('u, 'b, 'g, 'w) run_env \<Rightarrow> rustdv_path \<Rightarrow> 'u node \<Rightarrow> 'u run_result \<Rightarrow> bool" where
  "own_done E p m r \<longleftrightarrow> (\<exists>out. body_outcome E p (nd_user m) out \<and> r = (set_user m (fst out), snd out))"

inductive busy :: "('u, 'b, 'g, 'w) run_env \<Rightarrow> ('u, 'b, 'g) run_fut \<Rightarrow> rustdv_path \<Rightarrow> 'u node \<Rightarrow> bool" for E where
  busy_start: "busy E (Rf_start p n) p n"
| busy_kept: "slots (\<lambda>k f. busy E f (path_child p (fst k)) (snd k)) (\<lambda>k r. comes_to E (path_child p (fst k)) (snd k) r)
      (kept_kids n) futs outs
    \<Longrightarrow> kept_kids n \<noteq> [] \<Longrightarrow> busy E (Rf_kept p (fst (take_children n)) (taken_kids n) futs outs) p n"
| busy_own: "taken_kids n = [] \<Longrightarrow> kept_done E p n ks \<Longrightarrow> own_busy E p (after_kept n ks) f \<Longrightarrow> busy E f p n"
| busy_taken: "taken_kids n \<noteq> [] \<Longrightarrow> kept_done E p n ks
    \<Longrightarrow> slots (\<lambda>k f. (\<forall>kc. k = Some kc \<longrightarrow> busy E f (path_child p (fst kc)) (snd kc)) \<and>
                  (k = None \<longrightarrow> own_busy E p (after_kept n ks) f))
          (\<lambda>k r. (\<forall>kc. k = Some kc \<longrightarrow> comes_to E (path_child p (fst kc)) (snd kc) r) \<and>
                  (k = None \<longrightarrow> own_done E p (after_kept n ks) r))
          (map Some (taken_kids n) @ [None]) futs outs
    \<Longrightarrow> busy E (Rf_taken (map fst (taken_kids n)) futs outs) p n"

definition sound_at :: "('u, 'b, 'g, 'w) run_env \<Rightarrow> rustdv_path \<Rightarrow> 'u node
    \<Rightarrow> ('u, 'b, 'g) run_fut \<times> 'w \<times> 'u run_result poll \<Rightarrow> bool" where
  "sound_at E p n out = (case snd (snd out) of Pending \<Rightarrow> busy E (fst out) p n | Ready res \<Rightarrow> comes_to E p n res)"

lemma after_kept_user [simp]: "nd_user (after_kept n ks) = nd_user n"
  by (simp add: after_kept_def run_one_user)

lemma own_poll_sound:
  assumes "body_reach E p (nd_user m) b"
  shows "case own_poll E p m b g w s of (f', s', Pending) \<Rightarrow> own_busy E p m f' | (f', s', Ready r) \<Rightarrow> own_done E p m r"
proof -
  obtain b' s1 r where r: "re_poll E p b w s = (b', s1, r)" by (cases "re_poll E p b w s")
  obtain g' s2 d where d: "re_drained E g w s1 = (g', s2, d)" by (cases "re_drained E g w s1")
  have "body_outcome E p (nd_user m) (re_user E b', case r of Ready e \<Rightarrow> e | Pending \<Rightarrow> None)"
    using assms r by (fastforce simp: body_outcome_def)
  moreover have "r = Pending \<Longrightarrow> body_reach E p (nd_user m) b'" using assms r by (auto intro: br_poll)
  ultimately show ?thesis using r d
    by (cases r; cases d) (force simp: own_poll_def first2_poll_def own_busy_def own_done_def)+
qed

lemma account:
  assumes "named n" "list_all2 (\<lambda>k r. comes_to E (path_child p (fst k)) (snd k) r) (kept_kids n) ks"
    and "list_all2 (\<lambda>k r. comes_to E (path_child p (fst k)) (snd k) r) (taken_kids n) ts"
    and "body_outcome E p (nd_user n) out"
  shows "\<exists>one. (\<forall>q v. body_outcome E q v (one q v)) \<and> one p (nd_user n) = out \<and>
    map (\<lambda>(name, c). run_all one (path_child p name) c) (kept_kids n) = ks \<and>
    map (\<lambda>(name, c). run_all one (path_child p name) c) (taken_kids n) = ts"
proof -
  have "list_all2 (\<lambda>k r. comes_to E (path_child p (fst k)) (snd k) r) (kept_kids n @ taken_kids n) (ks @ ts)"
    using assms(2,3) by (rule list_all2_appendI)
  then have "\<exists>one. (\<forall>q v. body_outcome E q v (one q v)) \<and> one p (nd_user n) = out \<and>
      map (\<lambda>(name, c). run_all one (path_child p name) c) (kept_kids n @ taken_kids n) = ks @ ts"
    using named_kids(1) [OF assms(1)] assms(4) by (intro glue_outcomes) (auto simp: list_all2_conv_all_nth)
  then obtain one where one: "\<forall>q v. body_outcome E q v (one q v)" "one p (nd_user n) = out"
    "map (\<lambda>(name, c). run_all one (path_child p name) c) (kept_kids n) @
     map (\<lambda>(name, c). run_all one (path_child p name) c) (taken_kids n) = ks @ ts"
    unfolding map_append by blast
  then show ?thesis using list_all2_lengthD [OF assms(2)] by (intro exI [of _ one]) (simp only: append_eq_append_conv length_map simp_thms)
qed

lemma comes_to_kept_error:
  assumes "named n" "list_all2 (\<lambda>k r. comes_to E (path_child p (fst k)) (snd k) r) (kept_kids n) ks"
    and "first_error (map snd ks) = Some e"
  shows "comes_to E p n (restore_children (after_kept n ks) (taken_kids n), Some e)"
proof -
  let ?idle = "\<lambda>(q :: rustdv_path) u. (u, None :: test_error option)"
  let ?ts = "map (\<lambda>k. run_all ?idle (path_child p (fst k)) (snd k)) (taken_kids n)"
  have ts: "list_all2 (\<lambda>k r. comes_to E (path_child p (fst k)) (snd k) r) (taken_kids n) ?ts"
    unfolding list_all2_conv_all_nth comes_to_def by (auto intro!: exI [of _ ?idle] body_outcome_idle)
  obtain one where one: "\<forall>q v. body_outcome E q v (one q v)"
    "map (\<lambda>(name, c). run_all one (path_child p name) c) (kept_kids n) = ks"
    using account [OF assms(1,2) ts body_outcome_idle] by blast
  then have "run_all one p n = (restore_children (after_kept n ks) (taken_kids n), Some e)"
    by (subst run_all_unfold) (simp only: one(2) assms(3) after_kept_def Let_def option.case)
  with one(1) show ?thesis unfolding comes_to_def by metis
qed

lemma comes_to_own:
  assumes "named n" "kept_done E p n ks" "taken_kids n = []" "own_done E p (after_kept n ks) r"
  shows "comes_to E p n r"
proof -
  obtain out where out: "body_outcome E p (nd_user n) out" "r = (set_user (after_kept n ks) (fst out), snd out)"
    using assms(4) by (auto simp: own_done_def)
  obtain one where one: "\<forall>q v. body_outcome E q v (one q v)" "one p (nd_user n) = out"
    "map (\<lambda>(name, c). run_all one (path_child p name) c) (kept_kids n) = ks"
    using account [OF assms(1) _ _ out(1), of ks "[]"] assms(2,3) by (auto simp: kept_done_def)
  then have "run_all one p n = run_one one p (after_kept n ks)"
    using assms(2,3) by (subst run_all_unfold) (simp only: one(3) kept_done_def after_kept_def Let_def option.case if_True simp_thms)
  also have "\<dots> = r" by (simp add: run_one_def one(2) out(2) set_user_def case_prod_beta)
  finally show ?thesis using one(1) unfolding comes_to_def by metis
qed

lemma comes_to_taken:
  assumes "named n" "kept_done E p n ks" "taken_kids n \<noteq> []" "own_done E p (after_kept n ks) r"
    and "list_all2 (\<lambda>k r. comes_to E (path_child p (fst k)) (snd k) r) (taken_kids n) ts"
  shows "comes_to E p n (taken_result (map fst (taken_kids n)) (ts @ [r]))"
proof -
  obtain out where out: "body_outcome E p (nd_user n) out" "r = (set_user (after_kept n ks) (fst out), snd out)"
    using assms(4) by (auto simp: own_done_def)
  have k: "list_all2 (\<lambda>k r. comes_to E (path_child p (fst k)) (snd k) r) (kept_kids n) ks" "first_error (map snd ks) = None"
    using assms(2) by (simp_all add: kept_done_def)
  obtain one where one: "\<forall>q v. body_outcome E q v (one q v)" "one p (nd_user n) = out"
    "map (\<lambda>(name, c). run_all one (path_child p name) c) (kept_kids n) = ks"
    "ts = map (\<lambda>(name, c). run_all one (path_child p name) c) (taken_kids n)"
    using account [OF assms(1) k(1) assms(5) out(1)] by blast
  have "run_one one p (after_kept n ks) = r" by (simp add: run_one_def one(2) out(2) set_user_def case_prod_beta)
  moreover have "zip (map fst (taken_kids n)) (map fst ts) =
      map (\<lambda>(name, c, _). (name, c)) (map (\<lambda>(name, c). (name, run_all one (path_child p name) c)) (taken_kids n))"
    "map snd ts = map (snd \<circ> snd) (map (\<lambda>(name, c). (name, run_all one (path_child p name) c)) (taken_kids n))"
    by (simp_all add: one(4) case_prod_beta comp_def zip_map_map zip_same_conv_map)
  ultimately have "run_all one p n = taken_result (map fst (taken_kids n)) (ts @ [r])"
    using assms(3) k(2)
    by (subst run_all_unfold)
      (simp add: one(3) Let_def taken_result_def after_kept_def [symmetric] case_prod_beta del: map_map)
  with one(1) show ?thesis unfolding comes_to_def by metis
qed

section \<open>Every poll is sound\<close>

text \<open>What is asked of the poller of the futures inside.\<close>

definition sound_poller :: "('u, 'b, 'g, 'w) run_env \<Rightarrow> ('u, 'b, 'g, 'w) run_poller \<Rightarrow> bool" where
  "sound_poller E rp \<longleftrightarrow>
     (\<forall>f p n w s. busy E f p n \<longrightarrow> named n \<longrightarrow> sound_at E p n (rp f w s)) \<and>
     (\<forall>f p m w s. own_busy E p m f \<longrightarrow>
        (case rp f w s of (f', s', Pending) \<Rightarrow> own_busy E p m f' | (f', s', Ready r) \<Rightarrow> own_done E p m r))"

lemma sound_poller_kid:
  assumes "sound_poller E rp" "busy E f p n" "named n"
  shows "rp f w s = (f', s', Pending) \<Longrightarrow> busy E f' p n" "rp f w s = (f', s', Ready r) \<Longrightarrow> comes_to E p n r"
proof -
  have "sound_at E p n (rp f w s)" using assms by (simp add: sound_poller_def)
  then show "rp f w s = (f', s', Pending) \<Longrightarrow> busy E f' p n" "rp f w s = (f', s', Ready r) \<Longrightarrow> comes_to E p n r"
    by (simp_all add: sound_at_def)
qed

lemma sound_poller_own:
  assumes "sound_poller E rp" "own_busy E p m f"
  shows "rp f w s = (f', s', Pending) \<Longrightarrow> own_busy E p m f'" "rp f w s = (f', s', Ready r) \<Longrightarrow> own_done E p m r"
proof -
  have "case rp f w s of (f', s', Pending) \<Rightarrow> own_busy E p m f' | (f', s', Ready r) \<Rightarrow> own_done E p m r"
    using assms by (simp add: sound_poller_def)
  then show "rp f w s = (f', s', Pending) \<Longrightarrow> own_busy E p m f'" "rp f w s = (f', s', Ready r) \<Longrightarrow> own_done E p m r"
    by simp_all
qed

abbreviation taken_busy where
  "taken_busy E p m \<equiv> \<lambda>k f. (\<forall>kc. k = Some kc \<longrightarrow> busy E f (path_child p (fst kc)) (snd kc)) \<and>
     (k = None \<longrightarrow> own_busy E p m f)"

abbreviation taken_done where
  "taken_done E p m \<equiv> \<lambda>k r. (\<forall>kc. k = Some kc \<longrightarrow> comes_to E (path_child p (fst kc)) (snd kc) r) \<and>
     (k = None \<longrightarrow> own_done E p m r)"

lemma taken_stage_sound:
  assumes "sound_poller E rp" "named n" "taken_kids n \<noteq> []" "kept_done E p n ks"
    and "slots (taken_busy E p (after_kept n ks)) (taken_done E p (after_kept n ks)) (map Some (taken_kids n) @ [None]) futs outs"
  shows "sound_at E p n (taken_stage rp (map fst (taken_kids n)) futs outs w s)"
proof -
  let ?K = "map Some (taken_kids n) @ [None]" and ?B = "taken_busy E p (after_kept n ks)" and ?D = "taken_done E p (after_kept n ks)"
  obtain futs' outs' s' d where r: "poll_slots rp w futs outs s = (futs', outs', s', d)" by (cases "poll_slots rp w futs outs s")
  have nm: "named (snd kc)" if "Some kc \<in> set ?K" for kc using named_kids(2) [OF assms(2), of kc] that by (simp add: image_iff)
  have "slots ?B ?D ?K futs' outs' \<and> (d \<longrightarrow> list_all2 ?D ?K (map the outs'))"
  proof (rule slots_poll [OF assms(5) _ _ r])
    fix k f w s f' s' assume k: "k \<in> set ?K" "?B k f" and e: "rp f w s = (f', s', Pending)"
    show "?B k f'"
      using k(2) sound_poller_kid(1) [OF assms(1) _ nm e] sound_poller_own(1) [OF assms(1) _ e] k(1) by blast
  next
    fix k f w s f' s' v assume k: "k \<in> set ?K" "?B k f" and e: "rp f w s = (f', s', Ready v)"
    show "?D k v"
      using k(2) sound_poller_kid(2) [OF assms(1) _ nm e] sound_poller_own(2) [OF assms(1) _ e] k(1) by blast
  qed
  moreover have "comes_to E p n (taken_result (map fst (taken_kids n)) rs)" if rs: "list_all2 ?D ?K rs" for rs
  proof -
    from rs obtain ts r where "rs = ts @ [r]" "list_all2 ?D (map Some (taken_kids n)) ts" "own_done E p (after_kept n ks) r"
      by (auto simp: list_all2_append1 list_all2_Cons1)
    then show ?thesis using comes_to_taken [OF assms(2,4,3)] by (simp add: list.rel_map del: split_paired_All)
  qed
  ultimately show ?thesis
    using r assms(3,4) by (auto simp: taken_stage_def sound_at_def intro: busy_taken)
qed

lemma kept_stage_sound:
  assumes "sound_poller E rp" "named n"
    and "slots (\<lambda>k f. busy E f (path_child p (fst k)) (snd k)) (\<lambda>k r. comes_to E (path_child p (fst k)) (snd k) r)
      (kept_kids n) futs outs"
  shows "sound_at E p n (kept_stage E rp p (fst (take_children n)) (taken_kids n) futs outs w s)"
proof -
  let ?B = "\<lambda>k f. busy E f (path_child p (fst k)) (snd k)" and ?D = "\<lambda>k r. comes_to E (path_child p (fst k)) (snd k) r"
  obtain futs' outs' s' d where r: "poll_slots rp w futs outs s = (futs', outs', s', d)" by (cases "poll_slots rp w futs outs s")
  have nm: "named (snd kc)" if "kc \<in> set (kept_kids n)" for kc using named_kids(2) [OF assms(2), of kc] that by simp
  have sl: "slots ?B ?D (kept_kids n) futs' outs' \<and> (d \<longrightarrow> list_all2 ?D (kept_kids n) (map the outs'))"
    by (rule slots_poll [OF assms(3) _ _ r]) (use nm sound_poller_kid [OF assms(1)] in blast)+
  show ?thesis
  proof (cases d)
    case False
    have "kept_kids n \<noteq> []"
    proof
      assume "kept_kids n = []"
      with assms(3) have "futs = []" by (cases futs) (auto elim: slots.elims)
      with r False show False by simp
    qed
    with False sl r show ?thesis by (simp add: kept_stage_def sound_at_def busy_kept)
  next
    case True
    let ?ks = "map the outs'"
    have l: "list_all2 ?D (kept_kids n) ?ks" using sl True by simp
    show ?thesis
    proof (cases "first_error (map snd ?ks)")
      case (Some e)
      with comes_to_kept_error [OF assms(2) l] r True show ?thesis
        by (simp add: kept_stage_def sound_at_def after_kept_def Let_def)
    next
      case None
      then have kd: "kept_done E p n ?ks" using l by (simp add: kept_done_def)
      let ?m = "after_kept n ?ks"
      have ob: "own_busy E p ?m (own_start E p ?m)" by (auto simp: own_busy_def own_start_def intro: br_begin)
      show ?thesis
      proof (cases "taken_kids n = []")
        case tk: True
        have "sound_at E p n (own_poll E p ?m (re_begin E p (nd_user ?m)) (re_wait E) w s')"
          using own_poll_sound [OF br_begin, of E p ?m "re_wait E" w s'] tk kd
          by (auto simp: sound_at_def split: poll.splits prod.splits intro: busy_own comes_to_own [OF assms(2) kd tk])
        with None r True tk show ?thesis by (simp add: kept_stage_def after_kept_def [symmetric] Let_def)
      next
        case tk: False
        have "slots (taken_busy E p ?m) (taken_done E p ?m) (map Some ks @ [None]) (fresh_kids p ks @ [Some (own_start E p ?m)])
            (map (\<lambda>_. None) ks @ [None])" for ks
          using ob by (induction ks) (auto simp: fresh_kids_def intro: busy_start)
        from taken_stage_sound [OF assms(1,2) tk kd this] None r True tk show ?thesis
          by (simp add: kept_stage_def after_kept_def [symmetric] Let_def)
      qed
    qed
  qed
qed

lemma run_poll_sound: "sound_poller E (run_poll E k)"
proof (induction k)
  case 0
  then show ?case by (auto simp: sound_poller_def sound_at_def)
next
  case (Suc k)
  have own: "case run_poll E (Suc k) f w s of (f', s', Pending) \<Rightarrow> own_busy E p m f' | (f', s', Ready r) \<Rightarrow> own_done E p m r"
    if "own_busy E p m f" for f p m w s
  proof -
    from that obtain b g where "f = Rf_own p m b g" "body_reach E p (nd_user m) b" by (auto simp: own_busy_def)
    with own_poll_sound [of E p m b g w s] show ?thesis by simp
  qed
  have "sound_at E p n (run_poll E (Suc k) f w s)" if "busy E f p n" "named n" for f p n w s
    using that(1)
  proof (cases rule: busy.cases)
    case busy_start
    have "slots (\<lambda>k f. busy E f (path_child p (fst k)) (snd k)) (\<lambda>k r. comes_to E (path_child p (fst k)) (snd k) r)
        ks (fresh_kids p ks) (map (\<lambda>_. None) ks)" for ks
      by (induction ks) (auto simp: fresh_kids_def intro: busy.busy_start)
    from kept_stage_sound [OF Suc that(2) this] show ?thesis
      by (simp add: busy_start kept_kids_def taken_kids_def case_prod_beta Let_def)
  next
    case (busy_kept futs outs)
    with kept_stage_sound [OF Suc that(2)] show ?thesis by simp
  next
    case (busy_own ks)
    with own [of p "after_kept n ks" f w s] comes_to_own [OF that(2) busy_own(2,1)] show ?thesis
      by (auto simp: sound_at_def split: poll.splits prod.splits intro: busy.busy_own)
  next
    case (busy_taken ks futs outs)
    with taken_stage_sound [OF Suc that(2)] show ?thesis by simp
  qed
  with own show ?case by (simp add: sound_poller_def del: run_poll.simps)
qed

section \<open>Runs of the phase\<close>

text \<open>Between two polls anybody may change the world, so a run is a sequence of polls at any worlds.\<close>

inductive run_reach :: "('u, 'b, 'g, 'w) run_env \<Rightarrow> nat \<Rightarrow> rustdv_path \<Rightarrow> 'u node \<Rightarrow> ('u, 'b, 'g) run_fut \<Rightarrow> bool"
  for E k p n where
  rr_start: "run_reach E k p n (Rf_start p n)"
| rr_poll: "run_reach E k p n f \<Longrightarrow> run_poll E k f w s = (f', s', Pending) \<Longrightarrow> run_reach E k p n f'"

lemma run_reach_busy: "run_reach E k p n f \<Longrightarrow> named n \<Longrightarrow> busy E f p n"
proof (induction rule: run_reach.induct)
  case rr_start
  show ?case by (rule busy_start)
next
  case (rr_poll f w s f' s')
  from sound_poller_kid(1) [OF run_poll_sound rr_poll.IH rr_poll.prems rr_poll.hyps(2)] rr_poll.prems
  show ?case by blast
qed

section \<open>The consensus ends the phase\<close>

text \<open>The wait \<open>run_one\<close> races a body against, where the world holds the objection registry. Another poll of
  the same wait only looks at the event again.\<close>

definition wait_drained_event :: "(unit, obj_inner \<times> 'x, unit) poller" where
  "wait_drained_event g w s = (case wait_drained_poll (fst s) w of (r, res) \<Rightarrow> ((), (r, snd s), res))"

definition drained :: "obj_inner \<times> 'x \<Rightarrow> bool" where
  "drained s \<longleftrightarrow> ev_is_set (ob_drained (fst s))"

text \<open>The bodies the next poll of a future may poll, with those it will begin.\<close>

definition fresh_bodies :: "('u, 'b, 'g, 'w) run_env \<Rightarrow> (rustdv_path \<times> 'u) list \<Rightarrow> (rustdv_path \<times> 'b) list" where
  "fresh_bodies E = map (\<lambda>(q, u). (q, re_begin E q u))"

fun bodies :: "('u, 'b, 'g, 'w) run_env \<Rightarrow> ('u, 'b, 'g) run_fut \<Rightarrow> (rustdv_path \<times> 'b) list" where
  "bodies E (Rf_start p n) = fresh_bodies E (run_order p n)"
| "bodies E (Rf_kept p n taken futs outs) = concat (map (\<lambda>fo. case fo of Some f \<Rightarrow> bodies E f | None \<Rightarrow> []) futs) @
     fresh_bodies E (concat (map (\<lambda>(name, c). run_order (path_child p name) c) taken) @ [(p, nd_user n)])"
| "bodies E (Rf_taken names futs outs) = concat (map (\<lambda>fo. case fo of Some f \<Rightarrow> bodies E f | None \<Rightarrow> []) futs)"
| "bodies E (Rf_own p n b g) = [(p, b)]"

text \<open>None of these bodies, from where it is now, ends a condition of the world by its next poll.\<close>

definition steady :: "('w \<Rightarrow> bool) \<Rightarrow> ('u, 'b, 'g, 'w) run_env \<Rightarrow> rustdv_path \<times> 'b \<Rightarrow> bool" where
  "steady P E qb \<longleftrightarrow> (\<forall>w s. P s \<longrightarrow> P (fst (snd (re_poll E (fst qb) (snd qb) w s))))"

definition calm :: "('w \<Rightarrow> bool) \<Rightarrow> ('u, 'b, 'g, 'w) run_env \<Rightarrow> ('u, 'b, 'g) run_fut \<Rightarrow> bool" where
  "calm P E f \<longleftrightarrow> list_all (steady P E) (bodies E f)"

definition ends_waits :: "('w \<Rightarrow> bool) \<Rightarrow> ('u, 'b, 'g, 'w) run_env \<Rightarrow> bool" where
  "ends_waits P E \<longleftrightarrow> (\<forall>g w s. P s \<longrightarrow> P (fst (snd (re_drained E g w s))) \<and> snd (snd (re_drained E g w s)) = Ready ())"

abbreviation calm_slots :: "('w \<Rightarrow> bool) \<Rightarrow> ('u, 'b, 'g, 'w) run_env \<Rightarrow> ('u, 'b, 'g) run_fut option list \<Rightarrow> bool" where
  "calm_slots P E \<equiv> list_all (\<lambda>fo. case fo of Some f \<Rightarrow> calm P E f | None \<Rightarrow> True)"

lemma calm_slots_iff:
  "calm_slots P E futs \<longleftrightarrow>
     list_all (steady P E) (concat (map (\<lambda>fo. case fo of Some f \<Rightarrow> bodies E f | None \<Rightarrow> []) futs))"
  by (induction futs) (auto simp: calm_def split: option.split)

lemma calm_taken: "calm P E (Rf_taken names futs outs) \<longleftrightarrow> calm_slots P E futs"
  by (simp only: calm_slots_iff) (simp add: calm_def)

lemma fresh_bodies_append [simp]: "fresh_bodies E (xs @ ys) = fresh_bodies E xs @ fresh_bodies E ys"
  by (simp add: fresh_bodies_def)

lemma calm_fresh:
  "calm_slots P E (fresh_kids p ks) \<longleftrightarrow>
     list_all (steady P E) (fresh_bodies E (concat (map (\<lambda>(name, c). run_order (path_child p name) c) ks)))"
  by (induction ks) (auto simp: fresh_kids_def calm_def fresh_bodies_def)

lemma calm_kept:
  "calm P E (Rf_kept p n taken futs outs) \<longleftrightarrow>
     calm_slots P E futs \<and> calm_slots P E (fresh_kids p taken) \<and> calm P E (Rf_own p m (re_begin E p (nd_user n)) g)"
  unfolding calm_slots_iff [of P E futs] calm_fresh by (simp add: calm_def) (simp add: fresh_bodies_def)

lemma calm_start:
  "calm P E (Rf_start p n) \<longleftrightarrow> calm P E (Rf_kept p (fst (take_children n)) (taken_kids n) (fresh_kids p (kept_kids n)) outs)"
proof -
  have "nd_user (fst (take_children n)) = nd_user n" by (simp add: take_children_def)
  then show ?thesis
    unfolding calm_kept [where m = n and g = undefined] calm_fresh
    by (simp add: calm_def run_order_unfold [of p n]) (simp add: fresh_bodies_def)
qed

lemma own_poll_drained:
  assumes "ends_waits P E" "calm P E (Rf_own p m b g)" "P s"
  shows "\<exists>f' s' r. own_poll E p n b g w s = (f', s', Ready r) \<and> P s'"
proof -
  obtain b' s1 r where r: "re_poll E p b w s = (b', s1, r)" by (cases "re_poll E p b w s")
  have "P (fst (snd (re_poll E p b w s)))" using assms(2,3) by (simp add: calm_def steady_def)
  then have s1: "P s1" by (simp add: r)
  obtain g' s2 d where d: "re_drained E g w s1 = (g', s2, d)" by (cases "re_drained E g w s1")
  have "P (fst (snd (re_drained E g w s1))) \<and> snd (snd (re_drained E g w s1)) = Ready ()"
    using assms(1) s1 by (simp add: ends_waits_def)
  with r s1 d show ?thesis by (cases r) (auto simp: own_poll_def first2_poll_def)
qed

lemma slots_and: "slots B D ks fs rs \<Longrightarrow> list_all (\<lambda>fo. case fo of Some f \<Rightarrow> C f | None \<Rightarrow> True) fs \<Longrightarrow>
    slots (\<lambda>k f. B k f \<and> C f) D ks fs rs"
  by (induction B D ks fs rs rule: slots.induct) (auto split: option.splits)

lemma slots_ready:
  assumes "slots B D ks fs rs"
    and "\<And>k f w s. k \<in> set ks \<Longrightarrow> B k f \<Longrightarrow> P s \<Longrightarrow> \<exists>f' s' v. rp f w s = (f', s', Ready v) \<and> P s'"
    and "P s"
  shows "\<exists>fs' rs' s'. poll_slots rp w fs rs s = (fs', rs', s', True) \<and> P s'"
  using assms
proof (induction B D ks fs rs arbitrary: s rule: slots.induct)
  case (2 B D k ks f fs r rs)
  have rest: "\<exists>fs' rs' s'. poll_slots rp w fs rs s = (fs', rs', s', True) \<and> P s'" if "P s" for s
    by (rule "2.IH") (use "2.prems"(1) in simp, rule "2.prems"(2), auto intro: that)
  show ?case
  proof (cases f)
    case None
    with rest [OF "2.prems"(3)] show ?thesis by auto
  next
    case (Some g)
    with "2.prems"(1) "2.prems"(2) [of k g s w] "2.prems"(3) obtain g' s1 v where "rp g w s = (g', s1, Ready v)" "P s1" by auto
    with Some rest [of s1] show ?thesis by auto
  qed
qed auto

lemma kid_depth: "kc \<in> set (kept_kids n) \<union> set (taken_kids n) \<Longrightarrow> depth (skel (snd kc)) < depth (skel n)"
  using mset_eq_setD [OF kids_mset [of n]] depth_skel_child [of "fst kc" "snd kc" n] by auto

lemma run_poll_drained:
  assumes "ends_waits P E"
  shows "busy E f p n \<Longrightarrow> depth (skel n) < k \<Longrightarrow> calm P E f \<Longrightarrow> P s \<Longrightarrow>
    \<exists>f' s' r. run_poll E k f w s = (f', s', Ready r) \<and> P s'"
proof (induction k arbitrary: f p n w s)
  case (Suc k)
  let ?ok = "\<lambda>f. \<forall>w s. P s \<longrightarrow> (\<exists>f' s' r. run_poll E k f w s = (f', s', Ready r) \<and> P s')"
  have k: "0 < k" using Suc.prems(2) by (cases "skel n") auto
  have own: "?ok f" if "own_busy E q m f" "calm P E f" for q m f
    using that own_poll_drained [OF assms] k by (cases k) (auto simp: own_busy_def)
  have kid: "?ok f" if "busy E f (path_child p (fst kc)) (snd kc)" "kc \<in> set (kept_kids n) \<union> set (taken_kids n)" "calm P E f" for f kc
    using Suc.IH [OF that(1) _ that(3)] kid_depth [OF that(2)] Suc.prems(2) by simp
  have taken: "\<exists>f' s' r. taken_stage (run_poll E k) names futs outs w s = (f', s', Ready r) \<and> P s'"
    if "slots (taken_busy E p m) (taken_done E p m) (map Some (taken_kids n) @ [None]) futs outs" "calm_slots P E futs" "P s"
    for m names futs outs s
  proof -
    have "\<exists>fs' rs' s'. poll_slots (run_poll E k) w futs outs s = (fs', rs', s', True) \<and> P s'"
    proof (rule slots_ready [where P = P, OF slots_and [OF that(1,2)] _ that(3)])
      fix j f w s assume j: "j \<in> set (map Some (taken_kids n) @ [None])" "taken_busy E p m j f \<and> calm P E f" and s: "P s"
      show "\<exists>f' s' v. run_poll E k f w s = (f', s', Ready v) \<and> P s'"
      proof (cases j)
        case None
        with j own s show ?thesis by blast
      next
        case (Some kc)
        with j have "kc \<in> set (kept_kids n) \<union> set (taken_kids n)" "busy E f (path_child p (fst kc)) (snd kc)"
          by (auto simp del: split_paired_All)
        with j kid s show ?thesis by blast
      qed
    qed
    then show ?thesis by (auto simp: taken_stage_def)
  qed
  have fresh: "slots (taken_busy E p m) (taken_done E p m) (map Some ks @ [None]) (fresh_kids p ks @ [Some (own_start E p m)])
      (map (\<lambda>_. None) ks @ [None])" for m ks
    by (induction ks) (auto simp: fresh_kids_def own_busy_def own_start_def intro: busy_start br_begin)
  have kept: "\<exists>f' s' r. kept_stage E (run_poll E k) p (fst (take_children n)) (taken_kids n) futs outs w s = (f', s', Ready r) \<and> P s'"
    if "slots (\<lambda>k f. busy E f (path_child p (fst k)) (snd k)) (\<lambda>k r. comes_to E (path_child p (fst k)) (snd k) r)
      (kept_kids n) futs outs" "calm P E (Rf_kept p (fst (take_children n)) (taken_kids n) futs outs')" for futs outs outs'
  proof -
    let ?u = "nd_user (fst (take_children n))"
    have c: "calm_slots P E futs" "calm_slots P E (fresh_kids p (taken_kids n))"
      "calm P E (Rf_own p m (re_begin E p ?u) g)" for m g
      using that(2) calm_kept [of P E p _ "taken_kids n" futs outs' m g] by simp_all
    have "\<exists>fs' rs' s'. poll_slots (run_poll E k) w futs outs s = (fs', rs', s', True) \<and> P s'"
      by (rule slots_ready [where P = P, OF slots_and [OF that(1) c(1)] _ Suc.prems(4)]) (use kid in blast)
    then obtain fs' rs' s' where r: "poll_slots (run_poll E k) w futs outs s = (fs', rs', s', True)" "P s'" by blast
    let ?m = "put_children (fst (take_children n)) (map (fst \<circ> (the)) rs')"
    have u: "nd_user (put_children (fst (take_children n)) xs) = ?u" for xs by (simp add: put_children_def)
    have "calm_slots P E (fresh_kids p (taken_kids n) @ [Some (own_start E p ?m)])"
      using c by (simp add: own_start_def u)
    from taken [OF fresh this r(2)] own_poll_drained [OF assms c(3) r(2), where n = ?m and w = w] r(2) show ?thesis
      by (auto simp: kept_stage_def r(1) Let_def u comp_def split: option.split)
  qed
  from Suc.prems(1) show ?case
  proof (cases rule: busy.cases)
    case busy_start
    have "slots (\<lambda>k f. busy E f (path_child p (fst k)) (snd k)) (\<lambda>k r. comes_to E (path_child p (fst k)) (snd k) r)
        ks (fresh_kids p ks) (map (\<lambda>_. None) ks)" for ks
      by (induction ks) (auto simp: fresh_kids_def intro: busy.busy_start)
    from kept [OF this] Suc.prems(3) show ?thesis
      by (simp add: busy_start calm_start [where outs = "[]"]) (simp add: kept_kids_def taken_kids_def case_prod_beta Let_def)
  next
    case (busy_kept futs outs)
    with kept Suc.prems(3) show ?thesis by simp
  next
    case (busy_own ks)
    with own_poll_drained [OF assms] Suc.prems(3,4) show ?thesis by (auto simp: own_busy_def)
  next
    case (busy_taken ks futs outs)
    with taken Suc.prems(3,4) show ?thesis by (simp add: calm_taken)
  qed
qed simp

lemma registry_ends_waits: "re_drained E = wait_drained_event \<Longrightarrow> ends_waits drained E"
  by (simp add: ends_waits_def wait_drained_event_def drained_def wait_drained_poll_def event_poll_def)

section \<open>Who is polled\<close>

text \<open>A tree of the shape new code has: every child is a factory slot, so it is moved out and runs beside
  its parent.\<close>

function all_moved :: "'u node \<Rightarrow> bool" where
  "all_moved n \<longleftrightarrow> kept_kids n = [] \<and> (\<forall>kc \<in> set (taken_kids n). all_moved (snd kc))"
  by pat_completeness auto
termination by (relation "measure size") (auto simp: taken_kids_def dest: taken_size)

declare all_moved.simps [simp del]

text \<open>The components whose bodies are not finished, in the order a poll of the future reaches them.\<close>

fun live :: "('u, 'b, 'g) run_fut \<Rightarrow> rustdv_path list" where
  "live (Rf_start p n) = map fst (run_order p n)"
| "live (Rf_kept p n taken futs outs) = concat (map (\<lambda>fo. case fo of Some f \<Rightarrow> live f | None \<Rightarrow> []) futs)"
| "live (Rf_taken names futs outs) = concat (map (\<lambda>fo. case fo of Some f \<Rightarrow> live f | None \<Rightarrow> []) futs)"
| "live (Rf_own p n b g) = [p]"

definition traced :: "('w \<Rightarrow> rustdv_path list) \<Rightarrow> ('u, 'b, 'g, 'w) run_env \<Rightarrow> bool" where
  "traced tr E \<longleftrightarrow> (\<forall>p b w s. tr (fst (snd (re_poll E p b w s))) = tr s @ [p]) \<and>
     (\<forall>g w s. tr (fst (snd (re_drained E g w s))) = tr s)"

lemma own_poll_traced: "traced tr E \<Longrightarrow> tr (fst (snd (own_poll E p n b g w s))) = tr s @ [p]"
proof -
  assume t: "traced tr E"
  obtain b' s1 r where r: "re_poll E p b w s = (b', s1, r)" by (cases "re_poll E p b w s")
  obtain g' s2 d where d: "re_drained E g w s1 = (g', s2, d)" by (cases "re_drained E g w s1")
  have "tr (fst (snd (re_poll E p b w s))) = tr s @ [p]" "tr (fst (snd (re_drained E g w s1))) = tr s1"
    using t by (simp_all add: traced_def)
  with r d show ?thesis by (cases r; cases d) (auto simp: own_poll_def first2_poll_def)
qed

lemma slots_traced:
  assumes "slots B D ks fs rs"
    and "\<And>k f w s. k \<in> set ks \<Longrightarrow> B k f \<Longrightarrow> tr (fst (snd (rp f w s))) = tr s @ live f"
    and "poll_slots rp w fs rs s = (fs', rs', s', d)"
  shows "tr s' = tr s @ concat (map (\<lambda>fo. case fo of Some f \<Rightarrow> live f | None \<Rightarrow> []) fs)"
  using assms
proof (induction B D ks fs rs arbitrary: s fs' rs' s' d rule: slots.induct)
  case (2 B D k ks f fs r rs)
  have rest: "tr s2 = tr s1 @ concat (map (\<lambda>fo. case fo of Some f \<Rightarrow> live f | None \<Rightarrow> []) fs)"
    if "poll_slots rp w fs rs s1 = (fs2, rs2, s2, d2)" for s1 fs2 rs2 s2 d2
    by (rule "2.IH" [OF _ _ that]) (use "2.prems"(1) in simp, rule "2.prems"(2), auto)
  show ?case
  proof (cases f)
    case None
    obtain fs2 rs2 s2 d2 where q: "poll_slots rp w fs rs s = (fs2, rs2, s2, d2)" by (cases "poll_slots rp w fs rs s")
    with None "2.prems"(3) rest [OF q] show ?thesis by auto
  next
    case (Some g)
    obtain g' s1 v where g: "rp g w s = (g', s1, v)" by (cases "rp g w s")
    obtain fs2 rs2 s2 d2 where q: "poll_slots rp w fs rs s1 = (fs2, rs2, s2, d2)" by (cases "poll_slots rp w fs rs s1")
    have "tr s1 = tr s @ live g" using "2.prems"(1) "2.prems"(2) [of k g w s] Some g by simp
    with Some g "2.prems"(3) q rest [OF q] show ?thesis by (cases v) auto
  qed
qed auto

lemma live_fresh:
  "concat (map (\<lambda>fo. case fo of Some f \<Rightarrow> live f | None \<Rightarrow> []) (fresh_kids p ks)) =
     map fst (concat (map (\<lambda>(name, c). run_order (path_child p name) c) ks))"
  by (induction ks) (auto simp: fresh_kids_def)

lemma run_poll_traced:
  assumes "traced tr E"
  shows "busy E f p n \<Longrightarrow> all_moved n \<Longrightarrow> depth (skel n) < k \<Longrightarrow> tr (fst (snd (run_poll E k f w s))) = tr s @ live f"
proof (induction k arbitrary: f p n w s)
  case (Suc k)
  let ?ok = "\<lambda>f. \<forall>w s. tr (fst (snd (run_poll E k f w s))) = tr s @ live f"
  have k: "0 < k" using Suc.prems(3) by (cases "skel n") auto
  have kept0: "kept_kids n = []" and moved: "\<And>kc. kc \<in> set (taken_kids n) \<Longrightarrow> all_moved (snd kc)"
    using Suc.prems(2) by (simp_all add: all_moved.simps [of n])
  have own: "?ok f" if "own_busy E q m f" for q m f
    using that own_poll_traced [OF assms] k by (cases k) (auto simp: own_busy_def)
  have taken: "tr (fst (snd (taken_stage (run_poll E k) names futs outs w s))) =
      tr s @ concat (map (\<lambda>fo. case fo of Some f \<Rightarrow> live f | None \<Rightarrow> []) futs)"
    if "slots (taken_busy E p m) (taken_done E p m) (map Some (taken_kids n) @ [None]) futs outs" for m names futs outs s
  proof -
    obtain fs' rs' s' d where r: "poll_slots (run_poll E k) w futs outs s = (fs', rs', s', d)"
      by (cases "poll_slots (run_poll E k) w futs outs s")
    have "tr s' = tr s @ concat (map (\<lambda>fo. case fo of Some f \<Rightarrow> live f | None \<Rightarrow> []) futs)"
    proof (rule slots_traced [OF that _ r])
      fix j f w s assume j: "j \<in> set (map Some (taken_kids n) @ [None])" "taken_busy E p m j f"
      show "tr (fst (snd (run_poll E k f w s))) = tr s @ live f"
      proof (cases j)
        case None
        with j own show ?thesis by blast
      next
        case (Some kc)
        with j have kc: "kc \<in> set (taken_kids n)" "busy E f (path_child p (fst kc)) (snd kc)"
          by (auto simp del: split_paired_All)
        with kid_depth [of kc n] Suc.prems(3) show ?thesis by (intro Suc.IH [OF kc(2) moved]) auto
      qed
    qed
    with r show ?thesis by (simp add: taken_stage_def)
  qed
  from Suc.prems(1) show ?case
  proof (cases rule: busy.cases)
    case busy_start
    let ?m = "put_children (fst (take_children n)) []"
    have fresh: "slots (taken_busy E p ?m) (taken_done E p ?m) (map Some ks @ [None]) (fresh_kids p ks @ [Some (own_start E p ?m)])
        (map (\<lambda>_. None) ks @ [None])" for ks
      by (induction ks) (auto simp: fresh_kids_def own_busy_def own_start_def intro: busy.busy_start br_begin)
    have e: "run_poll E (Suc k) f w s = kept_stage E (run_poll E k) p (fst (take_children n)) (taken_kids n) [] [] w s"
      using kept0 by (simp add: busy_start taken_kids_def kept_kids_def case_prod_beta Let_def fresh_kids_def)
    have l: "live f = map fst (concat (map (\<lambda>(name, c). run_order (path_child p name) c) (taken_kids n))) @ [p]"
      by (simp add: busy_start run_order_unfold [of p n] kept0)
    show ?thesis
      using taken [OF fresh, of "map fst (taken_kids n)" s] own_poll_traced [OF assms, of p ?m _ "re_wait E" w s]
      unfolding e l by (simp add: kept_stage_def first_error_def Let_def live_fresh own_start_def)
  next
    case (busy_kept futs outs)
    with kept0 show ?thesis by simp
  next
    case (busy_own ks)
    with own_poll_traced [OF assms] show ?thesis by (auto simp: own_busy_def)
  next
    case (busy_taken ks futs outs)
    with taken show ?thesis by simp
  qed
qed simp

section \<open>Properties\<close>

text \<open>C13: The run phase under any interleaving: the bodies may read and change the world as they like and
  anybody else may between polls. When the phase returns, there is an account of what each component
  came to (its body returned, or was stopped, or its turn never came) under which the phase returns
  what the outcome model of run_all does: the whole tree is back in place with the fields the bodies left,
  and the error is the first one in the order of the tree.\<close>

theorem run_phase_refines_outcome:
  assumes "run_reach E k p n f" "named n" "wf_node n" "run_poll E k f w s = (f', s', Ready res)"
  shows "\<exists>one. (\<forall>q u. body_outcome E q u (one q u)) \<and> res = run_all one p n \<and> skel (fst res) = skel n \<and>
    snd res = first_error (map (\<lambda>(q, u). snd (one q u)) (run_order p n))"
proof -
  have "comes_to E p n res"
    using sound_poller_kid(2) [OF run_poll_sound run_reach_busy [OF assms(1,2)] assms(2,4)] .
  then obtain one where "\<forall>q u. body_outcome E q u (one q u)" "res = run_all one p n" by (auto simp: comes_to_def)
  with run_all_skel [OF assms(3), of one p] run_all_outcome [of one p n] show ?thesis by blast
qed

text \<open>C14: Once the objection consensus is reached, the next poll of the run phase returns, wherever in the
  phase it is and even if every body loops forever: no component is waited for. The world holds the
  objection registry the bodies raise in; objections have been raised there and all are dropped when the
  poll begins, and none of the bodies the poll may come to raises a new one in it.\<close>

theorem consensus_ends_run:
  assumes "run_reach E k p n f" "named n" "depth (skel n) < k" "re_drained E = wait_drained_event"
    and "obj_reachable (fst s) []" "ob_raised_ever (fst s)" "calm drained E f"
  shows "\<exists>f' s' res. run_poll E k f w s = (f', s', Ready res)"
proof -
  have "drained s" using obj_reachable_inv [OF assms(5)] assms(6) by (simp add: obj_inv_def drained_def)
  from run_poll_drained [OF registry_ends_waits [OF assms(4)] run_reach_busy [OF assms(1,2)] assms(3,7) this]
  show ?thesis by blast
qed

text \<open>C37: In a tree of factory children every component runs beside every other: each poll of the phase
  polls each body that is not finished exactly once, subtree by subtree, and the first poll starts
  all of them.\<close>

theorem run_phase_polls_everyone:
  assumes "run_reach E k p n f" "named n" "depth (skel n) < k" "all_moved n" "traced tr E"
    and "run_poll E k f w s = (f', s', r)"
  shows "tr s' = tr s @ live f \<and> (f = Rf_start p n \<longrightarrow> tr s' = tr s @ map fst (run_order p n))"
  using run_poll_traced [OF assms(5) run_reach_busy [OF assms(1,2)] assms(4,3), of w s] assms(6) by simp

section \<open>An example\<close>

text \<open>Bodies that never end, counting their polls; the consensus is there or not.\<close>

definition loop_env :: "bool \<Rightarrow> (nat, nat, unit, rustdv_path list) run_env" where
  "loop_env d = \<lparr>re_begin = (\<lambda>p u. u), re_poll = (\<lambda>p b w s. (b + 1, s @ [p], Pending)), re_user = (\<lambda>b. b),
     re_wait = (), re_drained = (\<lambda>g w s. ((), s, if d then Ready () else Pending))\<rparr>"

definition loop_tree :: "nat node" where
  "loop_tree = Node ''top'' 0 [] [(''a'', FComp (Some (demo_leaf ''A'' True)) False None),
     (''b'', FComp (Some (demo_leaf ''B'' True)) False None)]"

lemma demo_named: "named demo_tree"
  by (simp add: demo_skel vec_label_def dec_string.simps digit_char_def)

lemma loop_skel: "skel loop_tree = Rose [''a'', ''b''] [(''a'', Rose [] []), (''b'', Rose [] [])]"
  by (subst skel.simps) (simp add: loop_tree_def demo_leaf_skel children_mut_def comp_names_def)

theorem run_phase_refines_outcome_witness:
  "\<exists>f' s' res. run_poll (loop_env True) 3 (Rf_start demo_path demo_tree) 0 [] = (f', s', Ready res) \<and>
     skel (fst res) = skel demo_tree"
proof -
  have "ends_waits (\<lambda>_. True) (loop_env True)" by (simp add: ends_waits_def loop_env_def)
  from run_poll_drained [OF this busy_start, where n = demo_tree and k = 3 and p = demo_path and s = "[]" and w = 0] obtain f' s' res
    where "run_poll (loop_env True) 3 (Rf_start demo_path demo_tree) 0 [] = (f', s', Ready res)"
    by (auto simp: demo_skel calm_def steady_def list_all_iff)
  with run_phase_refines_outcome [OF rr_start demo_named demo_wf this] show ?thesis by blast
qed

text \<open>Bodies that never end: the one of a raises an objection at its first poll.\<close>

definition object_env :: "(nat, nat, unit, obj_inner \<times> nat) run_env" where
  "object_env = \<lparr>re_begin = (\<lambda>p u. 0),
     re_poll = (\<lambda>p b w s. (b + 1, (if b = 0 \<and> p = path_child demo_path ''a'' then raise (fst s) ''work'' else fst s, snd s + 1), Pending)),
     re_user = (\<lambda>b. b), re_wait = (), re_drained = wait_drained_event\<rparr>"

lemma object_first_poll:
  "\<exists>f r. run_poll object_env 3 (Rf_start demo_path loop_tree) 0 (registry_new, 0) = (f, (r, 3), Pending) \<and>
     r = fst (wait_drained_poll (fst (wait_drained_poll (fst (wait_drained_poll (raise registry_new ''work'') 0)) 0)) 0) \<and>
     map snd (bodies object_env f) = [1, 1, 1]"
  by (simp add: numeral_3_eq_3 object_env_def loop_tree_def demo_leaf_def take_children_def children_mut_def fresh_kids_def
      kept_stage_def taken_stage_def own_start_def own_poll_def first2_poll_def wait_drained_event_def wait_drained_poll_def
      event_poll_def raise_def registry_new_def event_new_def event_clear_def put_children_def first_error_def
      path_child_def demo_path_def path_empty_def Let_def)

theorem consensus_ends_run_witness:
  "\<exists>f r f' s' res. run_poll object_env 3 (Rf_start demo_path loop_tree) 0 (registry_new, 0) = (f, (r, 3), Pending) \<and>
     ob_active r = [''work''] \<and>
     run_poll object_env 3 f 0 (fst (objection_drop r ''work''), 3) = (f', s', Ready res)"
proof -
  obtain f r where f: "run_poll object_env 3 (Rf_start demo_path loop_tree) 0 (registry_new, 0) = (f, (r, 3), Pending)"
    and r: "r = fst (wait_drained_poll (fst (wait_drained_poll (fst (wait_drained_poll (raise registry_new ''work'') 0)) 0)) 0)"
    and b: "map snd (bodies object_env f) = [1, 1, 1]"
    using object_first_poll by (elim exE conjE) rule
  have o: "obj_reachable r ([] @ [''work''])" unfolding r by (intro obj_reachable.intros)
  from or_drop [OF this, of "''work''"] have d: "obj_reachable (fst (objection_drop r ''work'')) []" by simp
  have e: "ob_raised_ever (fst (objection_drop r ''work''))"
    by (simp add: r objection_drop_def wait_drained_poll_def raise_def Let_def split: prod.split)
  have one: "\<forall>qb \<in> set (bodies object_env f). snd qb = 1"
  proof
    fix qb assume "qb \<in> set (bodies object_env f)"
    then have "snd qb \<in> set (map snd (bodies object_env f))" by simp
    then show "snd qb = 1" by (simp add: b)
  qed
  have c: "calm drained object_env f"
    using one by (auto simp: calm_def steady_def list_all_iff drained_def object_env_def)
  have "\<exists>f' s' res. run_poll object_env 3 f 0 (fst (objection_drop r ''work''), 3) = (f', s', Ready res)"
    by (rule consensus_ends_run [OF rr_poll [OF rr_start f] _ _ _ _ _ c])
      (use d e in \<open>simp_all add: loop_skel object_env_def\<close>)
  moreover have "ob_active r = [''work'']" using obj_reachable_inv [OF o] by (simp add: obj_inv_def)
  ultimately show ?thesis using f by blast
qed

theorem run_phase_polls_everyone_witness:
  "fst (snd (run_poll (loop_env False) 3 (Rf_start demo_path loop_tree) 0 [])) =
     [path_child demo_path ''a'', path_child demo_path ''b'', demo_path]"
proof -
  let ?r = "run_poll (loop_env False) 3 (Rf_start demo_path loop_tree) 0 []"
  have "kept_kids (demo_leaf nm c) = []" "taken_kids (demo_leaf nm c) = []" "nd_user (demo_leaf nm c) = 1" for nm c
    by (simp_all add: kept_kids_eq taken_kids_eq demo_leaf_def)
  then have leaf: "all_moved (demo_leaf nm c)" "run_order q (demo_leaf nm c) = [(q, 1)]" for nm c q
    by (simp_all add: all_moved.simps [of "demo_leaf nm c"] run_order_unfold [of q "demo_leaf nm c"])
  have k: "kept_kids loop_tree = []" "taken_kids loop_tree = [(''a'', demo_leaf ''A'' True), (''b'', demo_leaf ''B'' True)]"
    by (simp_all add: kept_kids_eq taken_kids_eq loop_tree_def)
  have "fst (snd ?r) = [] @ live (Rf_start demo_path loop_tree :: (nat, nat, unit) run_fut) \<and>
      (Rf_start demo_path loop_tree = (Rf_start demo_path loop_tree :: (nat, nat, unit) run_fut) \<longrightarrow>
        fst (snd ?r) = [] @ map fst (run_order demo_path loop_tree))"
    by (rule run_phase_polls_everyone [OF rr_start, where E = "loop_env False" and k = 3 and tr = "\<lambda>s. s" and w = 0
          and f' = "fst ?r" and r = "snd (snd ?r)"])
      (simp_all add: loop_skel all_moved.simps [of loop_tree] k leaf traced_def loop_env_def)
  then show ?thesis by (simp add: run_order_unfold [of demo_path loop_tree] k leaf)
qed

end
