(* ===== verification/Shared_Model.thy ===== *)
theory Shared_Model
  imports Rustdv_Prelude
begin

text \<open>
  \<open>RustdvShared\<close> of \<open>rustdv-methodology/src/shared.rs\<close>: a reference-counted cell whose borrows are
  checked at run time. The store holds one cell; its borrow state is the number of read guards alive
  or one write guard, its count the number of handles. A guard keeps the handle it came from
  borrowed, so a handle outlives its guards.
\<close>

section \<open>The cell\<close>

datatype borrow = Reading nat | Writing

record 't shared =
  sh_value :: 't
  sh_borrow :: borrow
  sh_count :: nat

definition shared_new :: "'t \<Rightarrow> 't shared" where
  "shared_new v = \<lparr>sh_value = v, sh_borrow = Reading 0, sh_count = 1\<rparr>"

definition shared_get :: "'t shared \<Rightarrow> ('t shared \<times> 't) may_panic" where
  "shared_get c =
     (case sh_borrow c of
        Writing \<Rightarrow> panics ''already mutably borrowed''
      | Reading n \<Rightarrow> Inr (c\<lparr>sh_borrow := Reading (Suc n)\<rparr>, sh_value c))"

definition shared_get_mut :: "'t shared \<Rightarrow> 't shared may_panic" where
  "shared_get_mut c =
     (case sh_borrow c of
        Writing \<Rightarrow> panics ''already mutably borrowed''
      | Reading n \<Rightarrow> if n = 0 then Inr (c\<lparr>sh_borrow := Writing\<rparr>) else panics ''already borrowed'')"

definition handle_count :: "'t shared \<Rightarrow> nat" where
  "handle_count c = sh_count c"

definition shared_clone :: "'t shared \<Rightarrow> 't shared" where
  "shared_clone c = c\<lparr>sh_count := Suc (sh_count c)\<rparr>"

definition shared_default :: "'t \<Rightarrow> 't shared" where
  "shared_default dflt = shared_new dflt"

definition shared_debug :: "('t \<Rightarrow> string) \<Rightarrow> 't shared \<Rightarrow> string may_panic" where
  "shared_debug render c =
     (case shared_get c of Inl p \<Rightarrow> Inl p | Inr (_, v) \<Rightarrow> Inr (''RustdvShared('' @ render v @ '')''))"

text \<open>What the guards do: a read guard ends, a write guard stores, a write guard ends.\<close>

definition ref_drop :: "'t shared \<Rightarrow> 't shared" where
  "ref_drop c = (case sh_borrow c of Reading n \<Rightarrow> c\<lparr>sh_borrow := Reading (n - 1)\<rparr> | Writing \<Rightarrow> c)"

definition refmut_set :: "'t shared \<Rightarrow> ('t \<Rightarrow> 't) \<Rightarrow> 't shared" where
  "refmut_set c f = c\<lparr>sh_value := f (sh_value c)\<rparr>"

definition refmut_drop :: "'t shared \<Rightarrow> 't shared" where
  "refmut_drop c = c\<lparr>sh_borrow := Reading 0\<rparr>"

definition handle_drop :: "'t shared \<Rightarrow> 't shared" where
  "handle_drop c = c\<lparr>sh_count := sh_count c - 1\<rparr>"

section \<open>Users of the cell\<close>

text \<open>The program's side: which guards it holds, with the value a read guard saw, and how many handles.
  The type system lets it drop only what it has.\<close>

record 't users =
  us_readers :: "'t list"
  us_writer :: bool
  us_handles :: nat

inductive shared_step :: "'t shared \<times> 't users \<Rightarrow> 't shared \<times> 't users \<Rightarrow> bool" where
  st_get: "0 < us_handles u \<Longrightarrow> shared_get c = Inr (c', v) \<Longrightarrow> shared_step (c, u) (c', u\<lparr>us_readers := v # us_readers u\<rparr>)"
| st_get_mut: "0 < us_handles u \<Longrightarrow> shared_get_mut c = Inr c' \<Longrightarrow> shared_step (c, u) (c', u\<lparr>us_writer := True\<rparr>)"
| st_ref_drop: "us_readers u = xs @ v # ys \<Longrightarrow> shared_step (c, u) (ref_drop c, u\<lparr>us_readers := xs @ ys\<rparr>)"
| st_set: "us_writer u \<Longrightarrow> shared_step (c, u) (refmut_set c f, u)"
| st_refmut_drop: "us_writer u \<Longrightarrow> shared_step (c, u) (refmut_drop c, u\<lparr>us_writer := False\<rparr>)"
| st_clone: "0 < us_handles u \<Longrightarrow> shared_step (c, u) (shared_clone c, u\<lparr>us_handles := Suc (us_handles u)\<rparr>)"
| st_drop: "1 < us_handles u \<or> us_handles u = 1 \<and> us_readers u = [] \<and> \<not> us_writer u \<Longrightarrow>
    shared_step (c, u) (handle_drop c, u\<lparr>us_handles := us_handles u - 1\<rparr>)"

inductive shared_reachable :: "'t \<Rightarrow> 't shared \<times> 't users \<Rightarrow> bool" for v where
  sr_new: "shared_reachable v (shared_new v, \<lparr>us_readers = [], us_writer = False, us_handles = 1\<rparr>)"
| sr_step: "shared_reachable v s \<Longrightarrow> shared_step s s' \<Longrightarrow> shared_reachable v s'"

definition shared_inv :: "'t shared \<times> 't users \<Rightarrow> bool" where
  "shared_inv cu = (case cu of (c, u) \<Rightarrow>
     sh_borrow c = (if us_writer u then Writing else Reading (length (us_readers u))) \<and>
     (us_writer u \<longrightarrow> us_readers u = []) \<and> list_all (\<lambda>v. v = sh_value c) (us_readers u) \<and>
     sh_count c = us_handles u)"

lemma shared_step_inv: "shared_step s s' \<Longrightarrow> shared_inv s \<Longrightarrow> shared_inv s'"
  by (induction rule: shared_step.induct)
    (auto simp: shared_inv_def shared_get_def shared_get_mut_def ref_drop_def refmut_set_def refmut_drop_def
      shared_clone_def handle_drop_def split: borrow.splits if_splits)

lemma shared_reachable_inv: "shared_reachable v s \<Longrightarrow> shared_inv s"
proof (induction rule: shared_reachable.induct)
  case sr_new
  show ?case by (simp add: shared_inv_def shared_new_def)
qed (rule shared_step_inv)

section \<open>Properties\<close>

text \<open>The run-time check of a shared cell is exact: in every state the program can reach, reading panics
  exactly when a write guard is alive and writing exactly when any guard is alive; a read guard still
  shows the current value, so nothing changes under a reader; and the count is the number of handles.\<close>

theorem shared_borrow_exact:
  assumes "shared_reachable v (c, u)"
  shows "((\<exists>p. shared_get c = Inl p) \<longleftrightarrow> us_writer u) \<and>
    ((\<exists>p. shared_get_mut c = Inl p) \<longleftrightarrow> us_writer u \<or> us_readers u \<noteq> []) \<and>
    list_all (\<lambda>x. x = sh_value c) (us_readers u) \<and> handle_count c = us_handles u"
  using shared_reachable_inv [OF assms]
  by (auto simp: shared_inv_def shared_get_def shared_get_mut_def handle_count_def)

theorem shared_borrow_exact_witness:
  "\<exists>c u. shared_reachable (7 :: nat) (c, u) \<and> us_readers u = [7] \<and> (\<exists>p. shared_get_mut c = Inl p)"
proof -
  let ?u = "\<lparr>us_readers = [], us_writer = False, us_handles = 1\<rparr> :: nat users"
  let ?c = "(shared_new 7)\<lparr>sh_borrow := Reading 1\<rparr>"
  have "shared_step (shared_new 7, ?u) (?c, ?u\<lparr>us_readers := [7]\<rparr>)"
    using st_get [of ?u "shared_new 7" ?c 7] by (simp add: shared_get_def shared_new_def)
  then have "shared_reachable 7 (?c, ?u\<lparr>us_readers := [7]\<rparr>)" by (rule sr_step [OF sr_new])
  with shared_borrow_exact [OF this] show ?thesis by fastforce
qed

end
