(* ===== verification/Progress_Spec.thy ===== *)
theory Progress_Spec
  imports Main
begin

text \<open>
  What a set of cooperating tasks must promise so that every fair schedule brings it to an end: a step
  of a task changes nothing or uses up some of a finite amount of work, and as long as the work is not
  done some task can make a step that changes something.
\<close>

locale progress_system =
  fixes step :: "'t \<Rightarrow> 's \<Rightarrow> 's"
    and inv :: "'s \<Rightarrow> bool"
    and over :: "'s \<Rightarrow> bool"
    and participants :: "'s \<Rightarrow> 't set"
    and amount :: "'s \<Rightarrow> nat"
  assumes inv_step: "inv s \<Longrightarrow> inv (step t s)"
    and participants_step: "inv s \<Longrightarrow> participants (step t s) = participants s"
    and step_uses: "inv s \<Longrightarrow> step t s \<noteq> s \<Longrightarrow> amount (step t s) < amount s"
    and someone: "inv s \<Longrightarrow> \<not> over s \<Longrightarrow> \<exists>t \<in> participants s. step t s \<noteq> s"
    and over_step: "inv s \<Longrightarrow> over s \<Longrightarrow> over (step t s)"
begin

lemma run_inv: "inv s \<Longrightarrow> inv (fold step ts s) \<and> participants (fold step ts s) = participants s"
  by (induction ts arbitrary: s) (simp_all add: inv_step participants_step)

lemma run_over: "inv s \<Longrightarrow> over s \<Longrightarrow> over (fold step ts s)"
  by (induction ts arbitrary: s) (simp_all add: inv_step over_step)

lemma run_settles:
  "inv s \<Longrightarrow> amount (fold step ts s) \<le> amount s \<and>
     (amount (fold step ts s) = amount s \<longrightarrow> (\<forall>t \<in> set ts. step t s = s))"
proof (induction ts arbitrary: s)
  case (Cons t ts)
  note IH = Cons.IH [OF inv_step [OF Cons.prems, of t]]
  show ?case
  proof (cases "step t s = s")
    case True
    with IH show ?thesis by simp
  next
    case False
    with step_uses [OF Cons.prems False] IH show ?thesis by simp
  qed
qed simp

lemma round_uses:
  assumes "inv s" "\<not> over s" "participants s \<subseteq> set ts"
  shows "amount (fold step ts s) < amount s"
proof -
  from someone [OF assms(1,2)] assms(3) obtain t where "t \<in> set ts" "step t s \<noteq> s" by blast
  with run_settles [OF assms(1), of ts] show ?thesis by (auto simp: le_neq_implies_less)
qed

lemma rounds_end:
  assumes "inv s" "\<forall>ts \<in> set rounds. participants s \<subseteq> set ts" "amount s \<le> length rounds"
  shows "over (fold step (concat rounds) s)"
  using assms
proof (induction rounds arbitrary: s)
  case Nil
  then show ?case using someone [OF Nil.prems(1)] step_uses [OF Nil.prems(1)] by fastforce
next
  case (Cons ts rounds)
  show ?case
  proof (cases "over s")
    case True
    with Cons.prems(1) show ?thesis by (rule run_over)
  next
    case False
    with Cons.prems round_uses [of s ts] have "amount (fold step ts s) \<le> length rounds" by fastforce
    with Cons.prems run_inv [OF Cons.prems(1), of ts] have "over (fold step (concat rounds) (fold step ts s))"
      by (intro Cons.IH) auto
    then show ?thesis by simp
  qed
qed

end

end
