(* ===== verification/Seq_System.thy ===== *)
theory Seq_System
  imports Seq_Machine Progress_Spec
begin

section \<open>The futures implement the machine\<close>

text \<open>What the cells of a request show in each phase of its sequence.\<close>

fun thread_rel :: "'q dphase \<Rightarrow> (nat \<Rightarrow> 'q item_slot) \<Rightarrow> ('q, 'r, 'a) seq_phase \<Rightarrow> seq_ctx \<times> ('q, 'r, 'a) thread \<Rightarrow> bool" where
  "thread_rel d sl (P_idle p) (ctx, t) \<longleftrightarrow> cx_has_seqr ctx \<and> cx_current ctx = None \<and> t = Th_start Si_start p"
| "thread_rel d sl (P_asked n p) (ctx, t) \<longleftrightarrow> cx_has_seqr ctx \<and> cx_current ctx = Some n \<and> t = Th_start (Si_granted n) p \<and>
     \<not> ev_is_set (sl_ready (sl n)) \<and> \<not> ev_is_set (sl_done (sl n)) \<and> (ev_is_set (sl_granted (sl n)) \<longleftrightarrow> d = D_ready n)"
| "thread_rel d sl (P_granted n p) (ctx, t) \<longleftrightarrow> cx_has_seqr ctx \<and> cx_current ctx = Some n \<and>
     t = Th_finish (Fi_start (the (head_item p))) p \<and> \<not> ev_is_set (sl_ready (sl n)) \<and> \<not> ev_is_set (sl_done (sl n))"
| "thread_rel d sl (P_sent n p) (ctx, t) \<longleftrightarrow> cx_has_seqr ctx \<and> cx_current ctx = None \<and> t = Th_finish (Fi_done n) p \<and>
     ev_is_set (sl_ready (sl n)) \<and> (ev_is_set (sl_done (sl n)) \<longleftrightarrow> \<not> serves d n) \<and>
     (d = D_ready n \<longrightarrow> sl_payload (sl n) = head_item p)"
| "thread_rel d sl (P_answer n p) (ctx, t) \<longleftrightarrow> cx_has_seqr ctx \<and> cx_current ctx = None \<and> t = Th_response (Suc n) p"
| "thread_rel d sl (P_end a) (ctx, t) \<longleftrightarrow> t = Th_end (Inr a)"

fun driver_rel :: "'q dphase \<Rightarrow> nat option \<Rightarrow> 'q driver \<Rightarrow> bool" where
  "driver_rel D_idle cur dr \<longleftrightarrow> cur = None \<and> dr \<in> {Dr_next Gni_start, Dr_next Gni_queue}"
| "driver_rel (D_ready n) cur dr \<longleftrightarrow> cur = None \<and> dr = Dr_next (Gni_ready n)"
| "driver_rel (D_work n q) cur dr \<longleftrightarrow> cur = Some n \<and> dr = Dr_work (Suc n) q"

definition seqr_rel :: "('q, 'r, 'a) machine \<Rightarrow> ('q, 'r) seqr_inner \<Rightarrow> bool" where
  "seqr_rel m s \<longleftrightarrow> se_alloc s = ma_next m \<and> se_next_id s = Suc (ma_next m) \<and> (\<forall>n < ma_next m. sl_id (se_slots s n) = Suc n) \<and>
     q_cap (se_queue s) = None \<and> q_buf (se_queue s) = ma_queue m \<and>
     rq_items (se_responses s) = map (\<lambda>(n, r). (Suc n, r)) (ma_resps m)"

definition sim :: "('q, 'r, 'a) machine \<Rightarrow> ('q, 'r, 'a) seq_system \<Rightarrow> bool" where
  "sim m y \<longleftrightarrow> seqr_rel m (sy_seqr y) \<and> sy_log y = map (\<lambda>(n, q). (Suc n, q)) (ma_log m) \<and> driver_rel (ma_driver m) (se_current (sy_seqr y)) (sy_driver y) \<and>
     list_all2 (thread_rel (ma_driver m) (se_slots (sy_seqr y))) (ma_phases m) (sy_threads y)"

lemma sim_start: "sim (machine_start (map (snd \<circ> snd) ps)) (system_start ps)"
  by (auto simp: sim_def machine_start_def system_start_def seqr_rel_def sequencer_new_def queue_unbounded_def queue_new_def
      resp_new_def list_all2_conv_all_nth seq_ctx_new_def split: prod.split)

text \<open>A sequence is not touched by what happens to the slots of the others.\<close>

lemma thread_rel_frame:
  assumes "thread_rel d sl ph ct"
    and "\<And>n. slot_of ph = Some n \<Longrightarrow> sl' n = sl n \<and> (d' = D_ready n \<longleftrightarrow> d = D_ready n) \<and> (serves d' n \<longleftrightarrow> serves d n)"
  shows "thread_rel d' sl' ph ct"
  using assms by (cases ct; cases ph) auto

lemma event_poll_simps [simp]:
  "ev_is_set e \<Longrightarrow> event_poll e w = (e, Ready ())"
  "\<not> ev_is_set e \<Longrightarrow> event_poll e w = (e\<lparr>ev_waiters := ev_waiters e @ [w]\<rparr>, Pending)"
  by (simp_all add: event_poll_def)

lemma position_map: "position P (map f xs) = position (\<lambda>x. P (f x)) xs"
  by (induction xs) auto

lemma remove_at_map: "remove_at j (map f xs) = map f (remove_at j xs)"
  by (simp add: remove_at_def take_map drop_map)

lemma sim_thread:
  assumes "sim m y" "i < length (ma_phases m)"
    and "seqr_rel m' s'" "ma_driver m' = ma_driver m" "se_current s' = se_current (sy_seqr y)" "ma_phases m' = (ma_phases m)[i := ph]"
    and "ma_log m' = ma_log m" "thread_rel (ma_driver m) (se_slots s') ph (ctx, t)"
    and "\<And>j n. j < length (ma_phases m) \<Longrightarrow> j \<noteq> i \<Longrightarrow> slot_of (ma_phases m ! j) = Some n \<Longrightarrow>
      se_slots s' n = se_slots (sy_seqr y) n"
  shows "sim m' (y\<lparr>sy_threads := (sy_threads y)[i := (ctx, t)], sy_seqr := s'\<rparr>)"
proof -
  have len: "length (sy_threads y) = length (ma_phases m)" using assms(1) by (simp add: sim_def list_all2_conv_all_nth)
  have "thread_rel (ma_driver m) (se_slots s') ((ma_phases m)[i := ph] ! j) ((sy_threads y)[i := (ctx, t)] ! j)"
    if j: "j < length (ma_phases m)" for j
  proof (cases "j = i")
    case True
    with assms(2,8) len show ?thesis by simp
  next
    case False
    have "thread_rel (ma_driver m) (se_slots (sy_seqr y)) (ma_phases m ! j) (sy_threads y ! j)"
      using assms(1) j by (simp add: sim_def list_all2_conv_all_nth)
    then have "thread_rel (ma_driver m) (se_slots s') (ma_phases m ! j) (sy_threads y ! j)"
      by (rule thread_rel_frame) (use assms(9) j False in simp)
    with False show ?thesis by simp
  qed
  with assms(1,3-7) len show ?thesis by (simp add: sim_def list_all2_conv_all_nth)
qed

lemma sim_slots_free:
  assumes "machine_inv ans m" "i < length (ma_phases m)" "slot_of (ma_phases m ! i) = Some n"
    and "j < length (ma_phases m)" "j \<noteq> i" "slot_of (ma_phases m ! j) = Some k"
  shows "k \<noteq> n"
  using apart_eq [OF machine_invD(3) [OF assms(1)] assms(2,4), of n] assms(3,5,6) by auto

lemma update_same: "xs ! i = x \<Longrightarrow> xs = xs[i := x]"
  by auto

lemma sim_at:
  assumes "sim m y" "i < length (ma_phases m)"
  shows "i < length (sy_threads y)" "seqr_rel m (sy_seqr y)"
    "thread_rel (ma_driver m) (se_slots (sy_seqr y)) (ma_phases m ! i) (sy_threads y ! i)"
  using assms by (auto simp: sim_def list_all2_conv_all_nth)

text \<open>Polling sequence \<open>i\<close> ends well, in a system that shows the machine \<open>m'\<close>; when that is the machine it was, the
  task is suspended and nobody was woken.\<close>

definition thread_implements :: "waker \<Rightarrow> nat \<Rightarrow> ('q, 'r, 'a) seq_system \<Rightarrow> ('q, 'r, 'a) machine \<Rightarrow> ('q, 'r, 'a) machine \<Rightarrow> bool" where
  "thread_implements w i y m m' \<longleftrightarrow> (\<exists>ctx t s' ws b. thread_poll w (sy_threads y ! i) (sy_seqr y) = Inr (ctx, t, (s', ws), b) \<and>
     sim m' (y\<lparr>sy_threads := (sy_threads y)[i := (ctx, t)], sy_seqr := s'\<rparr>) \<and> (m' = m \<longrightarrow> b \<and> ws = []))"

lemma thread_implementsI:
  assumes "thread_poll w (sy_threads y ! i) (sy_seqr y) = Inr (ctx, t, (s', ws), b)" "sim m y" "i < length (ma_phases m)"
    and "seqr_rel m' s'" "ma_driver m' = ma_driver m" "se_current s' = se_current (sy_seqr y)" "ma_phases m' = (ma_phases m)[i := ph]"
    and "ma_log m' = ma_log m" "thread_rel (ma_driver m) (se_slots s') ph (ctx, t)"
    and "\<And>j n. j < length (ma_phases m) \<Longrightarrow> j \<noteq> i \<Longrightarrow> slot_of (ma_phases m ! j) = Some n \<Longrightarrow>
      se_slots s' n = se_slots (sy_seqr y) n"
    and "ph = ma_phases m ! i \<Longrightarrow> b \<and> ws = []"
  shows "thread_implements w i y m m'"
proof -
  have "m' = m \<Longrightarrow> ph = ma_phases m ! i" using assms(3,7) by (metis nth_list_update_eq)
  moreover have "sim m' (y\<lparr>sy_threads := (sy_threads y)[i := (ctx, t)], sy_seqr := s'\<rparr>)"
    by (rule sim_thread [OF assms(2-9)]) (use assms(10) in blast)+
  ultimately show ?thesis using assms(1,11) by (auto simp: thread_implements_def)
qed

lemma idle_request_implements:
  assumes "machine_inv ans m" "sim m y" "i < length (ma_phases m)" "ma_phases m ! i = P_idle p" "head_item p \<noteq> None"
  shows "thread_implements w i y m
    ((set_phase i (P_asked (ma_next m) p) m)\<lparr>ma_queue := ma_queue m @ [ma_next m], ma_next := Suc (ma_next m)\<rparr>)"
proof -
  note A = sim_at [OF assms(2,3)]
  obtain ctx t where ct: "sy_threads y ! i = (ctx, t)" by (cases "sy_threads y ! i")
  with A(3) assms(4) have c: "cx_has_seqr ctx" "cx_current ctx = None" "t = Th_start Si_start p" by simp_all
  let ?n = "ma_next m"
  let ?s = "sy_seqr y"
  let ?q = "(se_queue ?s)\<lparr>q_buf := ma_queue m @ [?n], q_get_waiters := []\<rparr>"
  let ?sl = "(se_slots ?s)(?n := (fresh_slot (Suc ?n))\<lparr>sl_granted := event_new\<lparr>ev_waiters := [w]\<rparr>\<rparr>)"
  let ?s' = "?s\<lparr>se_alloc := Suc ?n, se_slots := ?sl, se_next_id := Suc (Suc ?n), se_queue := ?q\<rparr>"
  have "start_item_poll w Si_start ctx ?s = Inr (ctx\<lparr>cx_current := Some ?n\<rparr>, (?s', q_get_waiters (se_queue ?s)), Si_granted ?n, Pending)"
    using A(2) c
    by (simp add: start_item_poll_def si_put_def si_granted_def put_poll_def queue_has_space_def wake_getters_def Let_def seqr_rel_def
        fresh_slot_def event_new_def upd_slot_def)
  then have poll: "thread_poll w (sy_threads y ! i) ?s = Inr (ctx\<lparr>cx_current := Some ?n\<rparr>, Th_start (Si_granted ?n) p, (?s', q_get_waiters (se_queue ?s)), True)"
    using assms(5) by (cases p) (simp_all add: ct c thread_poll_def item_start_poll_def)
  have old: "\<And>j n. j < length (ma_phases m) \<Longrightarrow> slot_of (ma_phases m ! j) = Some n \<Longrightarrow> n \<noteq> ?n"
    using slot_old [OF assms(1)] by fastforce
  have "ma_driver m \<noteq> D_ready ?n" using machine_invD(2) [OF assms(1)] by (auto simp: bounded_def)
  then have th: "thread_rel (ma_driver m) (se_slots ?s') (P_asked ?n p) (ctx\<lparr>cx_current := Some ?n\<rparr>, Th_start (Si_granted ?n) p)"
    using c by (simp add: fresh_slot_def event_new_def)
  show ?thesis
    by (rule thread_implementsI [OF poll assms(2,3) _ _ _ _ _ th])
      (use A(2) old assms(4) in \<open>auto simp: seqr_rel_def less_Suc_eq fresh_slot_def set_phase_def\<close>)
qed

lemma asked_implements:
  assumes "machine_inv ans m" "sim m y" "i < length (ma_phases m)" "ma_phases m ! i = P_asked n p"
  shows "thread_implements w i y m (phase_step i (P_asked n p) m)"
proof -
  note A = sim_at [OF assms(2,3)]
  note free = sim_slots_free [OF assms(1,3), of n]
  have same: "ma_phases m = (ma_phases m)[i := P_asked n p]" by (rule update_same [OF assms(4)])
  have ok: "n < ma_next m" "head_item p \<noteq> None" using machine_invD(4) [OF assms(1,3)] assms(4) by simp_all
  obtain ctx t where ct: "sy_threads y ! i = (ctx, t)" by (cases "sy_threads y ! i")
  let ?s = "sy_seqr y"
  let ?e = "sl_granted (se_slots ?s n)"
  from A(3) assms(4) ct have c: "cx_has_seqr ctx" "cx_current ctx = Some n" "t = Th_start (Si_granted n) p"
    "\<not> ev_is_set (sl_ready (se_slots ?s n))" "\<not> ev_is_set (sl_done (se_slots ?s n))" "ev_is_set ?e \<longleftrightarrow> ma_driver m = D_ready n"
    by simp_all
  show ?thesis
  proof (cases "ma_driver m = D_ready n")
    case True
    with c have "start_item_poll w (Si_granted n) ctx ?s = Inr (ctx, (?s, []), Si_finished, Ready (Inr ()))"
      by (simp add: start_item_poll_def si_granted_def)
    then have poll: "thread_poll w (sy_threads y ! i) ?s = Inr (ctx, Th_finish (Fi_start (the (head_item p))) p, (?s, []), False)"
      using ok by (cases p) (simp_all add: ct c(3) thread_poll_def item_start_poll_def)
    have "thread_implements w i y m (set_phase i (P_granted n p) m)"
      by (rule thread_implementsI [OF poll assms(2,3), where ph = "P_granted n p"])
        (use A(2) c True assms(4) in \<open>auto simp: seqr_rel_def set_phase_def\<close>)
    with True show ?thesis by simp
  next
    case False
    let ?s' = "upd_slot ?s n (\<lambda>sl. sl\<lparr>sl_granted := ?e\<lparr>ev_waiters := ev_waiters ?e @ [w]\<rparr>\<rparr>)"
    from False c have "start_item_poll w (Si_granted n) ctx ?s = Inr (ctx, (?s', []), Si_granted n, Pending)"
      by (simp add: start_item_poll_def si_granted_def)
    then have poll: "thread_poll w (sy_threads y ! i) ?s = Inr (ctx, Th_start (Si_granted n) p, (?s', []), True)"
      using ok by (cases p) (simp_all add: ct c(3) thread_poll_def item_start_poll_def)
    have "thread_implements w i y m m"
      by (rule thread_implementsI [OF poll assms(2,3), where ph = "P_asked n p"])
        (use A(2) c False assms(4) free same in \<open>auto simp: seqr_rel_def\<close>)
    with False show ?thesis by simp
  qed
qed

lemma granted_implements:
  assumes "machine_inv ans m" "sim m y" "i < length (ma_phases m)" "ma_phases m ! i = P_granted n p"
  shows "thread_implements w i y m (phase_step i (P_granted n p) m)"
proof -
  note A = sim_at [OF assms(2,3)]
  note free = sim_slots_free [OF assms(1,3), of n]
  have ok: "n < ma_next m" "head_item p \<noteq> None" "ma_driver m = D_ready n"
    using machine_invD(4) [OF assms(1,3)] assms(4) by simp_all
  obtain ctx t where ct: "sy_threads y ! i = (ctx, t)" by (cases "sy_threads y ! i")
  let ?s = "sy_seqr y"
  from A(3) assms(4) ct have c: "cx_has_seqr ctx" "cx_current ctx = Some n" "t = Th_finish (Fi_start (the (head_item p))) p"
    "\<not> ev_is_set (sl_ready (se_slots ?s n))" "\<not> ev_is_set (sl_done (se_slots ?s n))"
    by simp_all
  let ?s1 = "upd_slot ?s n (\<lambda>sl. sl\<lparr>sl_payload := head_item p, sl_ready := fst (event_set (sl_ready (se_slots ?s n)))\<rparr>)"
  let ?e = "sl_done (se_slots ?s n)"
  let ?s' = "upd_slot ?s1 n (\<lambda>sl. sl\<lparr>sl_done := ?e\<lparr>ev_waiters := ev_waiters ?e @ [w]\<rparr>\<rparr>)"
  have "finish_item_poll w (Fi_start (the (head_item p))) ctx ?s =
      Inr (ctx\<lparr>cx_current := None\<rparr>, (?s', ev_waiters (sl_ready (se_slots ?s n))), Fi_done n, Pending)"
    using c ok by (auto simp: finish_item_poll_def fi_done_def event_set_def)
  then have poll: "thread_poll w (sy_threads y ! i) ?s = Inr (ctx\<lparr>cx_current := None\<rparr>, Th_finish (Fi_done n) p,
      (?s', ev_waiters (sl_ready (se_slots ?s n))), True)"
    by (simp add: ct c(3) thread_poll_def item_finish_poll_def)
  have "thread_implements w i y m (set_phase i (P_sent n p) m)"
    by (rule thread_implementsI [OF poll assms(2,3), where ph = "P_sent n p"])
      (use A(2) c ok assms(4) free in \<open>auto simp: seqr_rel_def set_phase_def event_set_def\<close>)
  then show ?thesis by simp
qed

lemma sent_implements:
  assumes "machine_inv ans m" "sim m y" "i < length (ma_phases m)" "ma_phases m ! i = P_sent n p"
  shows "thread_implements w i y m (phase_step i (P_sent n p) m)"
proof -
  note A = sim_at [OF assms(2,3)]
  note free = sim_slots_free [OF assms(1,3), of n]
  have same: "ma_phases m = (ma_phases m)[i := P_sent n p]" by (rule update_same [OF assms(4)])
  have ok: "n < ma_next m" "head_item p \<noteq> None" using machine_invD(4) [OF assms(1,3)] assms(4) by simp_all
  obtain ctx t where ct: "sy_threads y ! i = (ctx, t)" by (cases "sy_threads y ! i")
  let ?s = "sy_seqr y"
  let ?e = "sl_done (se_slots ?s n)"
  from A(3) assms(4) ct have c: "cx_has_seqr ctx" "cx_current ctx = None" "t = Th_finish (Fi_done n) p"
    "ev_is_set (sl_ready (se_slots ?s n))" "ev_is_set ?e \<longleftrightarrow> \<not> serves (ma_driver m) n"
    "ma_driver m = D_ready n \<longrightarrow> sl_payload (se_slots ?s n) = head_item p"
    by simp_all
  show ?thesis
  proof (cases "serves (ma_driver m) n")
    case True
    let ?s' = "upd_slot ?s n (\<lambda>sl. sl\<lparr>sl_done := ?e\<lparr>ev_waiters := ev_waiters ?e @ [w]\<rparr>\<rparr>)"
    from True c have "finish_item_poll w (Fi_done n) ctx ?s = Inr (ctx, (?s', []), Fi_done n, Pending)"
      by (simp add: finish_item_poll_def fi_done_def)
    then have poll: "thread_poll w (sy_threads y ! i) ?s = Inr (ctx, Th_finish (Fi_done n) p, (?s', []), True)"
      by (simp add: ct c(3) thread_poll_def item_finish_poll_def)
    have "thread_implements w i y m m"
      by (rule thread_implementsI [OF poll assms(2,3), where ph = "P_sent n p"])
        (use A(2) c True assms(4) free same in \<open>auto simp: seqr_rel_def\<close>)
    with True show ?thesis by simp
  next
    case False
    from False c A(2) ok have "finish_item_poll w (Fi_done n) ctx ?s = Inr (ctx, (?s, []), Fi_finished, Ready (Inr (Suc n)))"
      by (simp add: finish_item_poll_def fi_done_def seqr_rel_def)
    then have poll: "thread_poll w (sy_threads y ! i) ?s = Inr (ctx, after_finish (Suc n) p, (?s, []), False)"
      by (simp add: ct c(3) thread_poll_def item_finish_poll_def)
    have "thread_implements w i y m (set_phase i (case p of Tell q p' \<Rightarrow> P_idle p' | _ \<Rightarrow> P_answer n p) m)"
      by (rule thread_implementsI [OF poll assms(2,3), where ph = "case p of Tell q p' \<Rightarrow> P_idle p' | _ \<Rightarrow> P_answer n p"])
        (use A(2) c assms(4) in \<open>auto simp: seqr_rel_def set_phase_def after_finish_def split: prog.splits\<close>)
    with False show ?thesis by simp
  qed
qed

lemma answer_implements:
  assumes "machine_inv ans m" "sim m y" "i < length (ma_phases m)" "ma_phases m ! i = P_answer n p"
  shows "thread_implements w i y m (phase_step i (P_answer n p) m)"
proof -
  note A = sim_at [OF assms(2,3)]
  have same: "ma_phases m = (ma_phases m)[i := P_answer n p]" by (rule update_same [OF assms(4)])
  obtain ctx t where ct: "sy_threads y ! i = (ctx, t)" by (cases "sy_threads y ! i")
  let ?s = "sy_seqr y"
  let ?rs = "se_responses ?s"
  from A(3) assms(4) ct have c: "cx_has_seqr ctx" "cx_current ctx = None" "t = Th_response (Suc n) p"
    by simp_all
  have items: "rq_items ?rs = map (\<lambda>(n, r). (Suc n, r)) (ma_resps m)" using A(2) by (simp add: seqr_rel_def)
  then have index: "resp_index ?rs (Some (Suc n)) = position (\<lambda>(k, _). k = n) (ma_resps m)"
    by (simp add: resp_index_def position_map case_prod_unfold)
  show ?thesis
  proof (cases "position (\<lambda>(k, _). k = n) (ma_resps m)")
    case None
    then have poll: "thread_poll w (sy_threads y ! i) ?s = Inr (ctx, Th_response (Suc n) p,
      (?s\<lparr>se_responses := ?rs\<lparr>rq_waiters := rq_waiters ?rs @ [w]\<rparr>\<rparr>, []), True)"
      using c index by (simp add: ct thread_poll_def item_response_poll_def ctx_get_response_poll_def get_response_poll_def)
    have "thread_implements w i y m m"
      by (rule thread_implementsI [OF poll assms(2,3), where ph = "P_answer n p"])
        (use A(2) c same in \<open>auto simp: seqr_rel_def\<close>)
    with None show ?thesis by simp
  next
    case (Some j)
    let ?p = "case p of Ask q k \<Rightarrow> k (snd (ma_resps m ! j)) | _ \<Rightarrow> p"
    have "snd (rq_items ?rs ! j) = snd (ma_resps m ! j)"
      using position_key(1) [OF Some] by (simp add: items case_prod_beta)
    then have poll: "thread_poll w (sy_threads y ! i) ?s =
        Inr (ctx, Th_start Si_start ?p, (?s\<lparr>se_responses := ?rs\<lparr>rq_items := remove_at j (rq_items ?rs)\<rparr>\<rparr>, []), False)"
      using c index Some by (simp add: ct thread_poll_def item_response_poll_def ctx_get_response_poll_def get_response_poll_def)
    have "thread_implements w i y m ((set_phase i (P_idle ?p) m)\<lparr>ma_resps := remove_at j (ma_resps m)\<rparr>)"
      by (rule thread_implementsI [OF poll assms(2,3), where ph = "P_idle ?p"])
        (use A(2) c assms(4) in \<open>auto simp: seqr_rel_def set_phase_def remove_at_map\<close>)
    with Some show ?thesis by simp
  qed
qed

lemma thread_poll_implements:
  assumes "machine_inv ans m" "sim m y" "i < length (ma_phases m)"
  shows "thread_implements w i y m (phase_step i (ma_phases m ! i) m)"
proof (cases "ma_phases m ! i")
  case (P_idle p)
  note A = sim_at [OF assms(2,3)]
  show ?thesis
  proof (cases p)
    case (Ret a)
    obtain ctx t where ct: "sy_threads y ! i = (ctx, t)" by (cases "sy_threads y ! i")
    with A(3) P_idle Ret have poll: "thread_poll w (sy_threads y ! i) (sy_seqr y) = Inr (ctx, Th_end (Inr a), (sy_seqr y, []), True)"
      by (simp add: thread_poll_def)
    have "thread_implements w i y m (set_phase i (P_end a) m)"
      by (rule thread_implementsI [OF poll assms(2,3), where ph = "P_end a"])
        (use A(2) in \<open>auto simp: seqr_rel_def set_phase_def\<close>)
    with P_idle Ret show ?thesis by simp
  qed (use idle_request_implements [OF assms P_idle] in \<open>simp_all add: P_idle\<close>)
next
  case (P_end a)
  note A = sim_at [OF assms(2,3)]
  have same: "ma_phases m = (ma_phases m)[i := P_end a]" by (rule update_same [OF P_end])
  obtain ctx t where ct: "sy_threads y ! i = (ctx, t)" by (cases "sy_threads y ! i")
  with A(3) P_end have poll: "thread_poll w (sy_threads y ! i) (sy_seqr y) = Inr (ctx, Th_end (Inr a), (sy_seqr y, []), True)"
    by (simp add: thread_poll_def)
  have "thread_implements w i y m m"
    by (rule thread_implementsI [OF poll assms(2,3), where ph = "P_end a"]) (use A(2) same in auto)
  with P_end show ?thesis by simp
qed (use assms asked_implements granted_implements sent_implements answer_implements in metis)+

lemma sim_driver:
  assumes "sim m y" "seqr_rel m' s'" "ma_phases m' = ma_phases m" "driver_rel (ma_driver m') (se_current s') dr"
    and "ma_log m' = ma_log m @ map (\<lambda>(t, q). (t - 1, q)) (driver_work (sy_driver y))"
    and "\<And>i. i < length (ma_phases m) \<Longrightarrow> thread_rel (ma_driver m) (se_slots (sy_seqr y)) (ma_phases m ! i) (sy_threads y ! i) \<Longrightarrow>
      thread_rel (ma_driver m') (se_slots s') (ma_phases m ! i) (sy_threads y ! i)"
  shows "sim m' (y\<lparr>sy_driver := dr, sy_seqr := s', sy_log := sy_log y @ driver_work (sy_driver y)\<rparr>)"
  using assms by (cases "ma_driver m") (auto simp: sim_def list_all2_conv_all_nth)

definition driver_implements :: "('q \<Rightarrow> 'r option) \<Rightarrow> waker \<Rightarrow> ('q, 'r, 'a) seq_system \<Rightarrow> ('q, 'r, 'a) machine \<Rightarrow> ('q, 'r, 'a) machine \<Rightarrow> bool" where
  "driver_implements ans w y m m' \<longleftrightarrow> (\<exists>dr s' ws b. driver_poll ans w (sy_driver y) (sy_seqr y) = Inr (dr, (s', ws), b) \<and>
     sim m' (y\<lparr>sy_driver := dr, sy_seqr := s', sy_log := sy_log y @ driver_work (sy_driver y)\<rparr>) \<and> (m' = m \<longrightarrow> b \<and> ws = []))"

lemma driver_implementsI:
  assumes "driver_poll ans w (sy_driver y) (sy_seqr y) = Inr (dr, (s', ws), b)"
    and "sim m' (y\<lparr>sy_driver := dr, sy_seqr := s', sy_log := sy_log y @ driver_work (sy_driver y)\<rparr>)"
    and "ma_driver m' = ma_driver m \<Longrightarrow> b \<and> ws = []" "driver_step ans m = m'"
  shows "driver_implements ans w y m (driver_step ans m)"
proof -
  have "driver_step ans m = m \<Longrightarrow> b \<and> ws = []" using assms(3,4) by metis
  with assms(1,2,4) show ?thesis unfolding driver_implements_def by blast
qed

lemma driver_idle_implements:
  assumes "machine_inv ans m" "sim m y" "ma_driver m = D_idle"
  shows "driver_implements ans w y m (driver_step ans m)"
proof -
  let ?s = "sy_seqr y"
  have A: "seqr_rel m ?s" "se_current ?s = None" "sy_driver y \<in> {Dr_next Gni_start, Dr_next Gni_queue}"
    using assms(2,3) by (simp_all add: sim_def)
  then have gq: "driver_poll ans w (sy_driver y) ?s = (case gni_queue w ?s of
      Inl e \<Rightarrow> Inl e | Inr (sw, st', Pending) \<Rightarrow> Inr (Dr_next st', sw, True)
    | Inr (sw, st', Ready item) \<Rightarrow> Inr (Dr_work (fst item) (snd item), sw, False))"
    by (auto simp: driver_poll_def get_next_item_poll_def)
  show ?thesis
  proof (cases "ma_queue m")
    case Nil
    let ?s' = "?s\<lparr>se_queue := (se_queue ?s)\<lparr>q_get_waiters := q_get_waiters (se_queue ?s) @ [w]\<rparr>\<rparr>"
    have poll: "driver_poll ans w (sy_driver y) ?s = Inr (Dr_next Gni_queue, (?s', []), True)"
      using A(1) Nil by (simp add: gq gni_queue_def get_poll_def seqr_rel_def)
    have "sim m (y\<lparr>sy_driver := Dr_next Gni_queue, sy_seqr := ?s', sy_log := sy_log y @ driver_work (sy_driver y)\<rparr>)"
      by (rule sim_driver [OF assms(2)]) (use A assms(3) in \<open>auto simp: seqr_rel_def\<close>)
    then show ?thesis by (rule driver_implementsI [OF poll]) (simp_all add: driver_step_def assms(3) Nil)
  next
    case (Cons n ns)
    have "\<exists>l p. l < length (ma_phases m) \<and> ma_phases m ! l = P_asked n p"
      using machine_invD(1) [OF assms(1)] Cons by (auto simp: owned_def)
    then obtain l p where l: "l < length (ma_phases m)" "ma_phases m ! l = P_asked n p" by blast
    note free = sim_slots_free [OF assms(1) l(1), of n]
    obtain ctx t where ct: "sy_threads y ! l = (ctx, t)" by (cases "sy_threads y ! l")
    have c: "\<not> ev_is_set (sl_ready (se_slots ?s n))" using sim_at(3) [OF assms(2) l(1)] l(2) ct by simp
    let ?sl = "se_slots ?s n"
    let ?s1 = "?s\<lparr>se_queue := (se_queue ?s)\<lparr>q_buf := ns, q_put_waiters := []\<rparr>\<rparr>"
    let ?s2 = "upd_slot ?s1 n (\<lambda>sl. sl\<lparr>sl_granted := fst (event_set (sl_granted ?sl))\<rparr>)"
    let ?s' = "upd_slot ?s2 n (\<lambda>sl. sl\<lparr>sl_ready := (sl_ready ?sl)\<lparr>ev_waiters := ev_waiters (sl_ready ?sl) @ [w]\<rparr>\<rparr>)"
    let ?m' = "m\<lparr>ma_driver := D_ready n, ma_queue := ns\<rparr>"
    have poll: "driver_poll ans w (sy_driver y) ?s = Inr (Dr_next (Gni_ready n),
        (?s', q_put_waiters (se_queue ?s) @ ev_waiters (sl_granted ?sl)), True)"
      using A(1) Cons c
      by (simp add: gq gni_queue_def get_poll_def wake_putters_def seqr_rel_def set_granted_def event_set_def gni_ready_def)
    have "sim ?m' (y\<lparr>sy_driver := Dr_next (Gni_ready n), sy_seqr := ?s', sy_log := sy_log y @ driver_work (sy_driver y)\<rparr>)"
    proof (rule sim_driver [OF assms(2)])
      fix i
      assume i: "i < length (ma_phases m)" "thread_rel (ma_driver m) (se_slots ?s) (ma_phases m ! i) (sy_threads y ! i)"
      show "thread_rel (ma_driver ?m') (se_slots ?s') (ma_phases m ! i) (sy_threads y ! i)"
      proof (cases "i = l")
        case True
        with i(2) l(2) ct show ?thesis by (simp add: event_set_def)
      next
        case False
        from i(2) show ?thesis by (rule thread_rel_frame) (use free i(1) False l(2) assms(3) in auto)
      qed
    qed (use A Cons in \<open>auto simp: seqr_rel_def\<close>)
    then show ?thesis by (rule driver_implementsI [OF poll]) (simp_all add: driver_step_def assms(3) Cons)
  qed
qed

lemma driver_ready_implements:
  assumes "machine_inv ans m" "sim m y" "ma_driver m = D_ready n"
  shows "driver_implements ans w y m (driver_step ans m)"
proof -
  let ?s = "sy_seqr y"
  have A: "seqr_rel m ?s" "se_current ?s = None" "sy_driver y = Dr_next (Gni_ready n)"
    using assms(2,3) by (simp_all add: sim_def)
  have n: "n < ma_next m" using machine_invD(2) [OF assms(1)] assms(3) by (simp add: bounded_def)
  obtain l p where l: "l < length (ma_phases m)" "ma_phases m ! l \<in> {P_asked n p, P_granted n p, P_sent n p}"
    using machine_invD(1) [OF assms(1)] assms(3) unfolding owned_def by blast
  then have sl: "slot_of (ma_phases m ! l) = Some n" by auto
  note free = sim_slots_free [OF assms(1) l(1) sl]
  obtain ctx t where ct: "sy_threads y ! l = (ctx, t)" by (cases "sy_threads y ! l")
  note B = sim_at(3) [OF assms(2) l(1)]
  let ?sl = "se_slots ?s n"
  show ?thesis
  proof (cases "ma_phases m ! l = P_sent n p")
    case False
    then have "sent_item n (ma_phases m) = None"
      by (intro sent_item_none [OF machine_invD(3) [OF assms(1)] l(1) sl]) (use l(2) in auto)
    then have step: "driver_step ans m = m" using assms(3) by (simp add: driver_step_def)
    have nr: "\<not> ev_is_set (sl_ready ?sl)" using B ct l(2) False by auto
    let ?s' = "upd_slot ?s n (\<lambda>sl. sl\<lparr>sl_ready := (sl_ready ?sl)\<lparr>ev_waiters := ev_waiters (sl_ready ?sl) @ [w]\<rparr>\<rparr>)"
    have poll: "driver_poll ans w (sy_driver y) ?s = Inr (Dr_next (Gni_ready n), (?s', []), True)"
      using nr by (simp add: A(3) driver_poll_def get_next_item_poll_def gni_ready_def)
    have "sim m (y\<lparr>sy_driver := Dr_next (Gni_ready n), sy_seqr := ?s', sy_log := sy_log y @ driver_work (sy_driver y)\<rparr>)"
    proof (rule sim_driver [OF assms(2)])
      fix i
      assume i: "i < length (ma_phases m)" "thread_rel (ma_driver m) (se_slots ?s) (ma_phases m ! i) (sy_threads y ! i)"
      show "thread_rel (ma_driver m) (se_slots ?s') (ma_phases m ! i) (sy_threads y ! i)"
      proof (cases "i = l")
        case True
        with i(2) l(2) ct False show ?thesis by auto
      next
        case False
        from i(2) show ?thesis by (rule thread_rel_frame) (use free i(1) False in auto)
      qed
    qed (use A assms(3) in \<open>auto simp: seqr_rel_def\<close>)
    then show ?thesis by (rule driver_implementsI [OF poll]) (simp_all add: step assms(3))
  next
    case True
    have "head_item p \<noteq> None" using machine_invD(4) [OF assms(1) l(1)] True by simp
    then obtain q where q: "head_item p = Some q" by blast
    with sent_item_unique [OF machine_invD(3) [OF assms(1)] l(1) True]
    have step: "driver_step ans m = m\<lparr>ma_driver := D_work n q\<rparr>" using assms(3) by (simp add: driver_step_def)
    have r: "ev_is_set (sl_ready ?sl)" "sl_payload ?sl = Some q" using B ct True assms(3) q by auto
    let ?s' = "(upd_slot ?s n (\<lambda>sl. sl\<lparr>sl_payload := None\<rparr>))\<lparr>se_current := Some n\<rparr>"
    have poll: "driver_poll ans w (sy_driver y) ?s = Inr (Dr_work (Suc n) q, (?s', []), False)"
      using r A(1) n by (simp add: A(3) driver_poll_def get_next_item_poll_def gni_ready_def seqr_rel_def)
    have "sim (m\<lparr>ma_driver := D_work n q\<rparr>) (y\<lparr>sy_driver := Dr_work (Suc n) q, sy_seqr := ?s', sy_log := sy_log y @ driver_work (sy_driver y)\<rparr>)"
    proof (rule sim_driver [OF assms(2)])
      fix i
      assume i: "i < length (ma_phases m)" "thread_rel (ma_driver m) (se_slots ?s) (ma_phases m ! i) (sy_threads y ! i)"
      show "thread_rel (ma_driver (m\<lparr>ma_driver := D_work n q\<rparr>)) (se_slots ?s') (ma_phases m ! i) (sy_threads y ! i)"
      proof (cases "i = l")
        case eq: True
        with i(2) ct True assms(3) show ?thesis by auto
      next
        case False
        from i(2) show ?thesis by (rule thread_rel_frame) (use free i(1) False assms(3) in auto)
      qed
    qed (use A(1,3) in \<open>auto simp: seqr_rel_def\<close>)
    then show ?thesis by (rule driver_implementsI [OF poll]) (simp_all add: step assms(3))
  qed
qed

lemma driver_work_implements:
  assumes "machine_inv ans m" "sim m y" "ma_driver m = D_work n q"
  shows "driver_implements ans w y m (driver_step ans m)"
proof -
  let ?s = "sy_seqr y"
  have A: "seqr_rel m ?s" "se_current ?s = Some n" "sy_driver y = Dr_work (Suc n) q"
    using assms(2,3) by (simp_all add: sim_def)
  have n: "n < ma_next m" using machine_invD(2) [OF assms(1)] assms(3) by (simp add: bounded_def)
  obtain l p where l: "l < length (ma_phases m)" "ma_phases m ! l = P_sent n p"
    using machine_invD(1) [OF assms(1)] assms(3) unfolding owned_def by blast
  note free = sim_slots_free [OF assms(1) l(1), of n]
  obtain ctx t where ct: "sy_threads y ! l = (ctx, t)" by (cases "sy_threads y ! l")
  let ?rs = "case ans q of Some r \<Rightarrow> fst (resp_push (se_responses ?s) (Suc n) r) | None \<Rightarrow> se_responses ?s"
  let ?s' = "(upd_slot ?s n (\<lambda>sl. sl\<lparr>sl_done := fst (event_set (sl_done (se_slots ?s n)))\<rparr>))\<lparr>se_current := None, se_responses := ?rs\<rparr>"
  let ?m' = "m\<lparr>ma_driver := D_idle, ma_resps := (case ans q of Some r \<Rightarrow> ma_resps m @ [(n, r)] | None \<Rightarrow> ma_resps m), ma_log := ma_log m @ [(n, q)]\<rparr>"
  have poll: "driver_poll ans w (sy_driver y) ?s = Inr (Dr_next Gni_start,
      (?s', (case ans q of Some r \<Rightarrow> rq_waiters (se_responses ?s) | None \<Rightarrow> []) @ ev_waiters (sl_done (se_slots ?s n))), False)"
    using A(1,2) n by (simp add: A(3) driver_poll_def item_done_def event_set_def seqr_rel_def resp_push_def split: option.split)
  have "sim ?m' (y\<lparr>sy_driver := Dr_next Gni_start, sy_seqr := ?s', sy_log := sy_log y @ driver_work (sy_driver y)\<rparr>)"
  proof (rule sim_driver [OF assms(2)])
    fix i
    assume i: "i < length (ma_phases m)" "thread_rel (ma_driver m) (se_slots ?s) (ma_phases m ! i) (sy_threads y ! i)"
    show "thread_rel (ma_driver ?m') (se_slots ?s') (ma_phases m ! i) (sy_threads y ! i)"
    proof (cases "i = l")
      case True
      with i(2) ct l(2) assms(3) show ?thesis by (auto simp: event_set_def)
    next
      case False
      from i(2) show ?thesis by (rule thread_rel_frame) (use free i(1) False l(2) assms(3) in auto)
    qed
  qed (use A(1,3) in \<open>auto simp: seqr_rel_def resp_push_def split: option.split\<close>)
  then show ?thesis by (rule driver_implementsI [OF poll]) (simp_all add: driver_step_def assms(3))
qed

text \<open>No poll of any participant panics, and each has the effect of the machine's step.\<close>

lemma system_poll_implements:
  assumes "machine_inv ans m" "sim m y"
  shows "\<exists>y'. system_poll ans who y = Inr y' \<and> sim (machine_step ans who m) y' \<and>
    (machine_step ans who m = m \<and> who \<in> tasks (length (ma_phases m)) \<longrightarrow> sy_ready y' = sy_ready y - {who})"
proof (cases who)
  case None
  have "driver_implements ans 0 y m (driver_step ans m)"
    by (cases "ma_driver m")
      (use driver_idle_implements [OF assms] driver_ready_implements [OF assms] driver_work_implements [OF assms] in auto)
  with None show ?thesis by (auto simp: driver_implements_def system_poll_def machine_step_def sim_def requeue_def)
next
  case (Some i)
  have len: "length (sy_threads y) = length (ma_phases m)" using assms(2) by (simp add: sim_def list_all2_conv_all_nth)
  show ?thesis
  proof (cases "i < length (ma_phases m)")
    case True
    from thread_poll_implements [OF assms True, of "Suc i"] Some True len show ?thesis
      by (auto simp: thread_implements_def system_poll_def machine_step_def sim_def requeue_def)
  qed (use Some len assms(2) in \<open>simp add: system_poll_def machine_step_def\<close>)
qed

definition machine_run :: "('q \<Rightarrow> 'r option) \<Rightarrow> task list \<Rightarrow> ('q, 'r, 'a) machine \<Rightarrow> ('q, 'r, 'a) machine" where
  "machine_run ans ws m = fold (machine_step ans) ws m"

lemma machine_run_inv: "machine_inv ans m \<Longrightarrow> machine_inv ans (machine_run ans ws m)"
  unfolding machine_run_def by (induction ws arbitrary: m) (simp_all add: machine_step_inv)

lemma system_run_implements:
  "machine_inv ans m \<Longrightarrow> sim m y \<Longrightarrow> \<exists>y'. system_run ans ws y = Inr y' \<and> sim (machine_run ans ws m) y'"
proof (induction ws arbitrary: m y)
  case Nil
  then show ?case by (simp add: machine_run_def)
next
  case (Cons who ws)
  from system_poll_implements [OF Cons.prems, of who] obtain y1 where
    y1: "system_poll ans who y = Inr y1" "sim (machine_step ans who m) y1" by blast
  from Cons.IH [OF machine_step_inv [OF Cons.prems(1)] y1(2)] y1(1) show ?case by (auto simp: machine_run_def)
qed

section \<open>Every sequence comes to the value of its program\<close>

fun phase_prog :: "('q, 'r, 'a) seq_phase \<Rightarrow> ('q, 'r, 'a) prog" where
  "phase_prog (P_idle p) = p"
| "phase_prog (P_asked n p) = p"
| "phase_prog (P_granted n p) = p"
| "phase_prog (P_sent n p) = p"
| "phase_prog (P_answer n p) = p"
| "phase_prog (P_end a) = Ret a"

text \<open>What is left of the program: a released \<open>Tell\<close> is over.\<close>

lemma response_value:
  assumes "machine_inv ans m" "i < length (ma_phases m)" "ma_phases m ! i = P_answer n p"
    and "position (\<lambda>(k, _). k = n) (ma_resps m) = Some j"
  shows "\<exists>q k. p = Ask q k \<and> ans q = Some (snd (ma_resps m ! j))"
proof -
  note key = position_key [OF assms(4)]
  have "(n, snd (ma_resps m ! j)) \<in> set (ma_resps m)" using key by (metis nth_mem prod.collapse)
  with machine_invD(4) [OF assms(1,2)] assms(3) show ?thesis by auto
qed

lemma phase_step_value:
  assumes "machine_inv ans m" "i < length (ma_phases m)"
  shows "\<exists>ph. ma_phases (phase_step i (ma_phases m ! i) m) = (ma_phases m)[i := ph] \<and>
    eval_prog ans (phase_prog ph) = eval_prog ans (phase_prog (ma_phases m ! i)) \<and>
    (answered ans (phase_prog (ma_phases m ! i)) \<longrightarrow> answered ans (phase_prog ph))"
proof (cases "ma_phases m ! i")
  case (P_idle p)
  then show ?thesis by (cases p) (auto simp: set_phase_def)
next
  case (P_asked n p)
  then show ?thesis using update_same [OF P_asked] by (auto simp: set_phase_def)
next
  case (P_granted n p)
  then show ?thesis by (auto simp: set_phase_def)
next
  case (P_sent n p)
  then show ?thesis using update_same [OF P_sent] by (cases p) (auto simp: set_phase_def)
next
  case (P_answer n p)
  show ?thesis
  proof (cases "position (\<lambda>(k, _). k = n) (ma_resps m)")
    case None
    with P_answer show ?thesis using update_same [OF P_answer] by auto
  next
    case (Some j)
    with response_value [OF assms P_answer Some] P_answer show ?thesis by (auto simp: set_phase_def)
  qed
next
  case (P_end a)
  then show ?thesis using update_same [OF P_end] by auto
qed

lemma machine_step_value:
  assumes "machine_inv ans m"
  shows "map (\<lambda>ph. eval_prog ans (phase_prog ph)) (ma_phases (machine_step ans who m)) = map (\<lambda>ph. eval_prog ans (phase_prog ph)) (ma_phases m)"
    and "list_all (\<lambda>ph. answered ans (phase_prog ph)) (ma_phases m) \<Longrightarrow>
      list_all (\<lambda>ph. answered ans (phase_prog ph)) (ma_phases (machine_step ans who m))"
proof -
  have "\<exists>i ph. (i < length (ma_phases m) \<longrightarrow> eval_prog ans (phase_prog ph) = eval_prog ans (phase_prog (ma_phases m ! i)) \<and>
      (answered ans (phase_prog (ma_phases m ! i)) \<longrightarrow> answered ans (phase_prog ph))) \<and>
      ma_phases (machine_step ans who m) = (ma_phases m)[i := ph]"
  proof (cases "\<exists>i < length (ma_phases m). who = Some i")
    case True
    then obtain i where "i < length (ma_phases m)" "who = Some i" by blast
    with phase_step_value [OF assms this(1)] show ?thesis by (auto simp: machine_step_def)
  next
    case False
    then have "ma_phases (machine_step ans who m) = ma_phases m"
      by (auto simp: machine_step_def driver_step_def split: option.split dphase.split list.split)
    then show ?thesis by (intro exI [of _ "length (ma_phases m)"]) (auto simp: list_update_beyond)
  qed
  then obtain i ph where ph: "i < length (ma_phases m) \<longrightarrow> eval_prog ans (phase_prog ph) = eval_prog ans (phase_prog (ma_phases m ! i)) \<and>
      (answered ans (phase_prog (ma_phases m ! i)) \<longrightarrow> answered ans (phase_prog ph))"
    "ma_phases (machine_step ans who m) = (ma_phases m)[i := ph]" by blast
  show "map (\<lambda>ph. eval_prog ans (phase_prog ph)) (ma_phases (machine_step ans who m)) = map (\<lambda>ph. eval_prog ans (phase_prog ph)) (ma_phases m)"
    using ph by (cases "i < length (ma_phases m)") (auto simp: nth_list_update list_update_beyond intro!: nth_equalityI)
  show "list_all (\<lambda>ph. answered ans (phase_prog ph)) (ma_phases m) \<Longrightarrow>
      list_all (\<lambda>ph. answered ans (phase_prog ph)) (ma_phases (machine_step ans who m))"
    using ph by (cases "i < length (ma_phases m)") (auto simp: list_all_length nth_list_update list_update_beyond)
qed

lemma machine_run_value:
  "machine_inv ans m \<Longrightarrow>
     map (\<lambda>ph. eval_prog ans (phase_prog ph)) (ma_phases (machine_run ans ws m)) = map (\<lambda>ph. eval_prog ans (phase_prog ph)) (ma_phases m)"
  "machine_inv ans m \<Longrightarrow> list_all (\<lambda>ph. answered ans (phase_prog ph)) (ma_phases m) \<Longrightarrow>
     list_all (\<lambda>ph. answered ans (phase_prog ph)) (ma_phases (machine_run ans ws m))"
  unfolding machine_run_def
  by (induction ws arbitrary: m) (simp_all add: machine_step_inv machine_step_value)

section \<open>Progress\<close>

fun ended :: "('q, 'r, 'a) seq_phase \<Rightarrow> bool" where
  "ended (P_end a) = True"
| "ended _ = False"

abbreviation work :: "('q \<Rightarrow> 'r option) \<Rightarrow> ('q, 'r, 'a) prog \<Rightarrow> nat" where
  "work ans p \<equiv> 10 * length (requests ans p)"

fun phase_weight :: "('q \<Rightarrow> 'r option) \<Rightarrow> 'q dphase \<Rightarrow> ('q, 'r, 'a) seq_phase \<Rightarrow> nat" where
  "phase_weight ans d (P_idle p) = work ans p + 1"
| "phase_weight ans d (P_asked n p) = work ans p - (if d = D_ready n then 1 else 0)"
| "phase_weight ans d (P_granted n p) = work ans p - 2"
| "phase_weight ans d (P_sent n p) = work ans p - (if d = D_ready n then 3 else if serves d n then 4 else 5)"
| "phase_weight ans d (P_answer n p) = work ans p - 6"
| "phase_weight ans d (P_end a) = 0"

definition weight :: "('q \<Rightarrow> 'r option) \<Rightarrow> ('q, 'r, 'a) machine \<Rightarrow> nat" where
  "weight ans m = (\<Sum>i < length (ma_phases m). phase_weight ans (ma_driver m) (ma_phases m ! i))"

lemma work_head: "head_item p \<noteq> None \<Longrightarrow> 10 \<le> work ans p"
  by (cases p) auto

lemma weight_decreases:
  assumes "length (ma_phases m') = length (ma_phases m)" "i < length (ma_phases m)"
    and "phase_weight ans (ma_driver m') (ma_phases m' ! i) < phase_weight ans (ma_driver m) (ma_phases m ! i)"
    and "\<And>j. j < length (ma_phases m) \<Longrightarrow> j \<noteq> i \<Longrightarrow>
      phase_weight ans (ma_driver m') (ma_phases m' ! j) = phase_weight ans (ma_driver m) (ma_phases m ! j)"
  shows "weight ans m' < weight ans m"
  unfolding weight_def assms(1)
proof (rule sum_strict_mono_ex1)
  show "\<forall>j \<in> {..<length (ma_phases m)}. phase_weight ans (ma_driver m') (ma_phases m' ! j) \<le> phase_weight ans (ma_driver m) (ma_phases m ! j)"
  proof
    fix j assume "j \<in> {..<length (ma_phases m)}"
    then show "phase_weight ans (ma_driver m') (ma_phases m' ! j) \<le> phase_weight ans (ma_driver m) (ma_phases m ! j)"
      using assms(3,4) by (cases "j = i") auto
  qed
qed (use assms(2,3) in auto)

lemma set_phase_decreases:
  assumes "i < length (ma_phases m)" "ma_phases m' = (ma_phases m)[i := ph]" "ma_driver m' = ma_driver m"
    and "phase_weight ans (ma_driver m) ph < phase_weight ans (ma_driver m) (ma_phases m ! i)"
  shows "weight ans m' < weight ans m"
  by (rule weight_decreases [OF _ assms(1)]) (use assms in auto)

lemma phase_step_progress:
  assumes "machine_inv ans m" "i < length (ma_phases m)" "phase_step i (ma_phases m ! i) m \<noteq> m"
  shows "weight ans (phase_step i (ma_phases m ! i) m) < weight ans m"
proof -
  note ok = machine_invD(4) [OF assms(1,2)]
  show ?thesis
  proof (cases "ma_phases m ! i")
    case (P_idle p)
    then show ?thesis
      using machine_invD(2) [OF assms(1)] assms(2)
      by (cases p) (auto simp: set_phase_def intro!: set_phase_decreases)
  next
    case (P_asked n p)
    with ok work_head [of p ans] assms(2,3) show ?thesis
      by (auto simp: set_phase_def intro!: set_phase_decreases split: if_splits)
  next
    case (P_granted n p)
    with ok work_head [of p ans] assms(2) show ?thesis by (auto simp: set_phase_def intro!: set_phase_decreases)
  next
    case (P_sent n p)
    with ok work_head [of p ans] assms(2,3) show ?thesis
      by (cases p) (auto simp: set_phase_def intro!: set_phase_decreases split: if_splits)
  next
    case (P_answer n p)
    show ?thesis
    proof (cases "position (\<lambda>(k, _). k = n) (ma_resps m)")
      case None
      with P_answer assms(3) show ?thesis by simp
    next
      case (Some j)
      with response_value [OF assms(1,2) P_answer Some] P_answer assms(2) show ?thesis
        by (auto simp: set_phase_def intro!: set_phase_decreases)
    qed
  next
    case (P_end a)
    with assms(3) show ?thesis by simp
  qed
qed

text \<open>Only the request the driver turns to or from changes its weight.\<close>

lemma driver_phase_weight:
  assumes "\<And>n. slot_of ph = Some n \<Longrightarrow> (d' = D_ready n \<longleftrightarrow> d = D_ready n) \<and> (serves d' n \<longleftrightarrow> serves d n)"
  shows "phase_weight ans d' ph = phase_weight ans d ph"
  using assms by (cases ph) auto

lemma driver_step_progress:
  assumes "machine_inv ans m" "driver_step ans m \<noteq> m"
  shows "weight ans (driver_step ans m) < weight ans m"
proof -
  note D = machine_invD [OF assms(1)]
  have phases: "ma_phases (driver_step ans m) = ma_phases m"
    by (auto simp: driver_step_def split: dphase.split list.split option.split)
  have "\<exists>l < length (ma_phases m). \<exists>n. slot_of (ma_phases m ! l) = Some n \<and>
      phase_weight ans (ma_driver (driver_step ans m)) (ma_phases m ! l) < phase_weight ans (ma_driver m) (ma_phases m ! l) \<and>
      (\<forall>k. k \<noteq> n \<longrightarrow> (ma_driver (driver_step ans m) = D_ready k \<longleftrightarrow> ma_driver m = D_ready k) \<and>
         (serves (ma_driver (driver_step ans m)) k \<longleftrightarrow> serves (ma_driver m) k))"
  proof (cases "ma_driver m")
    case D_idle
    with assms(2) obtain n ns where q: "ma_queue m = n # ns" by (auto simp: driver_step_def split: list.splits)
    then have "\<exists>l < length (ma_phases m). \<exists>p. ma_phases m ! l = P_asked n p" using D(1) by (simp add: owned_def)
    then obtain l p where l: "l < length (ma_phases m)" "ma_phases m ! l = P_asked n p" by blast
    moreover have "head_item p \<noteq> None" using D(4) [OF l(1)] l(2) by simp
    ultimately show ?thesis
      using work_head [of p ans] q D_idle by (intro exI [of _ l]) (auto simp: driver_step_def)
  next
    case (D_ready n)
    with assms(2) obtain q where q: "sent_item n (ma_phases m) = Some q" by (auto simp: driver_step_def split: option.splits)
    from sent_item_owner [OF q] obtain l p where l: "l < length (ma_phases m)" "ma_phases m ! l = P_sent n p" "head_item p = Some q"
      by blast
    then show ?thesis using work_head [of p ans] q D_ready by (intro exI [of _ l]) (auto simp: driver_step_def)
  next
    case (D_work n q)
    then obtain l p where l: "l < length (ma_phases m)" "ma_phases m ! l = P_sent n p" using D(1) unfolding owned_def by blast
    moreover have "head_item p \<noteq> None" using D(4) [OF l(1)] l(2) by simp
    ultimately show ?thesis using work_head [of p ans] D_work by (intro exI [of _ l]) (auto simp: driver_step_def)
  qed
  then obtain l n where l: "l < length (ma_phases m)" "slot_of (ma_phases m ! l) = Some n"
    and w: "phase_weight ans (ma_driver (driver_step ans m)) (ma_phases m ! l) < phase_weight ans (ma_driver m) (ma_phases m ! l)"
    and k: "\<forall>k. k \<noteq> n \<longrightarrow> (ma_driver (driver_step ans m) = D_ready k \<longleftrightarrow> ma_driver m = D_ready k) \<and>
         (serves (ma_driver (driver_step ans m)) k \<longleftrightarrow> serves (ma_driver m) k)" by blast
  show ?thesis
  proof (rule weight_decreases [OF _ l(1)])
    fix j assume j: "j < length (ma_phases m)" "j \<noteq> l"
    show "phase_weight ans (ma_driver (driver_step ans m)) (ma_phases (driver_step ans m) ! j) =
        phase_weight ans (ma_driver m) (ma_phases m ! j)"
      unfolding phases by (rule driver_phase_weight) (use k sim_slots_free [OF assms(1) l j] in blast)
  qed (use w phases in simp_all)
qed

lemma machine_step_progress:
  assumes "machine_inv ans m" "machine_step ans who m \<noteq> m"
  shows "weight ans (machine_step ans who m) < weight ans m"
  using assms phase_step_progress [OF assms(1)] driver_step_progress [OF assms(1)]
  by (auto simp: machine_step_def not_le split: option.splits if_splits)

text \<open>While a sequence has not ended, the driver or some sequence can move: what the driver serves is
  never stuck, and a request in the queue waits for the driver.\<close>

lemma sent_moves:
  assumes "machine_inv ans m" "i < length (ma_phases m)" "ma_phases m ! i = P_sent n p"
  shows "machine_step ans None m \<noteq> m \<or> machine_step ans (Some i) m \<noteq> m"
proof (cases "serves (ma_driver m) n")
  case False
  then have "ma_phases (phase_step i (ma_phases m ! i) m) ! i \<noteq> ma_phases m ! i"
    using assms(2,3) by (auto split: prog.split)
  then have "phase_step i (ma_phases m ! i) m \<noteq> m" by metis
  with assms(2) show ?thesis by (simp add: machine_step_def)
next
  case True
  have "head_item p \<noteq> None" using machine_invD(4) [OF assms(1,2)] assms(3) by simp
  then obtain q where "head_item p = Some q" by blast
  with sent_item_unique [OF machine_invD(3) [OF assms(1)] assms(2,3)] True
  have "ma_driver (driver_step ans m) \<noteq> ma_driver m"
    by (cases "ma_driver m") (auto simp: driver_step_def)
  then have "driver_step ans m \<noteq> m" by metis
  then show ?thesis by (simp add: machine_step_def)
qed

lemma phase_moves:
  assumes "i < length (ma_phases m)" "ma_phases (phase_step i (ma_phases m ! i) m) ! i \<noteq> ma_phases m ! i"
  shows "machine_step ans (Some i) m \<noteq> m"
proof -
  have "phase_step i (ma_phases m ! i) m \<noteq> m" using assms(2) by metis
  with assms(1) show ?thesis by (simp add: machine_step_def)
qed

lemma served_moves:
  assumes "machine_inv ans m" "ma_driver m = D_ready n"
  shows "\<exists>who \<in> tasks (length (ma_phases m)). machine_step ans who m \<noteq> m"
proof -
  from machine_invD(1) [OF assms(1)] assms(2) obtain l p where
    l: "l < length (ma_phases m)" "ma_phases m ! l \<in> {P_asked n p, P_granted n p, P_sent n p}" unfolding owned_def by blast
  then consider "ma_phases m ! l = P_sent n p" | "ma_phases m ! l \<in> {P_asked n p, P_granted n p}" by blast
  then show ?thesis
  proof cases
    case 1
    with sent_moves [OF assms(1) l(1)] l(1) show ?thesis by (meson tasks_iff)
  next
    case 2
    with assms(2) l(1) have "machine_step ans (Some l) m \<noteq> m" by (intro phase_moves) auto
    with l(1) show ?thesis by (meson tasks_iff)
  qed
qed

lemma someone_moves:
  assumes "machine_inv ans m" "list_all (\<lambda>ph. answered ans (phase_prog ph)) (ma_phases m)"
    and "i < length (ma_phases m)" "\<not> ended (ma_phases m ! i)"
  shows "\<exists>who \<in> tasks (length (ma_phases m)). machine_step ans who m \<noteq> m"
proof -
  note ok = machine_invD(4) [OF assms(1,3)]
  show ?thesis
  proof (cases "ma_phases m ! i")
    case (P_idle p)
    with assms(3) have "machine_step ans (Some i) m \<noteq> m"
      by (intro phase_moves) (cases p; auto simp: set_phase_def)+
    with assms(3) show ?thesis by (meson tasks_iff)
  next
    case (P_granted n p)
    with ok served_moves [OF assms(1)] show ?thesis by simp
  next
    case (P_sent n p)
    with sent_moves [OF assms(1,3)] assms(3) show ?thesis by (meson tasks_iff)
  next
    case (P_answer n p)
    with ok obtain q k where "p = Ask q k" by auto
    with assms(2,3) P_answer have "ans (the (head_item p)) \<noteq> None" by (auto simp: list_all_length)
    with ok P_answer have "n \<in> fst ` set (ma_resps m)" by simp
    then obtain j where "position (\<lambda>(k, _). k = n) (ma_resps m) = Some j" using position_none [of n "ma_resps m"] by fastforce
    with assms(3) P_answer have "machine_step ans (Some i) m \<noteq> m" by (intro phase_moves) (auto simp: set_phase_def)
    with assms(3) show ?thesis by (meson tasks_iff)
  next
    case (P_asked n p)
    show ?thesis
    proof (cases "ma_driver m")
      case D_idle
      with ok P_asked obtain k ks where "ma_queue m = k # ks" by (cases "ma_queue m") auto
      with D_idle have "ma_driver (machine_step ans None m) \<noteq> ma_driver m" by (simp add: machine_step_def driver_step_def)
      then have "machine_step ans None m \<noteq> m" by metis
      then show ?thesis by (meson tasks_iff)
    next
      case (D_ready k)
      from served_moves [OF assms(1) this] show ?thesis .
    next
      case (D_work k q)
      then have "ma_driver (machine_step ans None m) \<noteq> ma_driver m" by (simp add: machine_step_def driver_step_def)
      then have "machine_step ans None m \<noteq> m" by metis
      then show ?thesis by (meson tasks_iff)
    qed
  next
    case (P_end a)
    with assms(4) show ?thesis by simp
  qed
qed

section \<open>Fair schedules\<close>

text \<open>A round polls the driver and every sequence, in any order and possibly more than once.\<close>

definition full_round :: "nat \<Rightarrow> task list \<Rightarrow> bool" where
  "full_round n ws \<longleftrightarrow> tasks n \<subseteq> set ws"

lemma machine_step_length: "length (ma_phases (machine_step ans who m)) = length (ma_phases m)" if "machine_inv ans m"
  using arg_cong [OF machine_step_value(1) [OF that, of who], of length] by simp

lemma all_ended_stays:
  assumes "list_all ended (ma_phases m)"
  shows "ma_phases (machine_step ans who m) = ma_phases m"
proof (cases who)
  case None
  then show ?thesis by (auto simp: machine_step_def driver_step_def split: dphase.split list.split option.split)
next
  case (Some i)
  show ?thesis
  proof (cases "i < length (ma_phases m)")
    case True
    with assms obtain a where "ma_phases m ! i = P_end a" by (cases "ma_phases m ! i") (auto simp: list_all_length)
    with Some show ?thesis by (simp add: machine_step_def)
  qed (use Some in \<open>simp add: machine_step_def\<close>)
qed

lemma machine_run_length:
  assumes "machine_inv ans m"
  shows "length (ma_phases (machine_run ans ws m)) = length (ma_phases m)"
  using arg_cong [OF machine_run_value(1) [OF assms, of ws], of length] by simp

interpretation seqs: progress_system "machine_step ans"
  "\<lambda>m. machine_inv ans m \<and> list_all (\<lambda>ph. answered ans (phase_prog ph)) (ma_phases m)" "\<lambda>m. list_all ended (ma_phases m)"
  "\<lambda>m. tasks (length (ma_phases m))" "weight ans" for ans :: "'q \<Rightarrow> 'r option"
proof
  fix m :: "('q, 'r, 'a) machine" and who
  assume m: "machine_inv ans m \<and> list_all (\<lambda>ph. answered ans (phase_prog ph)) (ma_phases m)"
  then show "machine_inv ans (machine_step ans who m) \<and> list_all (\<lambda>ph. answered ans (phase_prog ph)) (ma_phases (machine_step ans who m))"
    by (simp add: machine_step_inv machine_step_value)
  show "tasks (length (ma_phases (machine_step ans who m))) = tasks (length (ma_phases m))"
    using m by (simp add: machine_step_length)
  show "machine_step ans who m \<noteq> m \<Longrightarrow> weight ans (machine_step ans who m) < weight ans m"
    using m by (simp add: machine_step_progress)
  show "\<not> list_all ended (ma_phases m) \<Longrightarrow> \<exists>who \<in> tasks (length (ma_phases m)). machine_step ans who m \<noteq> m"
    using m someone_moves [of ans m] by (auto simp: list_all_length)
  show "list_all ended (ma_phases m) \<Longrightarrow> list_all ended (ma_phases (machine_step ans who m))"
    by (simp add: all_ended_stays)
qed

lemma fair_run_ends:
  assumes "machine_inv ans m" "list_all (\<lambda>ph. answered ans (phase_prog ph)) (ma_phases m)"
    and "\<forall>ws \<in> set rounds. full_round (length (ma_phases m)) ws" "weight ans m \<le> length rounds"
  shows "list_all ended (ma_phases (machine_run ans (concat rounds) m))"
  unfolding machine_run_def by (rule seqs.rounds_end) (use assms in \<open>simp_all add: full_round_def\<close>)

section \<open>What reaches the device\<close>

text \<open>The driver works on the requests in the order of their tickets.\<close>

fun in_hand :: "'q dphase \<Rightarrow> nat list" where
  "in_hand D_idle = []"
| "in_hand (D_ready n) = [n]"
| "in_hand (D_work n q) = [n]"

definition log_order :: "('q, 'r, 'a) machine \<Rightarrow> bool" where
  "log_order m \<longleftrightarrow> map fst (ma_log m) @ in_hand (ma_driver m) @ ma_queue m = [0..<ma_next m]"

lemma phase_step_log: "ma_log (phase_step i ph m) = ma_log m" "ma_driver (phase_step i ph m) = ma_driver m"
  by (cases ph; auto split: prog.split option.split)+

lemma phase_step_queue:
  "ma_queue (phase_step i ph m) = ma_queue m @ [ma_next m] \<and> ma_next (phase_step i ph m) = Suc (ma_next m) \<or>
   ma_queue (phase_step i ph m) = ma_queue m \<and> ma_next (phase_step i ph m) = ma_next m"
  by (cases ph) (auto split: prog.split option.split)

lemma log_order_step: "log_order m \<Longrightarrow> log_order (machine_step ans who m)"
proof (cases who)
  case None
  assume "log_order m"
  with None show ?thesis
    by (cases "ma_driver m")
      (auto simp: log_order_def machine_step_def driver_step_def split: list.split option.split)
next
  case (Some i)
  assume "log_order m"
  with Some phase_step_queue [of i "ma_phases m ! i" m] show ?thesis
    by (auto simp: log_order_def machine_step_def phase_step_log simp flip: append_assoc)
qed

lemma log_order_old: "log_order m \<Longrightarrow> x \<in> set (ma_log m) \<Longrightarrow> fst x < ma_next m"
proof -
  assume "log_order m" "x \<in> set (ma_log m)"
  then have "fst x \<in> set [0..<ma_next m]" unfolding log_order_def by (metis Un_iff imageI list.set_map set_append)
  then show "fst x < ma_next m" by simp
qed

text \<open>The items a sequence still has to have worked on.\<close>

fun left_items :: "('q \<Rightarrow> 'r option) \<Rightarrow> 'q dphase \<Rightarrow> ('q, 'r, 'a) seq_phase \<Rightarrow> 'q list" where
  "left_items ans d (P_idle p) = requests ans p"
| "left_items ans d (P_asked n p) = requests ans p"
| "left_items ans d (P_granted n p) = requests ans p"
| "left_items ans d (P_sent n p) = (if serves d n then requests ans p else tl (requests ans p))"
| "left_items ans d (P_answer n p) = tl (requests ans p)"
| "left_items ans d (P_end a) = []"

abbreviation items_of :: "(nat \<Rightarrow> nat) \<Rightarrow> nat \<Rightarrow> (nat \<times> 'q) list \<Rightarrow> 'q list" where
  "items_of own i log \<equiv> map snd (filter (\<lambda>x. own (fst x) = i) log)"

definition logged :: "('q \<Rightarrow> 'r option) \<Rightarrow> ('q, 'r, 'a) prog list \<Rightarrow> (nat \<Rightarrow> nat) \<Rightarrow> ('q, 'r, 'a) machine \<Rightarrow> bool" where
  "logged ans ps own m \<longleftrightarrow> length (ma_phases m) = length ps \<and> (\<forall>x \<in> set (ma_log m). own (fst x) < length ps) \<and>
     (\<forall>i < length ps. (\<forall>n. slot_of (ma_phases m ! i) = Some n \<longrightarrow> own n = i) \<and>
        items_of own i (ma_log m) @ left_items ans (ma_driver m) (ma_phases m ! i) = requests ans (ps ! i))"

lemma logged_phase:
  assumes "logged ans ps own m" "i < length ps" "ma_phases m' = (ma_phases m)[i := ph]" "ma_log m' = ma_log m" "ma_driver m' = ma_driver m"
    and "slot_of ph \<in> {None, slot_of (ma_phases m ! i)}"
    and "left_items ans (ma_driver m) ph = left_items ans (ma_driver m) (ma_phases m ! i)"
  shows "logged ans ps own m'"
  using assms by (auto simp: logged_def nth_list_update)

lemma logged_request:
  assumes "machine_inv ans m" "log_order m" "logged ans ps own m" "i < length ps" "ma_phases m ! i = P_idle p"
  shows "logged ans ps (own(ma_next m := i))
    ((set_phase i (P_asked (ma_next m) p) m)\<lparr>ma_queue := ma_queue m @ [ma_next m], ma_next := Suc (ma_next m)\<rparr>)"
proof -
  have len: "length (ma_phases m) = length ps" using assms(3) by (simp add: logged_def)
  define own' where "own' = own(ma_next m := i)"
  then have own': "own' (ma_next m) = i" "\<And>n. n \<noteq> ma_next m \<Longrightarrow> own' n = own n" by simp_all
  have same: "filter (\<lambda>x. own' (fst x) = j) (ma_log m) = filter (\<lambda>x. own (fst x) = j) (ma_log m)" for j
    by (rule filter_cong) (use log_order_old [OF assms(2)] own' in fastforce)+
  have old: "n \<noteq> ma_next m" if "j < length ps" "slot_of (ma_phases m ! j) = Some n" for j n
    using slot_old [OF assms(1)] that len by fastforce
  have log: "own' (fst x) = own (fst x)" if "x \<in> set (ma_log m)" for x
    using own'(2) log_order_old [OF assms(2) that] by simp
  have "logged ans ps own' ((set_phase i (P_asked (ma_next m) p) m)\<lparr>ma_queue := ma_queue m @ [ma_next m], ma_next := Suc (ma_next m)\<rparr>)"
    using assms(3-5) old own' log by (auto simp: logged_def same set_phase_def nth_list_update)
  then show ?thesis by (simp add: own'_def)
qed

lemma logged_phase_step:
  assumes "machine_inv ans m" "log_order m" "logged ans ps own m" "i < length ps"
  shows "\<exists>own'. logged ans ps own' (phase_step i (ma_phases m ! i) m)"
proof -
  have i: "i < length (ma_phases m)" using assms(3,4) by (simp add: logged_def)
  note keep = logged_phase [OF assms(3,4)]
  note ok = machine_invD(4) [OF assms(1) i]
  show ?thesis
  proof (cases "ma_phases m ! i")
    case (P_idle p)
    show ?thesis
    proof (cases p)
      case (Ret a)
      with P_idle have "logged ans ps own (phase_step i (ma_phases m ! i) m)"
        by (intro keep [where ph = "P_end a"]) (auto simp: set_phase_def)
      then show ?thesis by blast
    qed (use logged_request [OF assms P_idle] in \<open>auto simp: P_idle\<close>)
  next
    case (P_asked n p)
    with assms(3) have "logged ans ps own (phase_step i (ma_phases m ! i) m)"
      by (auto simp: set_phase_def intro!: keep [where ph = "P_granted n p"])
    then show ?thesis by blast
  next
    case (P_granted n p)
    with ok have "logged ans ps own (phase_step i (ma_phases m ! i) m)"
      by (intro keep [where ph = "P_sent n p"]) (auto simp: set_phase_def)
    then show ?thesis by blast
  next
    case (P_sent n p)
    with assms(3) ok have "logged ans ps own (phase_step i (ma_phases m ! i) m)"
      by (cases p)
        (auto simp: set_phase_def intro!: keep [where ph = "case p of Tell q p' \<Rightarrow> P_idle p' | _ \<Rightarrow> P_answer n p"])
    then show ?thesis by blast
  next
    case (P_answer n p)
    show ?thesis
    proof (cases "position (\<lambda>(k, _). k = n) (ma_resps m)")
      case None
      with P_answer assms(3) show ?thesis by auto
    next
      case (Some j)
      with response_value [OF assms(1) i P_answer Some] P_answer have "logged ans ps own (phase_step i (ma_phases m ! i) m)"
        by (intro keep [where ph = "P_idle (case p of Ask q k \<Rightarrow> k (snd (ma_resps m ! j)) | _ \<Rightarrow> p)"]) (auto simp: set_phase_def)
      then show ?thesis by blast
    qed
  next
    case (P_end a)
    with assms(3) show ?thesis by auto
  qed
qed

lemma left_items_driver:
  assumes "\<And>n. slot_of ph = Some n \<Longrightarrow> serves d' n \<longleftrightarrow> serves d n"
  shows "left_items ans d' ph = left_items ans d ph"
  using assms by (cases ph) auto

lemma logged_work:
  assumes "machine_inv ans m" "logged ans ps own m" "ma_driver m = D_work n q"
  shows "logged ans ps own (driver_step ans m)"
proof -
  note D = machine_invD [OF assms(1)]
  have len: "length (ma_phases m) = length ps" using assms(2) by (simp add: logged_def)
  obtain l p where l: "l < length (ma_phases m)" "ma_phases m ! l = P_sent n p" using D(1) assms(3) unfolding owned_def by blast
  have own: "own n = l" using assms(2) l len by (simp add: logged_def)
  have head: "head_item p = Some q" using D(4) [OF l(1)] l(2) assms(3) by simp
  have "items_of own i (ma_log m @ [(n, q)]) @ left_items ans D_idle (ma_phases m ! i) = requests ans (ps ! i)"
    if i: "i < length ps" for i
  proof -
    have old: "items_of own i (ma_log m) @ left_items ans (ma_driver m) (ma_phases m ! i) = requests ans (ps ! i)"
      using assms(2) i by (simp add: logged_def)
    show ?thesis
    proof (cases "i = l")
      case True
      then have "left_items ans (ma_driver m) (ma_phases m ! i) = q # left_items ans D_idle (ma_phases m ! i)"
        using l(2) head assms(3) by (cases p) simp_all
      with old True own show ?thesis by simp
    next
      case False
      have "left_items ans D_idle (ma_phases m ! i) = left_items ans (ma_driver m) (ma_phases m ! i)"
        by (rule left_items_driver) (use sim_slots_free [OF assms(1) l(1), of n i] l(2) i len False assms(3) in auto)
      with old False own show ?thesis by simp
    qed
  qed
  with assms(2) own l(1) len show ?thesis
    by (auto simp: logged_def driver_step_def assms(3))
qed

lemma logged_driver_step:
  assumes "machine_inv ans m" "logged ans ps own m"
  shows "logged ans ps own (driver_step ans m)"
proof (cases "\<exists>n q. ma_driver m = D_work n q")
  case True
  then show ?thesis using logged_work [OF assms] by blast
next
  case False
  note D = machine_invD [OF assms(1)]
  have "left_items ans (ma_driver (driver_step ans m)) (ma_phases m ! i) = left_items ans (ma_driver m) (ma_phases m ! i)"
    if i: "i < length (ma_phases m)" for i
  proof (cases "\<exists>n p. ma_phases m ! i = P_sent n p \<and> n \<in> set (ma_queue m)")
    case True
    with D(4) [OF i] show ?thesis by auto
  next
    case sent: False
    then show ?thesis
      using False by (cases "ma_phases m ! i"; cases "ma_driver m") (auto simp: driver_step_def split: list.split option.split)
  qed
  moreover have "ma_phases (driver_step ans m) = ma_phases m" "ma_log (driver_step ans m) = ma_log m"
    using False by (auto simp: driver_step_def split: dphase.splits list.split option.split)
  ultimately show ?thesis using assms(2) by (simp add: logged_def)
qed

lemma logged_step:
  assumes "machine_inv ans m" "log_order m" "logged ans ps own m"
  shows "\<exists>own'. logged ans ps own' (machine_step ans who m)"
proof (cases who)
  case None
  with logged_driver_step [OF assms(1,3)] show ?thesis by (auto simp: machine_step_def)
next
  case (Some i)
  have "length (ma_phases m) = length ps" using assms(3) by (simp add: logged_def)
  with Some logged_phase_step [OF assms, of i] assms(3) show ?thesis by (auto simp: machine_step_def not_le)
qed

lemma logged_run:
  assumes "machine_inv ans m" "log_order m" "logged ans ps own m"
  shows "log_order (machine_run ans ws m) \<and> (\<exists>own'. logged ans ps own' (machine_run ans ws m))"
  using assms unfolding machine_run_def
proof (induction ws arbitrary: m own)
  case (Cons who ws)
  from logged_step [OF Cons.prems, of who] obtain own' where "logged ans ps own' (machine_step ans who m)" by blast
  from Cons.IH [OF machine_step_inv [OF Cons.prems(1)] log_order_step [OF Cons.prems(2)] this] show ?case by simp
qed auto

lemma logged_start: "logged ans ps own (machine_start ps)" "log_order (machine_start ps)"
  by (simp_all add: logged_def machine_start_def log_order_def)

section \<open>The system\<close>

lemma sim_ended:
  assumes "sim m y" "i < length (ma_phases m)"
  shows "snd (sy_threads y ! i) = Th_end r \<longleftrightarrow> (\<exists>a. r = Inr a \<and> ma_phases m ! i = P_end a)"
  using sim_at(3) [OF assms] by (cases "ma_phases m ! i"; cases "sy_threads y ! i") auto

lemma ended_value:
  assumes "machine_inv ans m" "i < length (ma_phases m)" "ma_phases (machine_run ans ws m) ! i = P_end a"
  shows "a = eval_prog ans (phase_prog (ma_phases m ! i))"
  using arg_cong [OF machine_run_value(1) [OF assms(1), of ws], of "\<lambda>xs. xs ! i"] assms(2,3) machine_run_length [OF assms(1), of ws]
  by simp

text \<open>The machine a system starts as, and the number of rounds that is enough.\<close>

lemma machine_start_at:
  "i < length ps \<Longrightarrow> ma_phases (machine_start ps) ! i = P_idle (ps ! i)" "length (ma_phases (machine_start ps)) = length ps"
  by (simp_all add: machine_start_def)

definition enough_rounds :: "('q \<Rightarrow> 'r option) \<Rightarrow> ('q, 'r, 'a) prog list \<Rightarrow> nat" where
  "enough_rounds ans ps = (\<Sum>p \<leftarrow> ps. 10 * length (requests ans p) + 1)"

lemma weight_start: "weight ans (machine_start ps) = enough_rounds ans ps"
  by (simp add: weight_def machine_start_def enough_rounds_def sum_list_sum_nth atLeast0LessThan)

text \<open>Every run of the system shows a run of the machine.\<close>

lemma system_run_shows:
  "\<exists>y. system_run ans ms (system_start ps) = Inr y \<and> sim (machine_run ans (ms) (machine_start (map (snd \<circ> snd) ps))) y"
  by (rule system_run_implements [OF machine_start_inv sim_start])

lemma run_length: "length (ma_phases (machine_run ans ws (machine_start ps))) = length ps"
  by (simp add: machine_run_length [OF machine_start_inv] machine_start_at)

lemma run_ended_value:
  assumes "sim (machine_run ans ws (machine_start (map (snd \<circ> snd) ps))) y" "i < length ps" "snd (sy_threads y ! i) = Th_end r"
  shows "r = Inr (eval_prog ans (snd (snd (ps ! i))))"
  using ended_value [OF machine_start_inv, of i "map (snd \<circ> snd) ps" ans ws] sim_ended [OF assms(1), of i r] assms(2,3)
  by (auto simp: machine_start_at run_length)

lemma sim_threads_length: "sim m y \<Longrightarrow> length (sy_threads y) = length (ma_phases m)"
  by (simp add: sim_def list_all2_conv_all_nth)

definition fair :: "nat \<Rightarrow> nat \<Rightarrow> task list \<Rightarrow> bool" where
  "fair n k ws \<longleftrightarrow> (\<exists>rounds. ws = concat rounds \<and> k \<le> length rounds \<and> list_all (full_round n) rounds)"

lemma fair_system_ends:
  assumes "\<And>i. i < length ps \<Longrightarrow> answered ans (snd (snd (ps ! i)))"
    and "fair (length ps) (enough_rounds ans (map (snd \<circ> snd) ps)) ws"
    and "sim (machine_run ans ws (machine_start (map (snd \<circ> snd) ps))) y" "i < length ps"
  shows "snd (sy_threads y ! i) = Th_end (Inr (eval_prog ans (snd (snd (ps ! i)))))"
proof -
  let ?m = "machine_start (map (snd \<circ> snd) ps)"
  from assms(2) obtain rounds where r: "ws = concat rounds" "enough_rounds ans (map (snd \<circ> snd) ps) \<le> length rounds"
    "list_all (full_round (length ps)) rounds" by (auto simp: fair_def)
  have "list_all ended (ma_phases (machine_run ans ws ?m))"
    unfolding r(1)
    by (rule fair_run_ends [OF machine_start_inv])
      (use assms(1) r(2,3) in \<open>auto simp: list_all_length machine_start_at weight_start in_set_conv_nth\<close>)
  then obtain a where "ma_phases (machine_run ans ws ?m) ! i = P_end a"
    using assms(4) by (cases "ma_phases (machine_run ans ws ?m) ! i") (auto simp: list_all_length run_length)
  then have "snd (sy_threads y ! i) = Th_end (Inr a)" using sim_ended [OF assms(3), of i "Inr a"] assms(4) by (simp add: run_length)
  with run_ended_value [OF assms(3,4) this] show ?thesis by simp
qed

lemma upt_prefix: "xs @ ys = [0..<n] \<Longrightarrow> xs = [0..<length xs]"
  by (metis append_eq_conv_conj le_add1 length_append length_upt minus_nat.diff_0 plus_nat.add_0 take_upt)

lemma run_log:
  assumes "sim (machine_run ans ws (machine_start ps)) y"
  shows "map fst (sy_log y) = [1..<Suc (length (sy_log y))] \<and>
    (\<exists>own. (\<forall>x \<in> set (sy_log y). own (fst x) < length ps) \<and>
      (\<forall>i < length ps. \<exists>rest. items_of own i (sy_log y) @ rest = requests ans (ps ! i) \<and>
         (\<forall>r. snd (sy_threads y ! i) = Th_end r \<longrightarrow> rest = [])))"
proof -
  let ?m = "machine_run ans ws (machine_start ps)"
  have log: "sy_log y = map (\<lambda>(n, q). (Suc n, q)) (ma_log ?m)" using assms by (simp add: sim_def)
  from logged_run [OF machine_start_inv logged_start(2,1)] obtain own where
    o: "log_order ?m" "logged ans ps own ?m" by blast
  have "map fst (ma_log ?m) = [0..<length (map fst (ma_log ?m))]"
    using o(1) unfolding log_order_def by (rule upt_prefix)
  moreover have "map fst (sy_log y) = map Suc (map fst (ma_log ?m))" by (simp add: log case_prod_unfold)
  ultimately have "map fst (sy_log y) = map Suc [0..<length (ma_log ?m)]" by simp
  then have fst: "map fst (sy_log y) = [1..<Suc (length (sy_log y))]" by (simp add: log map_Suc_upt)
  let ?own = "\<lambda>t. own (t - 1)"
  have items: "items_of ?own i (sy_log y) = items_of own i (ma_log ?m)" for i
    unfolding log by (simp add: filter_map comp_def case_prod_unfold)
  have "\<exists>rest. items_of ?own i (sy_log y) @ rest = requests ans (ps ! i) \<and> (\<forall>r. snd (sy_threads y ! i) = Th_end r \<longrightarrow> rest = [])"
    if i: "i < length ps" for i
  proof (intro exI conjI allI impI)
    show "items_of ?own i (sy_log y) @ left_items ans (ma_driver ?m) (ma_phases ?m ! i) = requests ans (ps ! i)"
      unfolding items using o(2) i by (simp add: logged_def)
    show "left_items ans (ma_driver ?m) (ma_phases ?m ! i) = []" if "snd (sy_threads y ! i) = Th_end r" for r
      using that sim_ended [OF assms, of i r] i by (auto simp: run_length)
  qed
  moreover have "\<forall>x \<in> set (sy_log y). ?own (fst x) < length ps" using o(2) by (auto simp: log logged_def)
  ultimately show ?thesis using fst by (intro conjI exI [of _ ?own]) simp_all
qed

definition fair_schedule :: "nat \<Rightarrow> nat \<Rightarrow> task list" where
  "fair_schedule n k = concat (replicate k (None # map Some [0..<n]))"

lemma fair_schedule_fair: "fair n k (fair_schedule n k)"
proof -
  have "list_all (full_round n) (replicate k (None # map Some [0..<n]))"
    by (auto simp: list_all_iff full_round_def tasks_def)
  then show ?thesis unfolding fair_def fair_schedule_def by (intro exI conjI) simp_all
qed

text \<open>Two sequences on a driver that adds one: one waits for the answer, the other does not.\<close>

definition demo_answer :: "nat \<Rightarrow> nat option" where
  "demo_answer q = Some (q + 1)"

definition demo_programs :: "(string \<times> u64 \<times> (nat, nat, nat) prog) list" where
  "demo_programs = [(''ask'', 1, Ask 4 Ret), (''tell'', 1, Tell 7 (Ret 0))]"

definition first_value :: "('q, 'r, 'a) seq_system may_panic \<Rightarrow> 'a option" where
  "first_value r = (case r of Inl e \<Rightarrow> None | Inr y \<Rightarrow>
     (case sy_threads y of [] \<Rightarrow> None | t # ts \<Rightarrow> (case snd t of Th_end (Inr a) \<Rightarrow> Some a | _ \<Rightarrow> None)))"

lemma demo_first_value: "first_value (system_run demo_answer (fair_schedule 2 9) (system_start demo_programs)) = Some 5"
  by code_simp

section \<open>Properties\<close>

text \<open>C20: However the polls of the sequences and of the driver are interleaved, no sequence and no driver
  ever panics on the sequencer, none ends with an error, and a sequence that has ended returned exactly what its
  body computes when each request is given the driver's answer for that very item: no answer is lost,
  doubled or handed to another sequence.\<close>

theorem interleaving_is_transparent:
  "\<exists>y. system_run ans ms (system_start ps) = Inr y \<and> length (sy_threads y) = length ps \<and>
     (\<forall>i r. i < length ps \<and> snd (sy_threads y ! i) = Th_end r \<longrightarrow> r = Inr (eval_prog ans (snd (snd (ps ! i)))))"
proof -
  from system_run_shows obtain y where y: "system_run ans ms (system_start ps) = Inr y"
    "sim (machine_run ans (ms) (machine_start (map (snd \<circ> snd) ps))) y" by blast
  with run_ended_value [OF y(2)] show ?thesis by (auto simp: sim_threads_length [OF y(2)] run_length)
qed

theorem interleaving_is_transparent_witness:
  "\<exists>y. system_run demo_answer (fair_schedule 2 9) (system_start demo_programs) = Inr y \<and> snd (sy_threads y ! 0) = Th_end (Inr 5)"
proof -
  from interleaving_is_transparent [of demo_answer "fair_schedule 2 9" demo_programs] obtain y where
    y: "system_run demo_answer (fair_schedule 2 9) (system_start demo_programs) = Inr y"
    "\<forall>i r. i < length demo_programs \<and> snd (sy_threads y ! i) = Th_end r \<longrightarrow> r = Inr (eval_prog demo_answer (snd (snd (demo_programs ! i))))"
    by blast
  from demo_first_value y(1) have "\<exists>r. snd (sy_threads y ! 0) = Th_end r"
    by (auto simp: first_value_def split: list.splits thread.splits sum.splits)
  then obtain r where r: "snd (sy_threads y ! 0) = Th_end r" by blast
  have "0 < length demo_programs" by (simp add: demo_programs_def)
  with y(2) r have "r = Inr (eval_prog demo_answer (snd (snd (demo_programs ! 0))))" by blast
  with y(1) r show ?thesis by (simp add: demo_programs_def demo_answer_def)
qed

text \<open>C21: The driver works on every item exactly once and in the order of the tickets, which are given out
  without gaps; sorted by the sequence that asked, what it worked on is at every moment an initial part of
  what that sequence's body asks for, in the body's order, and all of it when the sequence has ended.\<close>

theorem items_reach_the_device_once:
  "\<exists>y own. system_run ans ms (system_start ps) = Inr y \<and> map fst (sy_log y) = [1..<Suc (length (sy_log y))] \<and>
     (\<forall>x \<in> set (sy_log y). own (fst x) < length ps) \<and>
     (\<forall>i < length ps. \<exists>rest. items_of own i (sy_log y) @ rest = requests ans (snd (snd (ps ! i))) \<and>
        (\<forall>r. snd (sy_threads y ! i) = Th_end r \<longrightarrow> rest = []))"
proof -
  from system_run_shows obtain y where y: "system_run ans ms (system_start ps) = Inr y"
    "sim (machine_run ans (ms) (machine_start (map (snd \<circ> snd) ps))) y" by blast
  from run_log [OF y(2)] obtain own where o: "\<forall>x \<in> set (sy_log y). own (fst x) < length ps"
    "\<forall>i < length ps. \<exists>rest. items_of own i (sy_log y) @ rest = requests ans (snd (snd (ps ! i))) \<and>
        (\<forall>r. snd (sy_threads y ! i) = Th_end r \<longrightarrow> rest = [])" by auto
  from y(1) run_log [OF y(2)] o show ?thesis by blast
qed

theorem items_reach_the_device_once_witness:
  "\<exists>y own rest. system_run demo_answer (fair_schedule 2 9) (system_start demo_programs) = Inr y \<and>
     items_of own 0 (sy_log y) @ rest = requests demo_answer (Ask 4 Ret)"
proof -
  have "0 < length demo_programs" "snd (snd (demo_programs ! 0)) = Ask 4 Ret" by (simp_all add: demo_programs_def)
  with items_reach_the_device_once [of demo_answer "fair_schedule 2 9" demo_programs] show ?thesis by metis
qed

text \<open>No sequence starves and nothing deadlocks: when the driver answers what the sequences wait for,
  every schedule that polls the driver and every sequence often enough, in any order, with any wakers, ends
  with every sequence finished, each with the value of its body.\<close>

theorem fair_schedules_finish:
  assumes "\<And>i. i < length ps \<Longrightarrow> answered ans (snd (snd (ps ! i)))"
    and "fair (length ps) (enough_rounds ans (map (snd \<circ> snd) ps)) (ms)"
  shows "\<exists>y. system_run ans ms (system_start ps) = Inr y \<and>
     map snd (sy_threads y) = map (\<lambda>(name, seed, p). Th_end (Inr (eval_prog ans p))) ps"
proof -
  from system_run_shows obtain y where y: "system_run ans ms (system_start ps) = Inr y"
    "sim (machine_run ans (ms) (machine_start (map (snd \<circ> snd) ps))) y" by blast
  have "map snd (sy_threads y) = map (\<lambda>(name, seed, p). Th_end (Inr (eval_prog ans p))) ps"
    by (intro nth_equalityI)
      (use fair_system_ends [OF assms y(2)] in \<open>auto simp: case_prod_beta sim_threads_length [OF y(2)] run_length\<close>)
  with y(1) show ?thesis by blast
qed

theorem fair_schedules_finish_witness:
  "\<exists>y. system_run demo_answer (fair_schedule 2 22) (system_start demo_programs) = Inr y \<and>
     map snd (sy_threads y) = [Th_end (Inr 5), Th_end (Inr 0)]"
proof -
  have "answered demo_answer (snd (snd (demo_programs ! i)))" if "i < length demo_programs" for i
    using that by (cases i) (auto simp: demo_programs_def demo_answer_def)
  note ok = this
  have "fair (length demo_programs) (enough_rounds demo_answer (map (snd \<circ> snd) demo_programs)) (fair_schedule 2 22)"
    using fair_schedule_fair [of 2 22] by (simp add: enough_rounds_def demo_programs_def numeral_2_eq_2)
  from fair_schedules_finish [OF ok this] show ?thesis by (simp add: demo_programs_def demo_answer_def)
qed

end
