(* ===== verification/Seq_Wakeups.thy ===== *)
theory Seq_Wakeups
  imports Seq_System
begin

text \<open>
  The sequencer under the executor. A task that is suspended is polled again only when its waker has been
  called, so the handshake works only if nobody's wake-up is lost. Every operation of
  \<open>rustdv-methodology/src/sequence.rs\<close> is shown to call or keep the wakers that are parked on the events, the
  queue and the responses; hence a task that could go on is always ready, and the executor, whatever
  order it polls the ready tasks in, comes to rest only when every sequence has ended.
\<close>

section \<open>Wakers are called or kept\<close>

definition ev_keeps :: "waker list \<Rightarrow> event \<Rightarrow> event \<Rightarrow> bool" where
  "ev_keeps ws e e' \<longleftrightarrow> (\<forall>w. \<not> ev_is_set e \<and> w \<in> set (ev_waiters e) \<longrightarrow>
     w \<in> set ws \<or> (\<not> ev_is_set e' \<and> w \<in> set (ev_waiters e')))"

definition slot_keeps :: "waker list \<Rightarrow> 'q item_slot \<Rightarrow> 'q item_slot \<Rightarrow> bool" where
  "slot_keeps ws sl sl' \<longleftrightarrow> ev_keeps ws (sl_granted sl) (sl_granted sl') \<and> ev_keeps ws (sl_ready sl) (sl_ready sl') \<and>
     ev_keeps ws (sl_done sl) (sl_done sl')"

definition queue_keeps :: "waker list \<Rightarrow> nat qinner \<Rightarrow> nat qinner \<Rightarrow> bool" where
  "queue_keeps ws q q' \<longleftrightarrow> (\<forall>w. q_buf q = [] \<and> w \<in> set (q_get_waiters q) \<longrightarrow>
     w \<in> set ws \<or> (q_buf q' = [] \<and> w \<in> set (q_get_waiters q')))"

definition resp_keeps :: "waker list \<Rightarrow> 'r resp_queue \<Rightarrow> 'r resp_queue \<Rightarrow> bool" where
  "resp_keeps ws q q' \<longleftrightarrow> (\<forall>w t. t \<notin> fst ` set (rq_items q) \<and> w \<in> set (rq_waiters q) \<longrightarrow>
     w \<in> set ws \<or> (t \<notin> fst ` set (rq_items q') \<and> w \<in> set (rq_waiters q')))"

definition keeps :: "waker list \<Rightarrow> ('q, 'r) seqr_inner \<Rightarrow> ('q, 'r) seqr_inner \<Rightarrow> bool" where
  "keeps ws s s' \<longleftrightarrow> (\<forall>n < se_alloc s. slot_keeps ws (se_slots s n) (se_slots s' n)) \<and>
     queue_keeps ws (se_queue s) (se_queue s') \<and> resp_keeps ws (se_responses s) (se_responses s')"

lemma ev_keeps_simps [simp]:
  "ev_keeps ws e e" "ev_keeps ws e (e\<lparr>ev_waiters := ev_waiters e @ [w]\<rparr>)"
  by (auto simp: ev_keeps_def)

lemma ev_keeps_set: "set (ev_waiters e) \<subseteq> set ws \<Longrightarrow> ev_keeps ws e e'"
  by (auto simp: ev_keeps_def)

lemma slot_keeps_refl [simp]: "slot_keeps ws sl sl"
  by (simp add: slot_keeps_def)

lemma queue_keeps_refl [simp]: "queue_keeps ws q q"
  by (simp add: queue_keeps_def)

lemma resp_keeps_refl [simp]: "resp_keeps ws q q"
  by (simp add: resp_keeps_def)

lemma keeps_refl [simp]: "keeps ws s s"
  by (simp add: keeps_def)

lemma event_poll_pending: "event_poll e w = (e', Pending) \<longleftrightarrow> \<not> ev_is_set e \<and> e' = e\<lparr>ev_waiters := ev_waiters e @ [w]\<rparr>"
  by (auto simp: event_poll_def)

lemma event_poll_ready: "event_poll e w = (e', Ready u) \<longleftrightarrow> ev_is_set e \<and> e' = e"
  by (auto simp: event_poll_def)

lemmas event_poll_cases = event_poll_pending event_poll_ready

lemma start_item_keeps:
  assumes "start_item_poll w st ctx s = Inr (ctx', (s', ws), st', r)"
  shows "keeps ws s s'"
  using assms
  by (auto simp: start_item_poll_def si_put_def si_granted_def put_poll_def wake_getters_def Let_def event_poll_cases keeps_def
      slot_keeps_def queue_keeps_def split: si.splits if_splits option.splits prod.splits poll.splits)

lemma finish_item_keeps:
  assumes "finish_item_poll w st ctx s = Inr (ctx', (s', ws), st', r)"
  shows "keeps ws s s'"
  using assms
  by (auto simp: finish_item_poll_def fi_done_def event_set_def event_poll_cases keeps_def slot_keeps_def ev_keeps_set
      split: fi.splits option.splits prod.splits poll.splits)

lemma gni_ready_keeps:
  assumes "gni_ready w n s ws0 = Inr ((s', ws), st', r)"
  shows "ws = ws0 \<and> keeps ws s s'"
  using assms
  by (auto simp: gni_ready_def event_poll_cases keeps_def slot_keeps_def split: option.splits prod.splits poll.splits)

lemma next_item_keeps:
  assumes "get_next_item_poll w st s = Inr ((s', ws), st', r)"
  shows "keeps ws s s'"
  using assms
  by (auto simp: get_next_item_poll_def gni_queue_def gni_ready_def get_poll_def wake_putters_def set_granted_def event_set_def
      event_poll_cases keeps_def slot_keeps_def queue_keeps_def ev_keeps_set
      split: gni.splits if_splits list.splits option.splits prod.splits poll.splits)

lemma item_done_keeps:
  assumes "item_done s rsp = Inr (s', ws)"
  shows "keeps ws s s'"
  using assms
  by (auto simp: item_done_def resp_push_def event_set_def keeps_def slot_keeps_def resp_keeps_def ev_keeps_set Let_def
      split: option.splits)

lemma response_keeps:
  assumes "ctx_get_response_poll w txn ctx s = Inr (s', r)"
  shows "keeps ws s s'"
  using assms remove_at_subset
  by (fastforce simp: ctx_get_response_poll_def get_response_poll_def keeps_def resp_keeps_def split: if_splits option.splits)

section \<open>Suspended tasks wait for something\<close>

fun thread_waits :: "waker \<Rightarrow> ('q, 'r) seqr_inner \<Rightarrow> ('q, 'r, 'a) thread \<Rightarrow> bool" where
  "thread_waits w s (Th_start (Si_granted n) p) \<longleftrightarrow>
     \<not> ev_is_set (sl_granted (se_slots s n)) \<and> w \<in> set (ev_waiters (sl_granted (se_slots s n)))"
| "thread_waits w s (Th_finish (Fi_done n) p) \<longleftrightarrow>
     \<not> ev_is_set (sl_done (se_slots s n)) \<and> w \<in> set (ev_waiters (sl_done (se_slots s n)))"
| "thread_waits w s (Th_response tid p) \<longleftrightarrow>
     tid \<notin> fst ` set (rq_items (se_responses s)) \<and> w \<in> set (rq_waiters (se_responses s))"
| "thread_waits w s (Th_end r) = True"
| "thread_waits w s t = False"

fun driver_waits :: "waker \<Rightarrow> ('q, 'r) seqr_inner \<Rightarrow> 'q driver \<Rightarrow> bool" where
  "driver_waits w s (Dr_next Gni_queue) \<longleftrightarrow> q_buf (se_queue s) = [] \<and> w \<in> set (q_get_waiters (se_queue s))"
| "driver_waits w s (Dr_next (Gni_ready n)) \<longleftrightarrow>
     \<not> ev_is_set (sl_ready (se_slots s n)) \<and> w \<in> set (ev_waiters (sl_ready (se_slots s n)))"
| "driver_waits w s d = False"

fun task_waits :: "('q, 'r, 'a) seq_system \<Rightarrow> task \<Rightarrow> bool" where
  "task_waits y None = driver_waits (waker_of None) (sy_seqr y) (sy_driver y)"
| "task_waits y (Some i) = thread_waits (waker_of (Some i)) (sy_seqr y) (snd (sy_threads y ! i))"

definition rested :: "('q, 'r, 'a) seq_system \<Rightarrow> bool" where
  "rested y \<longleftrightarrow> (\<forall>who \<in> tasks (length (sy_threads y)). who \<in> sy_ready y \<or> task_waits y who)"

lemma thread_poll_keeps:
  assumes "thread_poll w ct s = Inr (ctx', t', (s', ws), b)"
  shows "keeps ws s s'"
  using assms
  by (auto simp: thread_poll_def item_start_poll_def item_finish_poll_def item_response_poll_def dest: start_item_keeps finish_item_keeps response_keeps
      split: thread.splits prog.splits sum.splits prod.splits poll.splits)

lemma driver_poll_keeps:
  assumes "driver_poll ans w d s = Inr (d', (s', ws), b)"
  shows "keeps ws s s'"
  using assms
  by (auto simp: driver_poll_def dest: next_item_keeps item_done_keeps split: driver.splits sum.splits prod.splits poll.splits)

text \<open>A task that is suspended by its poll has left its waker where it waits.\<close>

lemma start_item_waits:
  assumes "start_item_poll w st ctx s = Inr (ctx', (s', ws), st', Pending)" "q_cap (se_queue s) = None"
  shows "thread_waits w s' (Th_start st' p)"
  using assms
  by (auto simp: start_item_poll_def si_put_def si_granted_def put_poll_def queue_has_space_def wake_getters_def Let_def event_poll_cases
      split: si.splits if_splits option.splits prod.splits poll.splits)

lemma finish_item_waits:
  assumes "finish_item_poll w st ctx s = Inr (ctx', (s', ws), st', Pending)"
  shows "thread_waits w s' (Th_finish st' p)"
  using assms
  by (auto simp: finish_item_poll_def fi_done_def event_set_def event_poll_cases
      split: fi.splits option.splits prod.splits poll.splits)

lemma response_waits:
  assumes "ctx_get_response_poll w (Some tid) ctx s = Inr (s', Pending)"
  shows "thread_waits w s' (Th_response tid p)"
  using assms
  by (auto simp: ctx_get_response_poll_def get_response_poll_def resp_index_def position_None_iff split: if_splits option.splits)

lemma thread_poll_waits:
  assumes "thread_poll w ct s = Inr (ctx', t', (s', ws), True)" "q_cap (se_queue s) = None"
  shows "thread_waits w s' t'"
  using assms
  by (cases ct; cases "snd ct")
    (auto simp: thread_poll_def item_start_poll_def item_finish_poll_def item_response_poll_def
      dest: start_item_waits finish_item_waits response_waits split: prog.splits sum.splits prod.splits poll.splits)

lemma driver_poll_waits:
  assumes "driver_poll ans w d s = Inr (d', (s', ws), True)"
  shows "driver_waits w s' d'"
  using assms
  by (auto simp: driver_poll_def get_next_item_poll_def gni_queue_def gni_ready_def get_poll_def wake_putters_def set_granted_def
      event_set_def event_poll_cases
      split: driver.splits sum.splits gni.splits if_splits list.splits option.splits prod.splits poll.splits)

text \<open>A waiting task keeps waiting or is woken, whatever the others do.\<close>

fun thread_slot :: "('q, 'r, 'a) thread \<Rightarrow> nat option" where
  "thread_slot (Th_start (Si_granted n) p) = Some n"
| "thread_slot (Th_finish (Fi_done n) p) = Some n"
| "thread_slot t = None"

lemma keeps_slot:
  assumes "keeps ws s s'" "n < se_alloc s"
  shows "ev_keeps ws (sl_granted (se_slots s n)) (sl_granted (se_slots s' n))" "ev_keeps ws (sl_ready (se_slots s n)) (sl_ready (se_slots s' n))"
    "ev_keeps ws (sl_done (se_slots s n)) (sl_done (se_slots s' n))"
  using assms by (simp_all add: keeps_def slot_keeps_def)

lemma thread_waits_kept:
  assumes "keeps ws s s'" "thread_waits w s t" "\<And>n. thread_slot t = Some n \<Longrightarrow> n < se_alloc s"
  shows "w \<in> set ws \<or> thread_waits w s' t"
  using assms keeps_slot [OF assms(1)]
  by (cases "(w, s, t)" rule: thread_waits.cases) (auto simp: ev_keeps_def keeps_def resp_keeps_def)

lemma driver_waits_kept:
  assumes "keeps ws s s'" "driver_waits w s d" "\<And>n. d = Dr_next (Gni_ready n) \<Longrightarrow> n < se_alloc s"
  shows "w \<in> set ws \<or> driver_waits w s' d"
  using assms keeps_slot [OF assms(1)]
  by (cases "(w, s, d)" rule: driver_waits.cases) (auto simp: ev_keeps_def keeps_def queue_keeps_def)

lemma sim_thread_slot:
  assumes "machine_inv ans m" "sim m y" "i < length (ma_phases m)" "thread_slot (snd (sy_threads y ! i)) = Some n"
  shows "n < se_alloc (sy_seqr y)"
proof -
  have "se_alloc (sy_seqr y) = ma_next m" using sim_at(2) [OF assms(2,3)] by (simp add: seqr_rel_def)
  moreover have "slot_of (ma_phases m ! i) = Some n"
    using sim_at(3) [OF assms(2,3)] assms(4) by (cases "ma_phases m ! i"; cases "sy_threads y ! i") auto
  ultimately show ?thesis using slot_old [OF assms(1,3)] by simp
qed

lemma sim_driver_slot:
  assumes "machine_inv ans m" "sim m y" "sy_driver y = Dr_next (Gni_ready n)"
  shows "ma_driver m = D_ready n" "n < se_alloc (sy_seqr y)"
proof -
  show d: "ma_driver m = D_ready n" using assms(2,3) by (cases "ma_driver m") (auto simp: sim_def)
  with machine_invD(2) [OF assms(1)] assms(2) show "n < se_alloc (sy_seqr y)" by (simp add: bounded_def sim_def seqr_rel_def)
qed

lemma task_waits_kept:
  assumes "machine_inv ans m" "sim m y" "who \<in> tasks (length (sy_threads y))" "task_waits y who"
    and "keeps ws (sy_seqr y) s'"
  shows "waker_of who \<in> set ws \<or> (case who of None \<Rightarrow> driver_waits (waker_of who) s' (sy_driver y)
    | Some i \<Rightarrow> thread_waits (waker_of who) s' (snd (sy_threads y ! i)))"
proof (cases who)
  case None
  with driver_waits_kept [OF assms(5), of "waker_of who" "sy_driver y"] assms(4) sim_driver_slot(2) [OF assms(1,2)]
  show ?thesis by simp
next
  case (Some i)
  then have "i < length (ma_phases m)" using assms(2,3) by (simp add: sim_threads_length)
  with thread_waits_kept [OF assms(5), of "waker_of who" "snd (sy_threads y ! i)"] assms(4) sim_thread_slot [OF assms(1,2)] Some
  show ?thesis by simp
qed

lemma requeue_iff:
  "who' \<in> requeue who b ws rdy \<longleftrightarrow> (if who' = who then \<not> b else who' \<in> rdy) \<or> who' \<in> task_of ` set ws"
  by (auto simp: requeue_def)

lemma task_of_waker [simp]: "task_of (waker_of who) = who"
  by (cases who) simp_all

lemma woken_ready: "waker_of who' \<in> set ws \<Longrightarrow> who' \<in> requeue who b ws rdy"
  unfolding requeue_iff by (metis image_eqI task_of_waker)

lemma rested_poll:
  assumes "machine_inv ans m" "sim m y" "rested y" "system_poll ans who y = Inr y'"
  shows "rested y'"
proof (cases who)
  case None
  then obtain d s' ws b where p: "driver_poll ans (waker_of None) (sy_driver y) (sy_seqr y) = Inr (d, (s', ws), b)"
    and y': "y' = y\<lparr>sy_driver := d, sy_seqr := s', sy_log := sy_log y @ driver_work (sy_driver y), sy_ready := requeue who b ws (sy_ready y)\<rparr>"
    using assms(4) by (auto simp: system_poll_def split: sum.splits prod.splits)
  have "k \<in> sy_ready y' \<or> task_waits y' k" if k: "k \<in> tasks (length (sy_threads y))" for k
  proof (cases "k = None")
    case True
    with p driver_poll_waits [of ans "waker_of None" "sy_driver y" "sy_seqr y" d s' ws] assms(3) k show ?thesis
      by (cases b) (auto simp: y' requeue_iff rested_def None)
  next
    case False
    show ?thesis
    proof (cases "k \<in> sy_ready y")
      case True
      with False show ?thesis by (auto simp: y' requeue_iff None)
    next
      case nr: False
      with assms(3) k have "task_waits y k" by (auto simp: rested_def)
      from task_waits_kept [OF assms(1,2) k this driver_poll_keeps [OF p]] False show ?thesis
        by (cases k) (auto simp: y' woken_ready)
    qed
  qed
  then show ?thesis by (simp add: rested_def y')
next
  case (Some i)
  show ?thesis
  proof (cases "i < length (sy_threads y)")
    case True
    then obtain ctx t s' ws b where p: "thread_poll (waker_of (Some i)) (sy_threads y ! i) (sy_seqr y) = Inr (ctx, t, (s', ws), b)"
      and y': "y' = y\<lparr>sy_threads := (sy_threads y)[i := (ctx, t)], sy_seqr := s', sy_ready := requeue who b ws (sy_ready y)\<rparr>"
      using assms(4) Some by (auto simp: system_poll_def split: sum.splits prod.splits)
    have cap: "q_cap (se_queue (sy_seqr y)) = None" using assms(2) by (simp add: sim_def seqr_rel_def)
    have "k \<in> sy_ready y' \<or> task_waits y' k" if k: "k \<in> tasks (length (sy_threads y))" for k
    proof (cases "k = Some i")
      case eq: True
      with p thread_poll_waits [of "waker_of (Some i)" "sy_threads y ! i" "sy_seqr y" ctx t s' ws] cap assms(3) k True show ?thesis
        by (cases b) (auto simp: y' requeue_iff rested_def Some)
    next
      case False
      show ?thesis
      proof (cases "k \<in> sy_ready y")
        case True
        with False show ?thesis by (auto simp: y' requeue_iff Some)
      next
        case nr: False
        with assms(3) k have "task_waits y k" by (auto simp: rested_def)
        from task_waits_kept [OF assms(1,2) k this thread_poll_keeps [OF p]] False show ?thesis
          by (cases k) (auto simp: y' woken_ready)
      qed
    qed
    then show ?thesis by (simp add: rested_def y')
  next
    case False
    with assms(3,4) Some show ?thesis by (simp add: system_poll_def)
  qed
qed

section \<open>A waiting task could not go on\<close>

lemma thread_waits_stuck:
  assumes "sim m y" "i < length (ma_phases m)" "thread_waits w (sy_seqr y) (snd (sy_threads y ! i))"
  shows "phase_step i (ma_phases m ! i) m = m"
proof -
  note A = sim_at [OF assms(1,2)]
  obtain ctx t where ct: "sy_threads y ! i = (ctx, t)" by (cases "sy_threads y ! i")
  show ?thesis
  proof (cases "ma_phases m ! i")
    case (P_answer n p)
    with A(3) assms(3) ct have "Suc n \<notin> fst ` set (rq_items (se_responses (sy_seqr y)))" by simp
    then have "n \<notin> fst ` set (ma_resps m)" using A(2) by (force simp: seqr_rel_def)
    with P_answer show ?thesis using position_none [of n "ma_resps m"] by simp
  qed (use A(3) assms(3) ct in auto)
qed

lemma driver_waits_stuck:
  assumes "sim m y" "driver_waits w (sy_seqr y) (sy_driver y)"
  shows "driver_step ans m = m"
proof (cases "ma_driver m")
  case D_idle
  with assms show ?thesis by (auto simp: sim_def seqr_rel_def driver_step_def)
next
  case (D_ready n)
  have "sent_item n (ma_phases m) = None"
  proof (rule ccontr)
    assume "sent_item n (ma_phases m) \<noteq> None"
    then obtain q where "sent_item n (ma_phases m) = Some q" by blast
    from sent_item_owner [OF this] obtain j p where j: "j < length (ma_phases m)" "ma_phases m ! j = P_sent n p" by blast
    obtain ctx t where "sy_threads y ! j = (ctx, t)" by (cases "sy_threads y ! j")
    with sim_at(3) [OF assms(1) j(1)] j(2) have "ev_is_set (sl_ready (se_slots (sy_seqr y) n))" by simp
    with assms D_ready show False by (simp add: sim_def)
  qed
  with D_ready show ?thesis by (simp add: driver_step_def)
next
  case (D_work n q)
  with assms show ?thesis by (simp add: sim_def)
qed

lemma task_waits_stuck:
  assumes "sim m y" "who \<in> tasks (length (ma_phases m))" "task_waits y who"
  shows "machine_step ans who m = m"
proof (cases who)
  case None
  with driver_waits_stuck [OF assms(1)] assms(3) show ?thesis by (simp add: machine_step_def)
next
  case (Some i)
  with thread_waits_stuck [OF assms(1), of i] assms(2,3) show ?thesis by (simp add: machine_step_def)
qed

lemma rested_start: "rested (system_start ps)"
  by (simp add: rested_def system_start_def)

lemma system_run_rested:
  assumes "machine_inv ans m" "sim m y" "rested y" "system_run ans ws y = Inr y'"
  shows "rested y'"
  using assms
proof (induction ws arbitrary: m y)
  case (Cons who ws)
  from system_poll_implements [OF Cons.prems(1,2), of who] obtain y1 where
    y1: "system_poll ans who y = Inr y1" "sim (machine_step ans who m) y1" by blast
  from Cons.IH [OF machine_step_inv [OF Cons.prems(1)] y1(2) rested_poll [OF Cons.prems(1-3) y1(1)]] Cons.prems(4) y1(1)
  show ?case by simp
qed simp

section \<open>The executor's runs\<close>

definition mass :: "('q \<Rightarrow> 'r option) \<Rightarrow> ('q, 'r, 'a) machine \<Rightarrow> ('q, 'r, 'a) seq_system \<Rightarrow> nat" where
  "mass ans m y = weight ans m * (length (ma_phases m) + 2) + card (sy_ready y \<inter> tasks (length (ma_phases m)))"

lemma card_tasks: "card (A \<inter> tasks n) \<le> n + 1" "finite (tasks n)"
proof -
  show f: "finite (tasks n)" by (simp add: tasks_def)
  have "card (A \<inter> tasks n) \<le> card (tasks n)" by (rule card_mono [OF f]) simp
  also have "\<dots> \<le> Suc (card (Some ` {..<n}))" unfolding tasks_def by (rule card_insert_le_m1) simp_all
  also have "\<dots> = n + 1" by (simp add: card_image)
  finally show "card (A \<inter> tasks n) \<le> n + 1" .
qed

lemma executor_step_mass:
  assumes "machine_inv ans m" "sim m y" "who \<in> sy_ready y \<inter> tasks (length (ma_phases m))" "system_poll ans who y = Inr y'"
  shows "mass ans (machine_step ans who m) y' < mass ans m y"
proof -
  let ?n = "length (ma_phases m)"
  have len: "length (ma_phases (machine_step ans who m)) = ?n" by (rule machine_step_length [OF assms(1)])
  show ?thesis
  proof (cases "machine_step ans who m = m")
    case True
    with system_poll_implements [OF assms(1,2), of who] assms(3,4) have r: "sy_ready y' = sy_ready y - {who}" by simp
    have "sy_ready y' \<inter> tasks ?n \<subset> sy_ready y \<inter> tasks ?n" using assms(3) by (auto simp: r)
    then have "card (sy_ready y' \<inter> tasks ?n) < card (sy_ready y \<inter> tasks ?n)" by (rule psubset_card_mono [rotated]) (simp add: card_tasks)
    with True show ?thesis by (simp add: mass_def)
  next
    case False
    then have "weight ans (machine_step ans who m) + 1 \<le> weight ans m" using machine_step_progress [OF assms(1)] by (simp add: Suc_leI)
    then have "(weight ans (machine_step ans who m) + 1) * (?n + 2) \<le> weight ans m * (?n + 2)" by (rule mult_right_mono) simp
    moreover have "card (sy_ready y' \<inter> tasks ?n) \<le> ?n + 1" by (rule card_tasks)
    ultimately show ?thesis unfolding mass_def len by (simp add: algebra_simps)
  qed
qed

lemma executor_run_bounded:
  assumes "machine_inv ans m" "sim m y" "executor_run ans ws y"
  shows "length ws \<le> mass ans m y"
  using assms
proof (induction ws arbitrary: m y)
  case (Cons who ws)
  from system_poll_implements [OF Cons.prems(1,2), of who] obtain y1 where
    y1: "system_poll ans who y = Inr y1" "sim (machine_step ans who m) y1" by blast
  have who: "who \<in> sy_ready y \<inter> tasks (length (ma_phases m))"
    using Cons.prems(3) sim_threads_length [OF Cons.prems(2)] by simp
  have "executor_run ans ws y1" using Cons.prems(3) y1(1) by simp
  from Cons.IH [OF machine_step_inv [OF Cons.prems(1)] y1(2) this] executor_step_mass [OF Cons.prems(1,2) who y1(1)]
  show ?case by simp
qed simp

lemma executor_run_snoc:
  "executor_run ans ws y \<Longrightarrow> system_run ans ws y = Inr y' \<Longrightarrow> who \<in> sy_ready y' \<inter> tasks (length (sy_threads y')) \<Longrightarrow>
     system_poll ans who y' = Inr y'' \<Longrightarrow> executor_run ans (ws @ [who]) y"
  by (induction ws arbitrary: y) (auto split: sum.splits)

lemma waiting_poll:
  assumes "machine_inv ans m" "sim m y" "i < length (ma_phases m)" "thread_waits v (sy_seqr y) (snd (sy_threads y ! i))"
  shows "\<exists>s'. thread_poll w (sy_threads y ! i) (sy_seqr y) = Inr (fst (sy_threads y ! i), snd (sy_threads y ! i), (s', []), True)"
proof -
  note A = sim_at [OF assms(2,3)]
  note ok = machine_invD(4) [OF assms(1,3)]
  obtain ctx t where ct: "sy_threads y ! i = (ctx, t)" by (cases "sy_threads y ! i")
  show ?thesis
  proof (cases "ma_phases m ! i")
    case (P_asked n p)
    with A(3) assms(4) ct ok show ?thesis
      by (cases p) (auto simp: thread_poll_def item_start_poll_def start_item_poll_def si_granted_def)
  next
    case (P_sent n p)
    with A(3) assms(4) ct show ?thesis by (auto simp: thread_poll_def item_finish_poll_def finish_item_poll_def fi_done_def)
  next
    case (P_answer n p)
    with A(3) assms(4) ct have c: "cx_has_seqr ctx" "t = Th_response (Suc n) p"
      "Suc n \<notin> fst ` set (rq_items (se_responses (sy_seqr y)))" by simp_all
    then have "resp_index (se_responses (sy_seqr y)) (Some (Suc n)) = None"
      using position_none [of "Suc n" "rq_items (se_responses (sy_seqr y))"] by (simp add: resp_index_def)
    with c show ?thesis
      by (simp add: ct thread_poll_def item_response_poll_def ctx_get_response_poll_def get_response_poll_def)
  qed (use A(3) assms(4) ct in \<open>auto simp: thread_poll_def\<close>)
qed

lemma waiting_driver_poll:
  assumes "driver_waits v s d"
  shows "\<exists>s'. driver_poll ans w d s = Inr (d, (s', []), True) \<and> driver_work d = []"
  using assms
  by (cases "(v, s, d)" rule: driver_waits.cases)
    (auto simp: driver_poll_def get_next_item_poll_def gni_queue_def gni_ready_def get_poll_def)

lemma system_run_state:
  assumes "system_run ans ws (system_start ps) = Inr y"
  shows "machine_inv ans (machine_run ans ws (machine_start (map (snd \<circ> snd) ps)))"
    "sim (machine_run ans ws (machine_start (map (snd \<circ> snd) ps))) y" "rested y" "length (sy_threads y) = length ps"
proof -
  show i: "machine_inv ans (machine_run ans ws (machine_start (map (snd \<circ> snd) ps)))" by (rule machine_run_inv [OF machine_start_inv])
  show s: "sim (machine_run ans ws (machine_start (map (snd \<circ> snd) ps))) y" using system_run_shows [of ans ws ps] assms by auto
  show "rested y" by (rule system_run_rested [OF machine_start_inv sim_start rested_start assms])
  show "length (sy_threads y) = length ps" by (simp add: sim_threads_length [OF s] run_length)
qed

lemma rest_ends:
  assumes "system_run ans ws (system_start ps) = Inr y" "\<And>i. i < length ps \<Longrightarrow> answered ans (snd (snd (ps ! i)))"
    and "sy_ready y \<inter> tasks (length ps) = {}" "i < length ps"
  shows "snd (sy_threads y ! i) = Th_end (Inr (eval_prog ans (snd (snd (ps ! i)))))"
proof -
  let ?m = "machine_run ans ws (machine_start (map (snd \<circ> snd) ps))"
  note S = system_run_state [OF assms(1)]
  have len: "length (ma_phases ?m) = length ps" by (simp add: run_length)
  have stuck: "machine_step ans who ?m = ?m" if "who \<in> tasks (length (ma_phases ?m))" for who
    using task_waits_stuck [OF S(2) that] S(3,4) assms(3) that len by (auto simp: rested_def)
  have "list_all (\<lambda>ph. answered ans (phase_prog ph)) (ma_phases ?m)"
    by (rule machine_run_value(2) [OF machine_start_inv]) (use assms(2) in \<open>simp add: list_all_length machine_start_at\<close>)
  from someone_moves [OF S(1) this, of i] stuck assms(4) have "ended (ma_phases ?m ! i)" by (auto simp: len)
  then obtain a where "ma_phases ?m ! i = P_end a" by (cases "ma_phases ?m ! i") auto
  then have "snd (sy_threads y ! i) = Th_end (Inr a)" using sim_ended [OF S(2), of i "Inr a"] assms(4) len by simp
  with run_ended_value [OF S(2) assms(4) this] show ?thesis by simp
qed

text \<open>A complete run of the two demonstration sequences.\<close>

definition demo_run :: "task list" where
  "demo_run = [None, Some 0, None, Some 0, Some 0, None, None, None, Some 0, Some 0, Some 0,
     Some 1, None, Some 1, Some 1, None, None, None, Some 1, Some 1]"

definition ready_after :: "task list \<Rightarrow> task set option" where
  "ready_after ws = (case system_run demo_answer ws (system_start demo_programs) of Inl e \<Rightarrow> None | Inr y \<Rightarrow> Some (sy_ready y))"

section \<open>Properties\<close>

text \<open>C22: No wake-up is lost: at any moment, a task that is suspended and whose waker has not been called
  since could not go on. Polling it all the same finds it waiting at the same place, wakes nobody and
  changes nothing that another task can see.\<close>

theorem no_task_sleeps_through:
  assumes "system_run ans ws (system_start ps) = Inr y" "who \<in> tasks (length ps)" "who \<notin> sy_ready y"
  shows "\<exists>y'. system_poll ans who y = Inr y' \<and> sy_threads y' = sy_threads y \<and> sy_driver y' = sy_driver y \<and>
    sy_log y' = sy_log y \<and> sy_ready y' = sy_ready y"
proof -
  note S = system_run_state [OF assms(1)]
  have waits: "task_waits y who" using S(3,4) assms(2,3) by (auto simp: rested_def)
  show ?thesis
  proof (cases who)
    case None
    with waiting_driver_poll [of "waker_of None" "sy_seqr y" "sy_driver y" ans "waker_of None"] waits assms(3) show ?thesis
      by (auto simp: system_poll_def requeue_def)
  next
    case (Some i)
    then have "i < length (ma_phases (machine_run ans ws (machine_start (map (snd \<circ> snd) ps))))"
      using assms(2) by (simp add: run_length)
    from waiting_poll [OF S(1,2) this, of "waker_of who" "waker_of who"] waits Some assms(2,3) S(4) show ?thesis
      by (auto simp: system_poll_def requeue_def)
  qed
qed

theorem no_task_sleeps_through_witness:
  "\<exists>y y'. system_run demo_answer [None] (system_start demo_programs) = Inr y \<and> system_poll demo_answer None y = Inr y' \<and>
     sy_ready y' = {Some 0, Some 1}"
proof -
  have "ready_after [None] = Some {Some 0, Some 1}" by code_simp
  then obtain y where y: "system_run demo_answer [None] (system_start demo_programs) = Inr y" "sy_ready y = {Some 0, Some 1}"
    by (auto simp: ready_after_def split: sum.splits)
  with no_task_sleeps_through [OF y(1), of None] show ?thesis by auto
qed

text \<open>C19: The executor completes every set of sequences. When the driver answers what they wait for, a run
  that polls only ready tasks, in any order, never panics and has at most a fixed number of polls; it can be
  continued as long as a task is ready, and when none is, every sequence has ended with the value of its
  body. So there is no deadlock, no livelock and no starvation in the handshake.\<close>

theorem executor_completes:
  assumes "\<And>i. i < length ps \<Longrightarrow> answered ans (snd (snd (ps ! i)))" "executor_run ans ws (system_start ps)"
  shows "length ws \<le> enough_rounds ans (map (snd \<circ> snd) ps) * (length ps + 2) + length ps + 1 \<and>
    (\<exists>y. system_run ans ws (system_start ps) = Inr y \<and>
      (\<forall>who \<in> sy_ready y \<inter> tasks (length ps). executor_run ans (ws @ [who]) (system_start ps)) \<and>
      (sy_ready y \<inter> tasks (length ps) = {} \<longrightarrow>
         map snd (sy_threads y) = map (\<lambda>(name, seed, p). Th_end (Inr (eval_prog ans p))) ps))"
proof -
  let ?m = "machine_start (map (snd \<circ> snd) ps)"
  have "mass ans ?m (system_start ps) \<le> enough_rounds ans (map (snd \<circ> snd) ps) * (length ps + 2) + (length ps + 1)"
    using card_tasks(1) [of "sy_ready (system_start ps)" "length ps"] by (simp add: mass_def weight_start machine_start_at)
  with executor_run_bounded [OF machine_start_inv sim_start assms(2)] have b: "length ws \<le>
      enough_rounds ans (map (snd \<circ> snd) ps) * (length ps + 2) + length ps + 1" by simp
  obtain y where y: "system_run ans ws (system_start ps) = Inr y" using system_run_shows [of ans ws ps] by blast
  note S = system_run_state [OF y]
  have "executor_run ans (ws @ [who]) (system_start ps)" if "who \<in> sy_ready y \<inter> tasks (length ps)" for who
  proof -
    from system_poll_implements [OF S(1,2), of who] obtain y' where "system_poll ans who y = Inr y'" by blast
    with executor_run_snoc [OF assms(2) y] that S(4) show ?thesis by simp
  qed
  moreover have "map snd (sy_threads y) = map (\<lambda>(name, seed, p). Th_end (Inr (eval_prog ans p))) ps"
    if "sy_ready y \<inter> tasks (length ps) = {}"
    by (intro nth_equalityI) (use rest_ends [OF y assms(1) that] S(4) in \<open>auto simp: case_prod_beta\<close>)
  ultimately show ?thesis using b y by blast
qed

theorem executor_completes_witness:
  "\<exists>y. system_run demo_answer demo_run (system_start demo_programs) = Inr y \<and> map snd (sy_threads y) = [Th_end (Inr 5), Th_end (Inr 0)]"
proof -
  have "executor_run demo_answer demo_run (system_start demo_programs)" by code_simp
  moreover have "answered demo_answer (snd (snd (demo_programs ! i)))" if "i < length demo_programs" for i
    using that by (cases i) (auto simp: demo_programs_def demo_answer_def)
  moreover have "ready_after demo_run = Some {}" by code_simp
  then obtain y where "system_run demo_answer demo_run (system_start demo_programs) = Inr y" "sy_ready y = {}"
    by (auto simp: ready_after_def split: sum.splits)
  ultimately show ?thesis
    using executor_completes [of demo_programs demo_answer demo_run] by (auto simp: demo_programs_def demo_answer_def)
qed

end
