(* ===== verification/Book_Sequences.thy ===== *)
theory Book_Sequences
  imports Seq_Wakeups Tinyalu_Tb
begin

text \<open>
  The sequence testbenches of the book's examples (\<open>output/examples\<close>, chapters 36, 38 and 39) as programs on the
  sequencer of \<open>Seq_Machine\<close>: the three stimulus patterns, the Fibonacci sequence whose operands are the
  device's earlier answers, the programming interface built on one-operation sequences, and the
  virtual sequences that run others one after the other or side by side. A virtual sequence looks
  its sequencer up in the configuration database first; what the lookup gives is an argument. The device behind the driver
  is an argument too: what \<open>send_op\<close> followed by \<open>get_result\<close> gives for a command. \<open>Book_Bfm\<close> puts the
  TinyALU there.
\<close>

section \<open>The shared crate\<close>

definition alu_prediction :: "u8 \<Rightarrow> u8 \<Rightarrow> ops \<Rightarrow> u16" where
  "alu_prediction a b p =
     (let a' = ucast a :: u16; b' = ucast b in
      case p of Add \<Rightarrow> a' + b' | And \<Rightarrow> a' AND b' | Xor \<Rightarrow> a' XOR b' | Mul \<Rightarrow> a' * b')"

type_synonym cmd_tuple = "u64 \<times> u64 \<times> u64"

definition as_tuple :: "alu_command \<Rightarrow> cmd_tuple" where
  "as_tuple c = (ucast (cmd_a c), ucast (cmd_b c), ops_as_u64 (cmd_op c))"

text \<open>A body ends with an error or with the lines it has logged.\<close>

type_synonym alu_prog = "(alu_command, alu_result, seq_error + string list) prog"

section \<open>The drivers\<close>

text \<open>The driver of chapter 36 fires and forgets; those of chapters 38 and 39 wait for the result, publish
  it and hand it back. What they publish is the result of every item they worked on.\<close>

type_synonym device = "alu_command \<Rightarrow> u64"

definition forgetting_driver :: "alu_command \<Rightarrow> alu_result option" where
  "forgetting_driver cmd = None"

definition answering_driver :: "device \<Rightarrow> alu_command \<Rightarrow> alu_result option" where
  "answering_driver dev cmd = Some \<lparr>res_result = ucast (dev cmd)\<rparr>"

definition published :: "device \<Rightarrow> (nat \<times> alu_command) list \<Rightarrow> u64 list" where
  "published dev log = map (\<lambda>(t, cmd). dev cmd) log"

text \<open>What the scoreboard expects.\<close>

definition predicted :: device where
  "predicted cmd = ucast (alu_prediction (cmd_a cmd) (cmd_b cmd) (cmd_op cmd))"

section \<open>Stimulus\<close>

text \<open>One walk over the operations, the operands decided when the driver is waiting for them; every
  sequence starts a generator of its own from its context's seed.\<close>

fun walk_ops :: "alu_seq \<Rightarrow> ops list \<Rightarrow> rng \<Rightarrow> alu_prog \<Rightarrow> alu_prog" where
  "walk_ops sq [] g k = k"
| "walk_ops sq (p # ps) g k =
     (let (g', cmd) = set_operands sq g \<lparr>cmd_a = 0, cmd_b = 0, cmd_op = p\<rparr> in Tell cmd (walk_ops sq ps g' k))"

definition book_all_ops :: "alu_seq \<Rightarrow> u64 \<Rightarrow> alu_prog \<Rightarrow> alu_prog" where
  "book_all_ops sq seed k = walk_ops sq ops_all (rng_new seed) k"

definition test_all_seq :: "seq_error + unit \<Rightarrow> u64 \<Rightarrow> alu_prog" where
  "test_all_seq seqr seed =
     (case seqr of
        Inl e \<Rightarrow> Ret (Inl e)
      | Inr _ \<Rightarrow> book_all_ops RandomSeq seed (book_all_ops MaxSeq seed (Ret (Inr [''ran random, then max'']))))"

definition test_all_parallel :: "u64 \<Rightarrow> (string \<times> u64 \<times> alu_prog) list" where
  "test_all_parallel seed =
     [(''RandomSeq'', seed, book_all_ops RandomSeq seed (Ret (Inr []))), (''MaxSeq'', seed, book_all_ops MaxSeq seed (Ret (Inr [])))]"

text \<open>What the virtual sequence makes of the two results of the join: the first error, or its line.\<close>

definition after_join :: "seq_error + string list \<Rightarrow> seq_error + string list \<Rightarrow> seq_error + string list" where
  "after_join a b =
     (case a of Inl e \<Rightarrow> Inl e | Inr _ \<Rightarrow> (case b of Inl e \<Rightarrow> Inl e | Inr _ \<Rightarrow> Inr [''ran random and max together'']))"

section \<open>Fibonacci\<close>

definition debug_u16s :: "u16 list \<Rightarrow> string" where
  "debug_u16s xs = ''['' @ concat (case map (\<lambda>x. dec_string (unat x)) xs of
     [] \<Rightarrow> [] | y # ys \<Rightarrow> y # map (\<lambda>z. '', '' @ z) ys) @ '']''"

definition fib_line :: "u16 list \<Rightarrow> string" where
  "fib_line fib = ''Fibonacci Sequence: '' @ debug_u16s fib"

fun fib_loop :: "nat \<Rightarrow> u8 \<Rightarrow> u8 \<Rightarrow> u16 list \<Rightarrow> alu_prog" where
  "fib_loop 0 prev cur fib = Ret (Inr [fib_line fib])"
| "fib_loop (Suc n) prev cur fib =
     Ask \<lparr>cmd_a = prev, cmd_b = cur, cmd_op = Add\<rparr>
       (\<lambda>rsp. let v = res_result rsp in fib_loop n cur (ucast v) (fib @ [v]))"

definition fibonacci_seq :: alu_prog where
  "fibonacci_seq = fib_loop 7 0 1 [0, 1]"

text \<open>The programming interface: one operation as a sequence, and a function for each operation.\<close>

definition op_seq :: "alu_command \<Rightarrow> (u16 option \<Rightarrow> alu_prog) \<Rightarrow> alu_prog" where
  "op_seq cmd k = Ask cmd (\<lambda>rsp. k (Some (res_result rsp)))"

definition do_op :: "u8 \<Rightarrow> u8 \<Rightarrow> ops \<Rightarrow> (seq_error + u16 \<Rightarrow> alu_prog) \<Rightarrow> alu_prog" where
  "do_op a b p k = op_seq \<lparr>cmd_a = a, cmd_b = b, cmd_op = p\<rparr>
     (\<lambda>res. k (case res of None \<Rightarrow> Inl ''the driver returned no result'' | Some v \<Rightarrow> Inr v))"

definition do_add :: "u8 \<Rightarrow> u8 \<Rightarrow> (seq_error + u16 \<Rightarrow> alu_prog) \<Rightarrow> alu_prog" where
  "do_add a b = do_op a b Add"

definition do_and :: "u8 \<Rightarrow> u8 \<Rightarrow> (seq_error + u16 \<Rightarrow> alu_prog) \<Rightarrow> alu_prog" where
  "do_and a b = do_op a b And"

definition do_xor :: "u8 \<Rightarrow> u8 \<Rightarrow> (seq_error + u16 \<Rightarrow> alu_prog) \<Rightarrow> alu_prog" where
  "do_xor a b = do_op a b Xor"

definition do_mul :: "u8 \<Rightarrow> u8 \<Rightarrow> (seq_error + u16 \<Rightarrow> alu_prog) \<Rightarrow> alu_prog" where
  "do_mul a b = do_op a b Mul"

fun fib_program :: "nat \<Rightarrow> u8 \<Rightarrow> u8 \<Rightarrow> u16 list \<Rightarrow> alu_prog" where
  "fib_program 0 prev cur fib = Ret (Inr [fib_line fib])"
| "fib_program (Suc n) prev cur fib =
     do_add prev cur (\<lambda>r. case r of
        Inl e \<Rightarrow> Ret (Inl e)
      | Inr v \<Rightarrow> fib_program n cur (ucast v) (fib @ [v]))"

definition fibonacci_program_seq :: "seq_error + unit \<Rightarrow> alu_prog" where
  "fibonacci_program_seq seqr = (case seqr of Inl e \<Rightarrow> Ret (Inl e) | Inr _ \<Rightarrow> fib_program 7 0 1 [0, 1])"

section \<open>The checks\<close>

text \<open>\<open>ResultWatcher::check\<close>: the errors it files.\<close>

definition debug_u64s :: "u64 list \<Rightarrow> string" where
  "debug_u64s xs = ''['' @ concat (case map (\<lambda>x. dec_string (unat x)) xs of
     [] \<Rightarrow> [] | y # ys \<Rightarrow> y # map (\<lambda>z. '', '' @ z) ys) @ '']''"

definition watcher_check :: "u64 list \<Rightarrow> string list \<times> string list" where
  "watcher_check seen =
     (let expected = [1, 2, 3, 5, 8, 13, 21] in
      if seen = expected then ([''adder produced '' @ debug_u64s seen], [])
      else ([], [''expected '' @ debug_u64s expected @ '', saw '' @ debug_u64s seen]))"

fun hex_digits :: "nat \<Rightarrow> nat \<Rightarrow> string" where
  "hex_digits 0 n = []"
| "hex_digits (Suc w) n = hex_digits w (n div 16) @
     [char_of (if n mod 16 < 10 then 48 + n mod 16 else 87 + n mod 16)]"

text \<open>\<open>Scoreboard::check\<close> of chapters 36 and 39: the lines and the errors, and the operations covered. The
  operands of a command are bytes and a result a 16-bit value, so the widths of the formats are met
  exactly.\<close>

definition score_one :: "cmd_tuple \<times> u64 \<Rightarrow> ops set \<times> string list \<times> string list \<Rightarrow> (ops set \<times> string list \<times> string list) may_panic" where
  "score_one = (\<lambda>((aa, bb, op_int), result) (cvg, lines, errors).
     (case ops_from_u64 op_int of
        None \<Rightarrow> panics ''legal op''
      | Some p \<Rightarrow>
          let actual = ucast result :: u16;
              prediction = alu_prediction (ucast aa) (ucast bb) p;
              txt = hex_digits 2 (unat aa) @ '' '' @ show_op p @ '' '' @ hex_digits 2 (unat bb) @ '' = '' @ hex_digits 4 (unat actual)
          in Inr (if actual = prediction then (insert p cvg, lines @ [''PASSED: '' @ txt], errors)
             else (insert p cvg, lines, errors @ [''FAILED: '' @ txt @ '' - predicted '' @ hex_digits 4 (unat prediction)]))))"

fun score_all :: "(cmd_tuple \<times> u64) list \<Rightarrow> ops set \<times> string list \<times> string list \<Rightarrow> (ops set \<times> string list \<times> string list) may_panic" where
  "score_all [] st = Inr st"
| "score_all (x # xs) st = (case score_one x st of Inl e \<Rightarrow> Inl e | Inr st' \<Rightarrow> score_all xs st')"

definition book_check :: "bool \<Rightarrow> cmd_tuple list \<Rightarrow> u64 list \<Rightarrow> (string list \<times> string list) may_panic" where
  "book_check want_full cmds results =
     (case score_all (zip cmds results) ({}, [], []) of
        Inl e \<Rightarrow> Inl e
      | Inr (cvg, lines, errors) \<Rightarrow>
          Inr (if want_full \<and> list_ex (\<lambda>p. p \<notin> cvg) ops_all
               then (lines, errors @ [''Functional coverage error: missed operations''])
               else if want_full then (lines @ [''Covered all operations''], errors)
               else (lines @ [''saw '' @ dec_string (card cvg) @ '' of '' @ dec_string (length ops_all) @
                 '' ops (coverage not required)''], errors)))"

section \<open>Lemmas\<close>

lemma walk_ops_requests: "requests ans (walk_ops sq ps g k) = snd (ops_walk sq ps g) @ requests ans k"
  by (induction ps arbitrary: g) (auto simp: Let_def split: prod.splits)

lemma walk_ops_eval: "eval_prog ans (walk_ops sq ps g k) = eval_prog ans k"
  by (induction ps arbitrary: g) (auto simp: Let_def split: prod.splits)

lemma walk_ops_answered: "answered ans (walk_ops sq ps g k) = answered ans k"
  by (induction ps arbitrary: g) (auto simp: Let_def split: prod.splits)

lemma answering_answers: "answered (\<lambda>q. Some (f q)) p"
  by (induction p) auto

text \<open>The Fibonacci numbers, and the loop's agreement with them as long as the operands fit.\<close>

fun fib_number :: "nat \<Rightarrow> nat" where
  "fib_number 0 = 0"
| "fib_number (Suc 0) = 1"
| "fib_number (Suc (Suc n)) = fib_number n + fib_number (Suc n)"

lemma fib_number_mono: "m \<le> n \<Longrightarrow> fib_number m \<le> fib_number n"
proof (induction n rule: fib_number.induct)
  case 2
  then show ?case by (cases m) auto
next
  case (3 n)
  show ?case
  proof (cases "m = Suc (Suc n)")
    case False
    with 3 show ?thesis by fastforce
  qed simp
qed simp

lemma byte_sum:
  assumes "x < 256" "y < 256"
  shows "alu_prediction (of_nat x) (of_nat y) Add = of_nat (x + y)"
proof -
  have "(ucast (of_nat x :: u8) :: u16) = of_nat x" "(ucast (of_nat y :: u8) :: u16) = of_nat y"
    using assms by (simp_all add: unsigned_of_nat take_bit_nat_eq_self)
  then show ?thesis by (simp add: alu_prediction_def Let_def)
qed

lemma low_byte: "ucast (of_nat v :: u16) = (of_nat v :: u8)"
  by transfer (simp add: take_bit_take_bit)

lemma fib_loop_eval:
  assumes "fib_number (j + n) < 256"
  shows "eval_prog (answering_driver predicted) (fib_loop n (of_nat (fib_number j)) (of_nat (fib_number (Suc j))) acc) =
      Inr [fib_line (acc @ map (\<lambda>i. of_nat (fib_number i)) [Suc (Suc j)..<Suc (Suc (j + n))])] \<and>
    requests (answering_driver predicted) (fib_loop n (of_nat (fib_number j)) (of_nat (fib_number (Suc j))) acc) =
      map (\<lambda>i. \<lparr>cmd_a = of_nat (fib_number i), cmd_b = of_nat (fib_number (Suc i)), cmd_op = Add\<rparr>) [j..<j + n]"
  using assms
proof (induction n arbitrary: j acc)
  case (Suc n)
  have "fib_number j < 256" "fib_number (Suc j) < 256"
    using fib_number_mono [of j "j + Suc n"] fib_number_mono [of "Suc j" "j + Suc n"] Suc.prems by simp_all
  then have "alu_prediction (of_nat (fib_number j)) (of_nat (fib_number (Suc j))) Add = of_nat (fib_number (Suc (Suc j)))"
    by (simp add: byte_sum)
  note step = this low_byte
  have n: "fib_number (Suc j + n) < 256" using Suc.prems by simp
  have up: "[Suc (Suc j)..<Suc (Suc (j + Suc n))] = Suc (Suc j) # [Suc (Suc (Suc j))..<Suc (Suc (Suc j + n))]"
    "[j..<j + Suc n] = j # [Suc j..<Suc j + n]"
    by (simp_all add: upt_conv_Cons del: upt_Suc)
  show ?case using Suc.IH [OF n, of "acc @ [of_nat (fib_number (Suc (Suc j)))]"]
    unfolding up by (simp add: answering_driver_def predicted_def Let_def step del: upt_Suc fib_number.simps)
qed simp

lemma fib_program_loop: "fib_program n prev cur fib = fib_loop n prev cur fib"
  by (induction n arbitrary: prev cur fib) (simp_all add: do_add_def do_op_def op_seq_def Let_def)

lemma byte_round [simp]: "(ucast (ucast (b :: u8) :: u64) :: u8) = b"
  by transfer (simp add: take_bit_take_bit)

lemma half_round [simp]: "(ucast (ucast (b :: u16) :: u64) :: u16) = b"
  by transfer (simp add: take_bit_take_bit)

lemma op_round [simp]: "ops_from_u64 (ops_as_u64 p) = Some p"
  by (cases p) (simp_all add: ops_from_u64_def)

lemma score_all_passes:
  "\<exists>ls. score_all (zip (map as_tuple cs) (map predicted cs)) (cvg, lines, errors) =
     Inr (cvg \<union> cmd_op ` set cs, lines @ ls, errors) \<and> length ls = length cs"
proof (induction cs arbitrary: cvg lines)
  case (Cons c cs)
  obtain l where l: "score_one (as_tuple c, predicted c) (cvg, lines, errors) = Inr (insert (cmd_op c) cvg, lines @ [l], errors)"
    by (simp add: score_one_def as_tuple_def predicted_def Let_def)
  from Cons [of "insert (cmd_op c) cvg" "lines @ [l]"] obtain ls where
    "score_all (zip (map as_tuple cs) (map predicted cs)) (insert (cmd_op c) cvg, lines @ [l], errors) =
     Inr (insert (cmd_op c) cvg \<union> cmd_op ` set cs, (lines @ [l]) @ ls, errors)" "length ls = length cs" by blast
  with l show ?case by (intro exI [of _ "l # ls"]) simp
qed simp

text \<open>A check over commands that cover the operations files nothing if the results are those predicted.\<close>

lemma book_check_clean:
  assumes "cmd_op ` set cs = set ops_all"
  shows "\<exists>ls. book_check True (map as_tuple cs) (map predicted cs) = Inr (ls, []) \<and> length ls = Suc (length cs)"
proof -
  from score_all_passes [of cs "{}" "[]" "[]"] obtain ls where
    "score_all (zip (map as_tuple cs) (map predicted cs)) ({}, [], []) = Inr (set ops_all, ls, [])" "length ls = length cs"
    using assms by auto
  moreover have "\<not> list_ex (\<lambda>p. p \<notin> set ops_all) ops_all" by (simp add: ops_all_def)
  ultimately show ?thesis by (simp add: book_check_def)
qed

lemma published_map: "published dev log = map dev (map snd log)"
  by (simp add: published_def case_prod_unfold)

text \<open>The log of a system with one sequence is what that sequence asked for.\<close>

lemma single_log:
  assumes "sim (machine_run ans ws (machine_start [p])) y" "snd (sy_threads y ! 0) = Th_end r"
  shows "map snd (sy_log y) = requests ans p"
proof -
  from run_log [OF assms(1)] obtain own where own: "\<forall>x \<in> set (sy_log y). own (fst x) < length [p]"
    and items: "\<forall>i < length [p]. \<exists>rest. items_of own i (sy_log y) @ rest = requests ans ([p] ! i) \<and>
         (\<forall>r. snd (sy_threads y ! i) = Th_end r \<longrightarrow> rest = [])" by blast
  from items assms(2) have "items_of own 0 (sy_log y) = requests ans p" by auto
  moreover have "filter (\<lambda>x. own (fst x) = 0) (sy_log y) = sy_log y" using own by (simp add: filter_id_conv)
  ultimately show ?thesis by simp
qed

lemma map_in_shuffles: "zs \<in> shuffles xs ys \<Longrightarrow> map f zs \<in> shuffles (map f xs) (map f ys)"
  by (induction xs ys arbitrary: zs rule: shuffles.induct) auto

lemma double_log:
  assumes "sim (machine_run ans ws (machine_start [p, p'])) y"
    and "snd (sy_threads y ! 0) = Th_end r" "snd (sy_threads y ! 1) = Th_end r'"
  shows "map snd (sy_log y) \<in> shuffles (requests ans p) (requests ans p')"
proof -
  from run_log [OF assms(1)] obtain own where own: "\<forall>x \<in> set (sy_log y). own (fst x) < length [p, p']"
    and items: "\<forall>i < length [p, p']. \<exists>rest. items_of own i (sy_log y) @ rest = requests ans ([p, p'] ! i) \<and>
         (\<forall>r. snd (sy_threads y ! i) = Th_end r \<longrightarrow> rest = [])" by blast
  from items assms(2) have 0: "items_of own 0 (sy_log y) = requests ans p" by force
  from items [rule_format, of 1] assms(3) have 1: "items_of own 1 (sy_log y) = requests ans p'" by force
  have "filter (\<lambda>x. own (fst x) = 1) (sy_log y) = filter (\<lambda>x. \<not> own (fst x) = 0) (sy_log y)"
    by (rule filter_cong) (use own in auto)
  with 1 have "map snd (filter (\<lambda>x. \<not> own (fst x) = 0) (sy_log y)) = requests ans p'" by simp
  with 0 partition_in_shuffles [of "sy_log y" "\<lambda>x. own (fst x) = 0"] show ?thesis
    by (metis map_in_shuffles)
qed

lemma fibonacci_seq_value:
  "eval_prog (answering_driver predicted) fibonacci_seq = Inr [''Fibonacci Sequence: [0, 1, 1, 2, 3, 5, 8, 13, 21]'']"
  "requests (answering_driver predicted) fibonacci_seq =
     map (\<lambda>(a, b). \<lparr>cmd_a = a, cmd_b = b, cmd_op = Add\<rparr>) [(0, 1), (1, 1), (1, 2), (2, 3), (3, 5), (5, 8), (8, 13)]"
proof -
  have fit: "fib_number (0 + 7) < 256" by (simp add: eval_nat_numeral)
  have up: "[Suc (Suc 0)..<Suc (Suc (0 + 7))] = [2, 3, 4, 5, 6, 7, 8]" "[0..<0 + 7] = [0, 1, 2, 3, 4, 5, 6]"
    by (simp_all add: upt_rec)
  have f: "map (\<lambda>i. of_nat (fib_number i)) [2, 3, 4, 5, 6, 7, 8] = ([1, 2, 3, 5, 8, 13, 21] :: u16 list)"
    by (simp add: eval_nat_numeral)
  have l: "fib_line [0, 1, 1, 2, 3, 5, 8, 13, 21] = ''Fibonacci Sequence: [0, 1, 1, 2, 3, 5, 8, 13, 21]''"
    by code_simp
  note F = fib_loop_eval [OF fit, of "[0, 1]", unfolded up f]
  show "eval_prog (answering_driver predicted) fibonacci_seq = Inr [''Fibonacci Sequence: [0, 1, 1, 2, 3, 5, 8, 13, 21]'']"
    using F l by (simp add: fibonacci_seq_def)
  show "requests (answering_driver predicted) fibonacci_seq =
     map (\<lambda>(a, b). \<lparr>cmd_a = a, cmd_b = b, cmd_op = Add\<rparr>) [(0, 1), (1, 1), (1, 2), (2, 3), (3, 5), (5, 8), (8, 13)]"
    using F by (simp add: fibonacci_seq_def eval_nat_numeral)
qed

lemma one_system_ends:
  assumes "answered ans p" "fair 1 (enough_rounds ans [p]) (ms)"
  shows "\<exists>y. system_run ans ms (system_start [(name, seed, p)]) = Inr y \<and>
     map snd (sy_threads y) = [Th_end (Inr (eval_prog ans p))] \<and> map snd (sy_log y) = requests ans p"
proof -
  from system_run_shows [of ans ms "[(name, seed, p)]"] obtain y where
    y: "system_run ans ms (system_start [(name, seed, p)]) = Inr y" "sim (machine_run ans (ms) (machine_start [p])) y" by auto
  have e: "snd (sy_threads y ! 0) = Th_end (Inr (eval_prog ans p))"
    using fair_system_ends [of "[(name, seed, p)]" ans "ms" y 0] assms y(2) by simp
  have "length (sy_threads y) = 1" using sim_threads_length [OF y(2)] by (simp add: run_length)
  then obtain t where "sy_threads y = [t]" by (auto simp: length_Suc_conv)
  with e have "map snd (sy_threads y) = [Th_end (Inr (eval_prog ans p))]" by simp
  then show ?thesis using y(1) single_log [OF y(2) e] by (intro exI [of _ y] conjI)
qed

lemma two_systems_end:
  assumes "answered ans p" "answered ans p'" "fair 2 (enough_rounds ans [p, p']) (ms)"
  shows "\<exists>y. system_run ans ms (system_start [(name, seed, p), (name', seed', p')]) = Inr y \<and>
     map snd (sy_threads y) = [Th_end (Inr (eval_prog ans p)), Th_end (Inr (eval_prog ans p'))] \<and>
     map snd (sy_log y) \<in> shuffles (requests ans p) (requests ans p')"
proof -
  let ?ps = "[(name, seed, p), (name', seed', p')]"
  from system_run_shows [of ans ms ?ps] obtain y where
    y: "system_run ans ms (system_start ?ps) = Inr y" "sim (machine_run ans (ms) (machine_start [p, p'])) y" by auto
  have ok: "answered ans (snd (snd (?ps ! i)))" if "i < length ?ps" for i
    using that assms(1,2) by (cases i) auto
  have e: "snd (sy_threads y ! 0) = Th_end (Inr (eval_prog ans p))" "snd (sy_threads y ! 1) = Th_end (Inr (eval_prog ans p'))"
    using fair_system_ends [OF ok, of "ms" y 0] fair_system_ends [OF ok, of "ms" y 1] assms(3) y(2)
    by (simp_all add: numeral_2_eq_2)
  have "length (sy_threads y) = 2" using sim_threads_length [OF y(2)] by (simp add: run_length)
  then obtain t t' where "sy_threads y = [t, t']" by (auto simp: length_Suc_conv numeral_2_eq_2)
  with e have "map snd (sy_threads y) = [Th_end (Inr (eval_prog ans p)), Th_end (Inr (eval_prog ans p'))]"
    by simp
  then show ?thesis using y(1) double_log [OF y(2) e] by (intro exI [of _ y] conjI)
qed

section \<open>Properties\<close>

text \<open>The Fibonacci sequences compute the Fibonacci numbers, for any number of rounds in which the operands
  fit into the device's eight bits: the loop that sends commands and waits for their answers and the
  program written on the interface functions both log exactly the numbers of the recurrence.\<close>

theorem fibonacci_is_computed:
  assumes "fib_number n < 256"
  shows "eval_prog (answering_driver predicted) (fib_loop n 0 1 [0, 1]) = Inr [fib_line (map (\<lambda>i. of_nat (fib_number i)) [0..<n + 2])] \<and>
    fib_program n 0 1 [0, 1] = fib_loop n 0 1 [0, 1]"
proof -
  have up: "[0..<n + 2] = 0 # 1 # [Suc (Suc 0)..<Suc (Suc (0 + n))]"
    by (simp add: upt_conv_Cons numeral_2_eq_2 del: upt_Suc)
  have "fib_number (0 + n) < 256" using assms by simp
  from fib_loop_eval [OF this, of "[0, 1]"] show ?thesis
    unfolding up by (simp add: fib_program_loop del: upt_Suc)
qed

theorem fibonacci_is_computed_witness:
  "eval_prog (answering_driver predicted) (fib_loop 13 0 1 [0, 1]) = Inr [fib_line (map (\<lambda>i. of_nat (fib_number i)) [0..<13 + 2])]"
proof -
  have "fib_number 13 < 256" by code_simp
  with fibonacci_is_computed [of 13] show ?thesis by simp
qed

lemma parallel_commands:
  assumes "fair 2 82 ms"
  shows "\<exists>y ra rb. system_run (answering_driver dev) ms (system_start (test_all_parallel seed)) = Inr y \<and>
    map snd (sy_threads y) = [Th_end (Inr ra), Th_end (Inr rb)] \<and> after_join ra rb = Inr [''ran random and max together''] \<and>
    map snd (sy_log y) \<in> shuffles (snd (ops_walk RandomSeq ops_all (rng_new seed))) (snd (ops_walk MaxSeq ops_all (rng_new seed))) \<and>
    cmd_op ` set (map snd (sy_log y)) = set ops_all \<and> length (sy_log y) = 8"
proof -
  let ?p = "\<lambda>sq. book_all_ops sq seed (Ret (Inr [])) :: alu_prog"
  let ?c = "\<lambda>sq. snd (ops_walk sq ops_all (rng_new seed))"
  have r: "requests (answering_driver dev) (?p sq) = ?c sq" "eval_prog (answering_driver dev) (?p sq) = Inr []"
    "answered (answering_driver dev) (?p sq)" for sq
    by (simp_all add: book_all_ops_def walk_ops_requests walk_ops_eval walk_ops_answered)
  have c: "cmd_op ` set (?c sq) = set ops_all" "length (?c sq) = 4" for sq
    using arg_cong [OF ops_walk_ops [of sq ops_all "rng_new seed"], of set]
      arg_cong [OF ops_walk_ops [of sq ops_all "rng_new seed"], of length] by (simp_all add: ops_all_def)
  have "enough_rounds (answering_driver dev) [?p RandomSeq, ?p MaxSeq] = 82" by (simp add: enough_rounds_def r c)
  with two_systems_end [OF r(3) r(3), of RandomSeq MaxSeq ms "''RandomSeq''" seed "''MaxSeq''" seed] assms obtain y where
    y: "system_run (answering_driver dev) ms (system_start (test_all_parallel seed)) = Inr y"
    "map snd (sy_threads y) = [Th_end (Inr (Inr [])), Th_end (Inr (Inr []))]"
    "map snd (sy_log y) \<in> shuffles (?c RandomSeq) (?c MaxSeq)"
    by (auto simp: test_all_parallel_def r)
  have "set (map snd (sy_log y)) = set (?c RandomSeq) \<union> set (?c MaxSeq)" using set_shuffles [OF y(3)] by simp
  then have "cmd_op ` set (map snd (sy_log y)) = set ops_all" by (simp only: image_Un c Un_absorb)
  moreover have "length (sy_log y) = 8" using length_shuffles [OF y(3)] by (simp add: c)
  moreover have "after_join (Inr []) (Inr []) = Inr [''ran random and max together'']" by (simp add: after_join_def)
  ultimately show ?thesis using y by (intro exI [of _ y] exI [of _ "Inr []"] conjI)
qed

text \<open>The virtual sequence that runs one after the other: everything random comes before everything maximal.\<close>

theorem sequential_test_order:
  assumes "fair 1 81 (ms)"
  shows "\<exists>y. system_run (answering_driver dev) ms (system_start [(''TestAllSeq'', seed, test_all_seq (Inr ()) seed)]) = Inr y \<and>
    map snd (sy_threads y) = [Th_end (Inr (Inr [''ran random, then max'']))] \<and>
    map snd (sy_log y) = snd (ops_walk RandomSeq ops_all (rng_new seed)) @ snd (ops_walk MaxSeq ops_all (rng_new seed))"
proof -
  have len: "length (snd (ops_walk sq ops_all (rng_new seed))) = 4" for sq
    using arg_cong [OF ops_walk_ops [of sq ops_all "rng_new seed"], of length] by (simp add: ops_all_def)
  have r: "requests (answering_driver dev) (test_all_seq (Inr ()) seed) =
      snd (ops_walk RandomSeq ops_all (rng_new seed)) @ snd (ops_walk MaxSeq ops_all (rng_new seed))"
    "eval_prog (answering_driver dev) (test_all_seq (Inr ()) seed) = Inr [''ran random, then max'']" "answered (answering_driver dev) (test_all_seq (Inr ()) seed)"
    by (simp_all add: test_all_seq_def book_all_ops_def walk_ops_requests walk_ops_eval walk_ops_answered)
  have "enough_rounds (answering_driver dev) [test_all_seq (Inr ()) seed] = 81" by (simp add: enough_rounds_def r len)
  with one_system_ends [OF r(3), of ms "''TestAllSeq''" seed] assms r show ?thesis by simp
qed

end
