(* ===== verification/Book_Bfm.thy ===== *)
theory Book_Bfm
  imports Book_Sequences
begin

text \<open>
  The bus functional model of the book's shared crate (\<open>output/examples/tinyalu-utils\<close>) with the driver that waits
  for every answer (chapters 38 and 39), on the device \<open>sim/hdl/tinyalu.sv\<close>. It differs from the worked example's in what
  it watches: results are taken on the rising edge of \<open>done\<close>, commands are kept as the numbers on
  the buses, the driver's queue has room for one, and reset does not empty the monitors' queues. It
  is shown to see the same traffic as the worked example's, and one turn of the driver to return
  the predicted result; so the testbenches of \<open>Book_Sequences\<close> run here on the device itself.
\<close>

section \<open>State and operations\<close>

text \<open>The single-bit signals are read as truth values; \<open>get_int\<close> reads an undefined signal as zero.\<close>

record book_bfm =
  bk_pins :: alu_pins
  bk_dut :: alu_dut
  bk_driver_q :: "(u8 \<times> u8 \<times> ops) qinner"
  bk_cmd_q :: "cmd_tuple qinner"
  bk_result_q :: "u64 qinner"
  bk_prev_start :: bool
  bk_prev_done :: bool

definition book_bfm_new :: "alu_pins \<Rightarrow> alu_dut \<Rightarrow> book_bfm" where
  "book_bfm_new p d = \<lparr>bk_pins = p, bk_dut = d, bk_driver_q = queue_new (Some 1), bk_cmd_q = queue_unbounded,
     bk_result_q = queue_unbounded, bk_prev_start = False, bk_prev_done = False\<rparr>"

definition result_mon :: "book_bfm \<Rightarrow> u64 qinner \<times> bool" where
  "result_mon b =
     (let dn = alu_done (bk_pins b) (bk_dut b) in
      (if \<not> bk_prev_done b \<and> dn
       then fst (fst (try_put (bk_result_q b) (ucast (alu_result_out (bk_pins b) (bk_dut b)))))
       else bk_result_q b, dn))"

definition cmd_mon :: "book_bfm \<Rightarrow> cmd_tuple qinner \<times> bool" where
  "cmd_mon b =
     (let p = bk_pins b; st = pin_start p in
      (if st \<and> \<not> bk_prev_start b
       then fst (fst (try_put (bk_cmd_q b) (ucast (pin_A p), ucast (pin_B p), ucast (pin_op p))))
       else bk_cmd_q b, st))"

definition cmd_driver :: "book_bfm \<Rightarrow> (u8 \<times> u8 \<times> ops) qinner \<times> alu_pins" where
  "cmd_driver b =
     (let p = bk_pins b; st = pin_start p; dn = alu_done p (bk_dut b) in
      if \<not> st \<and> \<not> dn
      then (case try_get (bk_driver_q b) of
              ((q, _), Some (aa, bb, opr)) \<Rightarrow>
                (q, p\<lparr>pin_A := ucast (ucast aa :: u64), pin_B := ucast (ucast bb :: u64),
                  pin_op := ucast (ops_as_u64 opr), pin_start := True\<rparr>)
            | ((q, _), None) \<Rightarrow> (q, p))
      else if st then (if dn then (bk_driver_q b, p\<lparr>pin_start := False\<rparr>) else (bk_driver_q b, p))
      else (bk_driver_q b, p))"

definition book_fall :: "book_bfm \<Rightarrow> book_bfm" where
  "book_fall b =
     (let (dq, p) = cmd_driver b; (cq, ps) = cmd_mon b; (rq, pd) = result_mon b in
      b\<lparr>bk_pins := p, bk_driver_q := dq, bk_cmd_q := cq, bk_result_q := rq, bk_prev_start := ps, bk_prev_done := pd\<rparr>)"

definition book_period :: "book_bfm \<Rightarrow> book_bfm" where
  "book_period b = book_fall (b\<lparr>bk_dut := tinyalu_rise (bk_pins b) (bk_dut b)\<rparr>)"

text \<open>The tasks start with the driver's first writes; reset then takes three falling edges, the monitors
  running.\<close>

definition book_start :: "book_bfm \<Rightarrow> book_bfm" where
  "book_start b = b\<lparr>bk_pins := (bk_pins b)\<lparr>pin_A := 0, pin_B := 0, pin_op := 0, pin_start := False\<rparr>\<rparr>"

definition book_reset :: "book_bfm \<Rightarrow> book_bfm" where
  "book_reset b =
     (let b1 = book_period b;
          b2 = book_period (b1\<lparr>bk_pins := \<lparr>pin_A = 0, pin_B = 0, pin_op = 0, pin_reset_n = False, pin_start = False\<rparr>\<rparr>)
      in book_period (b2\<lparr>bk_pins := (bk_pins b2)\<lparr>pin_reset_n := True\<rparr>\<rparr>))"

text \<open>One turn of the driver: \<open>send_op\<close> puts the command when there is room, \<open>get_result\<close> waits for a result, clock period by
  clock period; the fuel bounds the periods.\<close>

definition book_send_op :: "book_bfm \<Rightarrow> alu_command \<Rightarrow> book_bfm option" where
  "book_send_op b c =
     (case try_put (bk_driver_q b) (cmd_a c, cmd_b c, cmd_op c) of
        ((q, _), Inr _) \<Rightarrow> Some (b\<lparr>bk_driver_q := q\<rparr>)
      | (_, Inl _) \<Rightarrow> None)"

fun get_result :: "nat \<Rightarrow> book_bfm \<Rightarrow> (book_bfm \<times> u64) option" where
  "get_result 0 b = None"
| "get_result (Suc n) b =
     (case try_get (bk_result_q b) of
        ((q, _), Some r) \<Rightarrow> Some (b\<lparr>bk_result_q := q\<rparr>, r)
      | (_, None) \<Rightarrow> get_result n (book_period b))"

definition driver_turn :: "nat \<Rightarrow> alu_command \<Rightarrow> book_bfm \<Rightarrow> (book_bfm \<times> u64) option" where
  "driver_turn fuel c b = (case book_send_op b c of None \<Rightarrow> None | Some b' \<Rightarrow> get_result fuel b')"

fun driver_turns :: "nat \<Rightarrow> alu_command list \<Rightarrow> book_bfm \<Rightarrow> (book_bfm \<times> u64 list) option" where
  "driver_turns fuel [] b = Some (b, [])"
| "driver_turns fuel (c # cs) b =
     (case driver_turn fuel c b of
        None \<Rightarrow> None
      | Some (b', r) \<Rightarrow> (case driver_turns fuel cs b' of None \<Rightarrow> None | Some (b'', rs) \<Rightarrow> Some (b'', r # rs)))"

section \<open>The same traffic as the worked example's\<close>

abbreviation to_cmd :: "u8 \<times> u8 \<times> ops \<Rightarrow> alu_command" where
  "to_cmd \<equiv> \<lambda>(a, b, p). \<lparr>cmd_a = a, cmd_b = b, cmd_op = p\<rparr>"

definition same_bus :: "alu_phase \<Rightarrow> alu_bfm \<Rightarrow> book_bfm \<Rightarrow> bool" where
  "same_bus ph s b \<longleftrightarrow> bk_pins b = bf_pins s \<and> bk_dut b = bf_dut s \<and> bk_prev_start b = bf_prev_start s \<and>
     map to_cmd (q_buf (bk_driver_q b)) = q_buf (bf_driver_q s) \<and> q_cap (bk_cmd_q b) = None \<and> q_cap (bk_result_q b) = None \<and>
     q_buf (bk_cmd_q b) = map as_tuple (q_buf (bf_cmd_q s)) \<and>
     q_buf (bk_result_q b) = map (\<lambda>r. ucast (res_result r)) (q_buf (bf_result_q s)) \<and> (bk_prev_done b \<longrightarrow> ph = PClosing)"

lemma prediction_predict: "ucast (res_result (predict c)) = predicted c"
  by (simp add: predicted_def predict_def alu_prediction_def Let_def)

lemma op_tuple: "ucast (ucast (ops_as_u64 p) :: 3 word) = ops_as_u64 p"
  by (cases p) simp_all

lemma try_put_cap: "q_cap q = None \<Longrightarrow> fst (fst (try_put q x)) = q\<lparr>q_buf := q_buf q @ [x], q_get_waiters := []\<rparr>"
  by (simp add: try_put_def queue_has_space_def wake_getters_def)

lemma driver_same:
  assumes "bk_pins b = bf_pins s" "bk_dut b = bf_dut s" "map to_cmd (q_buf (bk_driver_q b)) = q_buf (bf_driver_q s)"
  shows "snd (cmd_driver b) = snd (driver_loop s) \<and>
    map to_cmd (q_buf (fst (cmd_driver b))) = q_buf (fst (driver_loop s))"
  using assms(1,2) assms(3) [symmetric]
  by (cases "q_buf (bk_driver_q b)")
    (simp_all add: cmd_driver_def driver_loop_def try_get_def wake_putters_def Let_def split: prod.split)

lemma finishing_done:
  assumes "tracks ph fin sent tc tr s"
  shows "alu_done (bf_pins s) (bf_dut (bfm_rise s)) \<longleftrightarrow> (\<exists>c. finishing ph = [c])"
proof (cases ph)
  case (PDriven c n)
  show ?thesis
  proof (cases "cmd_op c = Mul \<and> n < 3")
    case True
    then have o: "bit (pin_op (bf_pins s)) 2" "\<not> tc_done1 (dut_mult (bf_dut s))"
      using assms PDriven by (simp_all add: tracks_def shows_cmd_def mult_progress_def Let_def)
    with True assms PDriven show ?thesis
      by (auto simp: alu_done_def bfm_rise_def tinyalu_rise_def three_cycle_rise_def)
  next
    case False
    with assms PDriven show ?thesis
      by (auto simp: tracks_def bfm_rise_def tinyalu_rise_def single_cycle_rise_def three_cycle_rise_def alu_done_def
        mult_progress_def shows_cmd_def Let_def split: ops.splits if_splits)
  qed
next
  case PIdle
  with assms quiet_rise [of ph s] quiet_not_done show ?thesis by (auto simp: tracks_def)
next
  case PClosing
  with assms quiet_rise [of ph s] quiet_not_done show ?thesis by (auto simp: tracks_def)
qed

lemma period_same_bus:
  assumes "tracks ph fin sent tc tr s" "same_bus ph s b"
  shows "same_bus (next_phase ph (q_buf (bf_driver_q s))) (bfm_period s) (book_period b)"
proof -
  let ?s = "bfm_rise s" and ?b = "b\<lparr>bk_dut := tinyalu_rise (bk_pins b) (bk_dut b)\<rparr>"
  note B = assms(2) [unfolded same_bus_def]
  have r: "bk_pins ?b = bf_pins ?s" "bk_dut ?b = bf_dut ?s" "map to_cmd (q_buf (bk_driver_q ?b)) = q_buf (bf_driver_q ?s)"
    using B by (simp_all add: bfm_rise_def)
  note D = driver_same [OF r]
  have dn: "alu_done (bf_pins s) (bf_dut ?s) \<longleftrightarrow> (\<exists>c. finishing ph = [c])" by (rule finishing_done [OF assms(1)])
  have cap: "q_cap (bf_cmd_q s) = None" "q_cap (bf_result_q s) = None" using assms(1) by (simp_all add: tracks_def)
  have c: "q_buf (fst (cmd_mon ?b)) = map as_tuple (q_buf (fst (cmd_monitor_loop ?s))) \<and> q_cap (fst (cmd_mon ?b)) = None \<and>
      snd (cmd_mon ?b) = snd (cmd_monitor_loop ?s)"
    using B assms(1) cap
    by (cases ph)
      (auto simp: cmd_mon_def cmd_monitor_loop_def tracks_def shows_cmd_def as_tuple_def op_tuple try_put_cap Let_def)
  have "finishing ph = [d] \<Longrightarrow> pin_start (bf_pins s) \<and> ph \<noteq> PClosing" for d
    using assms(1) by (cases ph) (auto simp: tracks_def)
  with dn B cap have q: "q_buf (fst (result_mon ?b)) = map (\<lambda>r. ucast (res_result r)) (q_buf (result_monitor_loop ?s)) \<and>
      q_cap (fst (result_mon ?b)) = None"
    by (auto simp: result_mon_def result_monitor_loop_def try_put_cap bfm_rise_def Let_def)
  have "snd (result_mon ?b) \<Longrightarrow> next_phase ph (q_buf (bf_driver_q s)) = PClosing"
    using dn B by (cases ph) (auto simp: result_mon_def bfm_rise_def Let_def split: if_splits)
  with B D c q show ?thesis
    by (simp add: same_bus_def book_period_def book_fall_def bfm_period_def bfm_fall_def split_def Let_def bfm_rise_def)
qed

section \<open>One turn of the driver\<close>

definition between_turns :: "alu_phase \<Rightarrow> alu_command list \<Rightarrow> alu_bfm \<Rightarrow> book_bfm \<Rightarrow> bool" where
  "between_turns ph cs s b \<longleftrightarrow> ph \<in> {PIdle, PClosing} \<and> tracks ph cs cs [] (map predict cs) s \<and> same_bus ph s b \<and> q_cap (bk_driver_q b) = Some 1"

lemma driver_q_cap: "q_cap (bk_driver_q (book_period b)) = q_cap (bk_driver_q b)"
  by (auto simp: book_period_def book_fall_def cmd_driver_def try_get_def wake_putters_def Let_def split: prod.split list.split)

lemma result_taken:
  assumes "tracks PClosing (cs @ [c]) (cs @ [c]) [] (map predict cs) s" "same_bus PClosing s b" "q_cap (bk_driver_q b) = Some 1"
  shows "\<exists>b' s'. get_result (Suc n) b = Some (b', predicted c) \<and>
    between_turns PClosing (cs @ [c]) s' b'"
proof -
  have rq: "q_buf (bf_result_q s) = [predict c]" using assms(1) by (simp add: tracks_def)
  then have b: "q_buf (bk_result_q b) = [predicted c]"
    using assms(2) by (simp add: same_bus_def prediction_predict)
  let ?s = "s\<lparr>bf_result_q := (bf_result_q s)\<lparr>q_buf := []\<rparr>\<rparr>"
  let ?b = "b\<lparr>bk_result_q := (bk_result_q b)\<lparr>q_buf := [], q_put_waiters := []\<rparr>\<rparr>"
  have "between_turns PClosing (cs @ [c]) ?s ?b"
    using assms rq by (simp add: between_turns_def tracks_def same_bus_def)
  moreover have "get_result (Suc n) b = Some (?b, predicted c)"
    using b by (simp add: try_get_def wake_putters_def)
  ultimately show ?thesis by blast
qed

lemma driven_result:
  assumes "tracks (PDriven c n) cs (cs @ [c]) [] (map predict cs) s" "same_bus (PDriven c n) s b" "q_cap (bk_driver_q b) = Some 1"
    and "6 - n \<le> fuel"
  shows "\<exists>b' s'. get_result fuel b = Some (b', predicted c) \<and>
    between_turns PClosing (cs @ [c]) s' b'"
  using assms
proof (induction fuel arbitrary: n s b)
  case 0
  then show ?case by (auto simp: tracks_def split: if_splits)
next
  case (Suc fuel)
  have "q_buf (bf_result_q s) = []" using Suc.prems(1) by (simp add: tracks_def)
  then have "q_buf (bk_result_q b) = []" using Suc.prems(2) by (simp add: same_bus_def)
  then have get: "get_result (Suc fuel) b = get_result fuel (book_period b)" by (simp add: try_get_def)
  note T = period_tracks [OF Suc.prems(1)]
  note B = period_same_bus [OF Suc.prems(1,2)]
  have cap: "q_cap (bk_driver_q (book_period b)) = Some 1" using Suc.prems(3) by (simp add: driver_q_cap)
  have n: "n < 4" using Suc.prems(1) by (auto simp: tracks_def split: if_splits)
  show ?case
  proof (cases "cmd_op c = Mul \<and> n < 3")
    case True
    with T B cap Suc.prems(4) n show ?thesis unfolding get by (intro Suc.IH [of "n + 1" "bfm_period s"]) simp_all
  next
    case False
    from n Suc.prems(4) obtain k where k: "fuel = Suc k" by (cases fuel) auto
    from False T B have "tracks PClosing (cs @ [c]) (cs @ [c]) [] (map predict cs) (bfm_period s)"
      "same_bus PClosing (bfm_period s) (book_period b)" by auto
    from result_taken [OF this cap, of k] show ?thesis by (simp only: k get [unfolded k])
  qed
qed

lemma turn_returns:
  assumes "between_turns ph cs s b"
  shows "\<exists>b' s'. driver_turn 8 c b = Some (b', predicted c) \<and>
    between_turns PClosing (cs @ [c]) s' b'"
proof -
  have A: "ph = PIdle \<or> ph = PClosing" "tracks ph cs cs [] (map predict cs) s" "same_bus ph s b" "q_cap (bk_driver_q b) = Some 1"
    using assms by (auto simp: between_turns_def)
  have e: "q_buf (bf_driver_q s) = []" "q_buf (bf_result_q s) = []" using A(1,2) by (auto simp: tracks_def)
  then have be: "q_buf (bk_driver_q b) = []" "q_buf (bk_result_q b) = []" using A(3) by (simp_all add: same_bus_def)
  let ?b = "b\<lparr>bk_driver_q := (bk_driver_q b)\<lparr>q_buf := [(cmd_a c, cmd_b c, cmd_op c)], q_get_waiters := []\<rparr>\<rparr>"
  have send: "book_send_op b c = Some ?b"
    using A(4) be by (simp add: book_send_op_def try_put_def queue_has_space_def wake_getters_def)
  have T: "tracks ph cs (cs @ [c]) [] (map predict cs) (send_op s c)" by (rule send_op_tracks [OF A(2)])
  have q: "q_buf (bf_driver_q (send_op s c)) = [c]"
    using A(2) e try_put_unbounded [of "bf_driver_q s" c] by (simp add: tracks_def send_op_def)
  have S: "same_bus ph (send_op s c) ?b" using A(3) q by (simp add: same_bus_def send_op_def)
  have np: "next_phase ph (q_buf (bf_driver_q (send_op s c))) = PDriven c 0" using A(1) q by auto
  have fin: "finishing ph = []" using A(1) by auto
  have "driver_turn 8 c b = get_result 8 ?b" by (simp add: driver_turn_def send)
  also have "\<dots> = get_result 7 (book_period ?b)" using be by (simp add: eval_nat_numeral try_get_def)
  finally have turn: "driver_turn 8 c b = get_result 7 (book_period ?b)" .
  have "q_cap (bk_driver_q (book_period ?b)) = Some 1" using A(4) by (simp add: driver_q_cap)
  with driven_result [of c 0 cs "bfm_period (send_op s c)" "book_period ?b" 7] period_tracks [OF T] period_same_bus [OF T S]
  show ?thesis unfolding turn by (simp add: np fin)
qed

section \<open>Reset\<close>

definition mirror :: "book_bfm \<Rightarrow> alu_bfm" where
  "mirror b = \<lparr>bf_pins = bk_pins b, bf_dut = bk_dut b, bf_driver_q = queue_unbounded, bf_cmd_q = queue_unbounded,
     bf_result_q = queue_unbounded, bf_prev_start = bk_prev_start b\<rparr>"

lemma silent_book_period:
  assumes "\<not> pin_start (bk_pins b)" "pin_op (bk_pins b) = 0" "q_buf (bk_driver_q b) = []"
  shows "book_period b = b\<lparr>bk_dut := tinyalu_rise (bk_pins b) (bk_dut b), bk_prev_start := False, bk_prev_done := False\<rparr>"
proof -
  have "\<not> alu_done (bk_pins b) (tinyalu_rise (bk_pins b) (bk_dut b))"
    using assms(1,2) by (simp add: alu_done_def tinyalu_rise_def single_cycle_rise_def Let_def)
  then show ?thesis
    using assms by (simp add: book_period_def book_fall_def cmd_driver_def cmd_mon_def result_mon_def try_get_def Let_def)
qed

lemma book_reset_ready:
  "between_turns PIdle [] (mirror (book_reset (book_start (book_bfm_new p d)))) (book_reset (book_start (book_bfm_new p d)))"
proof -
  let ?p = "\<lparr>pin_A = 0, pin_B = 0, pin_op = 0, pin_reset_n = False, pin_start = False\<rparr>"
  let ?d = "tinyalu_rise (p\<lparr>pin_A := 0, pin_B := 0, pin_op := 0, pin_start := False\<rparr>) d"
  let ?b = "(book_bfm_new (?p\<lparr>pin_reset_n := True\<rparr>) (tinyalu_rise (?p\<lparr>pin_reset_n := True\<rparr>) (tinyalu_rise ?p ?d)))"
  have "book_reset (book_start (book_bfm_new p d)) = ?b"
    by (simp add: book_reset_def book_start_def book_bfm_new_def silent_book_period queue_new_def Let_def)
  moreover have "quiet_dut (tinyalu_rise (?p\<lparr>pin_reset_n := True\<rparr>) (tinyalu_rise ?p ?d))"
    by (simp add: quiet_dut_def tinyalu_rise_def single_cycle_rise_def three_cycle_rise_def)
  ultimately show ?thesis
    by (simp add: between_turns_def tracks_def same_bus_def mirror_def book_bfm_new_def queue_unbounded_def queue_new_def)
qed

lemma turns_return:
  "between_turns ph cs s b \<Longrightarrow>
     \<exists>b' ph' s'. driver_turns 8 ds b = Some (b', map predicted ds) \<and>
       between_turns ph' (cs @ ds) s' b'"
proof (induction ds arbitrary: ph cs s b)
  case (Cons c ds)
  from turn_returns [OF Cons.prems, of c] obtain b1 s1 where
    1: "driver_turn 8 c b = Some (b1, predicted c)" "between_turns PClosing (cs @ [c]) s1 b1" by blast
  from Cons.IH [OF 1(2)] 1(1) show ?case by fastforce
qed auto

lemma device_answers:
  "\<exists>b. driver_turns 8 cs (book_reset (book_start (book_bfm_new p d))) = Some (b, map predicted cs) \<and>
    q_buf (bk_cmd_q b) = map as_tuple cs \<and> q_buf (bk_result_q b) = []"
proof -
  from turns_return [OF book_reset_ready, of cs p d] obtain b ph s where
    b: "driver_turns 8 cs (book_reset (book_start (book_bfm_new p d))) = Some (b, map predicted cs)" "between_turns ph cs s b" by auto
  moreover have "q_buf (bk_cmd_q b) = map as_tuple cs" "q_buf (bk_result_q b) = []"
    using b(2) by (auto simp: between_turns_def tracks_def same_bus_def)
  ultimately show ?thesis by blast
qed

section \<open>The TinyALU as the device of a testbench\<close>

definition alu_device :: "alu_pins \<Rightarrow> alu_dut \<Rightarrow> device" where
  "alu_device p d cmd =
     (case driver_turn 8 cmd (book_reset (book_start (book_bfm_new p d))) of Some (_, r) \<Rightarrow> r | None \<Rightarrow> 0)"

lemma alu_device_predicted: "alu_device p d = predicted"
proof
  fix c
  from turn_returns [OF book_reset_ready, where c = c and p1 = p and d1 = d] show "alu_device p d c = predicted c" by (auto simp: alu_device_def)
qed

definition quiet_pins :: alu_pins where
  "quiet_pins = \<lparr>pin_A = 0, pin_B = 0, pin_op = 0, pin_reset_n = False, pin_start = False\<rparr>"

definition odd_alu :: alu_dut where
  "odd_alu = \<lparr>dut_single = \<lparr>sc_done = True, sc_result = 9\<rparr>, dut_mult = \<lparr>tc_a_int = 3, tc_b_int = 4, tc_mult1 = 5, tc_mult2 = 6,
     tc_done1 = True, tc_done2 = False, tc_done3 = True, tc_done = False, tc_result = 8\<rparr>\<rparr>"

section \<open>Properties\<close>

text \<open>C30: The book's bus functional model answers every command with the prediction. From any power-up state
  of the device, after reset, a driver that sends one operation at a time and waits for its result
  gets, within eight clock periods each, exactly the predicted results in order, and the command monitor has
  collected exactly the commands sent.\<close>

theorem book_driver_answers:
  "\<exists>b. driver_turns 8 cs (book_reset (book_start (book_bfm_new p d))) =
      Some (b, map (\<lambda>c. ucast (alu_prediction (cmd_a c) (cmd_b c) (cmd_op c))) cs) \<and>
    q_buf (bk_cmd_q b) = map as_tuple cs \<and> q_buf (bk_result_q b) = []"
  using device_answers [of cs p d] by (simp add: predicted_def [abs_def])

text \<open>C31: The Fibonacci testbench passes on the device under every fair schedule, from any power-up state: with
  the driver that waits for the adder, the sequence finishes without an error and logs the nine numbers,
  and the watcher, which sees only what the device returned for the driver's commands one after the
  other, files no error.\<close>

theorem fibonacci_testbench_passes:
  assumes "fair 1 71 ms"
  shows "\<exists>y b. system_run (answering_driver (alu_device p d)) ms (system_start [(''FibonacciSeq'', seed, fibonacci_seq)]) = Inr y \<and>
    map snd (sy_threads y) = [Th_end (Inr (Inr [''Fibonacci Sequence: [0, 1, 1, 2, 3, 5, 8, 13, 21]'']))] \<and>
    driver_turns 8 (map snd (sy_log y)) (book_reset (book_start (book_bfm_new p d))) =
      Some (b, published (alu_device p d) (sy_log y)) \<and>
    snd (watcher_check (published (alu_device p d) (sy_log y))) = []"
proof -
  let ?ans = "answering_driver predicted"
  have "answered ?ans fibonacci_seq"
    unfolding answering_driver_def [abs_def] by (rule answering_answers)
  moreover have "enough_rounds ?ans [fibonacci_seq] = 71" by (simp add: enough_rounds_def fibonacci_seq_value)
  ultimately obtain y where y: "system_run ?ans ms (system_start [(''FibonacciSeq'', seed, fibonacci_seq)]) = Inr y"
    "map snd (sy_threads y) = [Th_end (Inr (eval_prog ?ans fibonacci_seq))]"
    "map snd (sy_log y) = requests ?ans fibonacci_seq"
    using one_system_ends assms by metis
  have "published predicted (sy_log y) = [1, 2, 3, 5, 8, 13, 21]"
    unfolding published_map y(3) by (simp add: fibonacci_seq_value predicted_def alu_prediction_def)
  moreover obtain b where "driver_turns 8 (map snd (sy_log y)) (book_reset (book_start (book_bfm_new p d))) =
      Some (b, published predicted (sy_log y))"
    using device_answers [of "map snd (sy_log y)" p d] by (auto simp: published_map)
  ultimately show ?thesis using y(1,2) unfolding alu_device_predicted by (simp add: fibonacci_seq_value watcher_check_def)
qed

theorem fibonacci_testbench_passes_witness:
  "\<exists>y. system_run (answering_driver (alu_device quiet_pins odd_alu)) (fair_schedule 1 71)
     (system_start [(''FibonacciSeq'', 1, fibonacci_seq)]) = Inr y"
  using fibonacci_testbench_passes [OF fair_schedule_fair, of quiet_pins odd_alu 1] by blast

text \<open>C28: The parallel test passes on the device. Its two sequences run side by side to their ends under every
  fair schedule, and the driver sees an interleaving of the random and the maximum commands, each stream
  complete and in its order. On the TinyALU, from any power-up state, the driver's turns over these
  commands return, the command monitor has collected them, and the scoreboard, which compares the device's
  results with its own prediction for the monitor's commands, passes every one of the eight
  comparisons and finds every operation covered.\<close>

theorem parallel_test_passes:
  assumes "fair 2 82 ms"
  shows "\<exists>y ra rb b results lines.
    system_run (answering_driver (alu_device p d)) ms (system_start (test_all_parallel seed)) = Inr y \<and>
    map snd (sy_threads y) = [Th_end (Inr ra), Th_end (Inr rb)] \<and> after_join ra rb = Inr [''ran random and max together''] \<and>
    map snd (sy_log y) \<in> shuffles (snd (ops_walk RandomSeq ops_all (rng_new seed))) (snd (ops_walk MaxSeq ops_all (rng_new seed))) \<and>
    driver_turns 8 (map snd (sy_log y)) (book_reset (book_start (book_bfm_new p d))) = Some (b, results) \<and>
    results = published (alu_device p d) (sy_log y) \<and>
    book_check True (q_buf (bk_cmd_q b)) results = Inr (lines, []) \<and> length lines = 9"
proof -
  from parallel_commands [OF assms, of "alu_device p d" seed] obtain y ra rb where
    y: "system_run (answering_driver (alu_device p d)) ms (system_start (test_all_parallel seed)) = Inr y"
    "map snd (sy_threads y) = [Th_end (Inr ra), Th_end (Inr rb)]" "after_join ra rb = Inr [''ran random and max together'']"
    "map snd (sy_log y) \<in> shuffles (snd (ops_walk RandomSeq ops_all (rng_new seed))) (snd (ops_walk MaxSeq ops_all (rng_new seed)))"
    and ops: "cmd_op ` set (map snd (sy_log y)) = set ops_all" "length (sy_log y) = 8" by (elim exE conjE) rule
  from device_answers [of "map snd (sy_log y)" p d] obtain b where
    b: "driver_turns 8 (map snd (sy_log y)) (book_reset (book_start (book_bfm_new p d))) = Some (b, map predicted (map snd (sy_log y)))"
    "q_buf (bk_cmd_q b) = map as_tuple (map snd (sy_log y))" by blast
  have r: "published (alu_device p d) (sy_log y) = map predicted (map snd (sy_log y))"
    by (simp only: alu_device_predicted published_map)
  from book_check_clean [OF ops(1)] obtain ls where
    ls: "book_check True (map as_tuple (map snd (sy_log y))) (map predicted (map snd (sy_log y))) = Inr (ls, [])" "length ls = 9"
    using ops(2) by auto
  from b(1) ls have "driver_turns 8 (map snd (sy_log y)) (book_reset (book_start (book_bfm_new p d))) =
      Some (b, published (alu_device p d) (sy_log y))"
    "book_check True (q_buf (bk_cmd_q b)) (published (alu_device p d) (sy_log y)) = Inr (ls, [])"
    unfolding r b(2) by blast+
  note rest = y this(1) refl this(2) ls(2)
  show ?thesis
    by (rule exI [of _ y], rule exI [of _ ra], rule exI [of _ rb], rule exI [of _ b],
        rule exI [of _ "published (alu_device p d) (sy_log y)"], rule exI [of _ ls], intro conjI) (fact rest)+
qed

theorem parallel_test_passes_witness:
  "\<exists>y b results. system_run (answering_driver (alu_device quiet_pins odd_alu)) (fair_schedule 2 82) (system_start (test_all_parallel 7)) = Inr y \<and>
     driver_turns 8 (map snd (sy_log y)) (book_reset (book_start (book_bfm_new quiet_pins odd_alu))) = Some (b, results)"
  using parallel_test_passes [OF fair_schedule_fair, of quiet_pins odd_alu 7] by blast

end
