(* ===== verification/Book_Out_Of_Order.thy ===== *)
theory Book_Out_Of_Order
  imports Seq_Wakeups
begin

text \<open>
  The out-of-order testbench of the book (\<open>output/examples\<close>, chapter 37): a driver that takes a request without
  blocking, releases it at once and answers it later, and a sequence that sends four requests before it
  collects any answer. A request is the number of ticks the driver should spend on it, and the answer
  repeats that number.
\<close>

section \<open>The driver\<close>

record in_flight =
  fl_ticket :: nat
  fl_delay :: nat
  fl_left :: nat

text \<open>The first half of a tick takes in one request, if one is there and filled in.\<close>

definition accept_half :: "in_flight list \<Rightarrow> (nat, nat) seqr_inner
    \<Rightarrow> (in_flight list \<times> (nat, nat) seqr_inner \<times> waker list) may_panic" where
  "accept_half outstanding s =
     (case try_next_item s of
        Inl e \<Rightarrow> Inl e
      | Inr ((s', ws), None) \<Rightarrow> Inr (outstanding, s', ws)
      | Inr ((s', ws), Some (ticket, delay)) \<Rightarrow>
          (case item_done s' None of
             Inl e \<Rightarrow> Inl e
           | Inr (s'', ws') \<Rightarrow> Inr (outstanding @ [\<lparr>fl_ticket = ticket, fl_delay = delay, fl_left = delay\<rparr>], s'', ws @ ws')))"

text \<open>The second half ages the outstanding work and answers what is due.\<close>

fun age_half :: "in_flight list \<Rightarrow> in_flight list \<Rightarrow> (nat, nat) seqr_inner
    \<Rightarrow> in_flight list \<times> (nat, nat) seqr_inner \<times> waker list" where
  "age_half [] still_working s = (still_working, s, [])"
| "age_half (job # jobs) still_working s =
     (if fl_left job > 1
      then age_half jobs (still_working @ [job\<lparr>fl_left := fl_left job - 1\<rparr>]) s
      else (case put_response s (fl_ticket job) (fl_delay job) of (s', ws) \<Rightarrow>
        (case age_half jobs still_working s' of (still, s'', ws') \<Rightarrow> (still, s'', ws @ ws'))))"

section \<open>When a request is answered\<close>

text \<open>A run of the driver: before each half of a tick the others may do anything to the sequencer. The books are
  kept on the side of the sequencer: what it handed out, and what was filed with its responses, and when.\<close>

definition handed :: "(nat, nat) seqr_inner \<Rightarrow> (nat \<times> nat) list" where
  "handed s = (case try_next_item s of Inr (_, Some item) \<Rightarrow> [item] | _ \<Rightarrow> [])"

definition filed :: "(nat, nat) seqr_inner \<Rightarrow> (nat, nat) seqr_inner \<Rightarrow> (nat \<times> nat) list" where
  "filed s s' = drop (length (rq_items (se_responses s))) (rq_items (se_responses s'))"

record ooo_run =
  oo_now :: nat
  oo_jobs :: "in_flight list"
  oo_seqr :: "(nat, nat) seqr_inner"
  oo_accepted :: "(nat \<times> nat \<times> nat) list"
  oo_answered :: "(nat \<times> nat \<times> nat) list"

abbreviation job_entry :: "nat \<Rightarrow> in_flight \<Rightarrow> nat \<times> nat \<times> nat" where
  "job_entry t job \<equiv> (t, fl_ticket job, fl_delay job)"

definition driver_tick :: "((nat, nat) seqr_inner \<Rightarrow> (nat, nat) seqr_inner) \<times> ((nat, nat) seqr_inner \<Rightarrow> (nat, nat) seqr_inner)
    \<Rightarrow> ooo_run \<Rightarrow> ooo_run may_panic" where
  "driver_tick others r =
     (case accept_half (oo_jobs r) (fst others (oo_seqr r)) of
        Inl e \<Rightarrow> Inl e
      | Inr (jobs, s, ws) \<Rightarrow>
          (case age_half jobs [] (snd others s) of (still, s', ws') \<Rightarrow>
             Inr \<lparr>oo_now = Suc (oo_now r), oo_jobs = still, oo_seqr = s',
               oo_accepted = oo_accepted r @ map (Pair (oo_now r)) (handed (fst others (oo_seqr r))),
               oo_answered = oo_answered r @ map (Pair (oo_now r)) (filed (snd others s) s')\<rparr>))"

fun driver_ticks :: "(((nat, nat) seqr_inner \<Rightarrow> (nat, nat) seqr_inner) \<times> ((nat, nat) seqr_inner \<Rightarrow> (nat, nat) seqr_inner)) list
    \<Rightarrow> ooo_run \<Rightarrow> ooo_run may_panic" where
  "driver_ticks [] r = Inr r"
| "driver_ticks (os # oss) r = (case driver_tick os r of Inl e \<Rightarrow> Inl e | Inr r' \<Rightarrow> driver_ticks oss r')"

definition driver_new :: "(nat, nat) seqr_inner \<Rightarrow> ooo_run" where
  "driver_new s = \<lparr>oo_now = 0, oo_jobs = [], oo_seqr = s, oo_accepted = [], oo_answered = []\<rparr>"

text \<open>When a request taken in at tick \<open>t\<close> is due.\<close>

definition due :: "nat \<times> nat \<times> nat \<Rightarrow> nat" where
  "due = (\<lambda>(t, ticket, delay). t + max 1 delay - 1)"

definition answer_of :: "nat \<times> nat \<times> nat \<Rightarrow> nat \<times> nat \<times> nat" where
  "answer_of a = (due a, snd a)"

section \<open>The sequence\<close>

text \<open>Four requests, the slowest first, each sent as soon as the one before is released.\<close>

definition four_requests :: "(nat, nat, unit) prog" where
  "four_requests = Tell 10 (Tell 7 (Tell 4 (Tell 1 (Ret ()))))"

text \<open>A turn of the sequence's task: it goes on until it is suspended. A turn has at most three awaits.\<close>

fun thread_turn :: "nat \<Rightarrow> seq_ctx \<times> (nat, nat, unit) thread \<Rightarrow> (nat, nat) seqr_inner
    \<Rightarrow> ((seq_ctx \<times> (nat, nat, unit) thread) \<times> (nat, nat) seqr_inner) may_panic" where
  "thread_turn 0 ct s = Inr (ct, s)"
| "thread_turn (Suc n) ct s =
     (case thread_poll 1 ct s of
        Inl e \<Rightarrow> Inl e
      | Inr (ctx, t, (s', ws), suspended) \<Rightarrow> if suspended then Inr ((ctx, t), s') else thread_turn n (ctx, t) s')"

text \<open>One round over the tickets still waited for.\<close>

fun collect_round :: "seq_ctx \<Rightarrow> nat list \<Rightarrow> (nat, nat) seqr_inner \<Rightarrow> nat list \<times> (nat \<times> nat) list \<times> (nat, nat) seqr_inner" where
  "collect_round ctx [] s = ([], [], s)"
| "collect_round ctx (ticket # waiting) s =
     (case ctx_try_get_response ctx s (Some ticket) of
        (s', Some delay) \<Rightarrow> (case collect_round ctx waiting s' of (still, got, s'') \<Rightarrow> (still, (ticket, delay) # got, s''))
      | (s', None) \<Rightarrow> (case collect_round ctx waiting s' of (still, got, s'') \<Rightarrow> (ticket # still, got, s'')))"

record ooo_bench =
  be_jobs :: "in_flight list"
  be_seqr :: "(nat, nat) seqr_inner"
  be_thread :: "seq_ctx \<times> (nat, nat, unit) thread"
  be_waiting :: "nat list"
  be_got :: "(nat \<times> nat) list"

definition ooo_bench_new :: ooo_bench where
  "ooo_bench_new = \<lparr>be_jobs = [], be_seqr = sequencer_new, be_thread = (seq_ctx_new True ''Seq'' 1, Th_start Si_start four_requests),
     be_waiting = [1, 2, 3, 4], be_got = []\<rparr>"

text \<open>One tick of ten nanoseconds: the driver accepts, the sequence has its turn, the driver ages its work, and
  the sequence, once it has sent everything, goes round its tickets.\<close>

definition ooo_bench_tick :: "ooo_bench \<Rightarrow> ooo_bench may_panic" where
  "ooo_bench_tick b =
     (case accept_half (be_jobs b) (be_seqr b) of
        Inl e \<Rightarrow> Inl e
      | Inr (jobs, s1, ws) \<Rightarrow>
          (case thread_turn 3 (be_thread b) s1 of
             Inl e \<Rightarrow> Inl e
           | Inr (ct, s2) \<Rightarrow>
               (case age_half jobs [] s2 of (still, s3, ws') \<Rightarrow>
                  (case snd ct of
                     Th_end _ \<Rightarrow> (case collect_round (fst ct) (be_waiting b) s3 of (waiting, got, s4) \<Rightarrow>
                       Inr \<lparr>be_jobs = still, be_seqr = s4, be_thread = ct, be_waiting = waiting, be_got = be_got b @ got\<rparr>)
                   | _ \<Rightarrow> Inr (b\<lparr>be_jobs := still, be_seqr := s3, be_thread := ct\<rparr>)))))"

fun ooo_bench_ticks :: "nat \<Rightarrow> ooo_bench \<Rightarrow> ooo_bench may_panic" where
  "ooo_bench_ticks 0 b = Inr b"
| "ooo_bench_ticks (Suc n) b = (case ooo_bench_tick b of Inl e \<Rightarrow> Inl e | Inr b' \<Rightarrow> ooo_bench_ticks n b')"

section \<open>Lemmas\<close>

lemma age_half_eq:
  "fst (age_half jobs still s) = still @ map (\<lambda>j. j\<lparr>fl_left := fl_left j - 1\<rparr>) (filter (\<lambda>j. fl_left j > 1) jobs)"
  "rq_items (se_responses (fst (snd (age_half jobs still s)))) =
     rq_items (se_responses s) @ map (\<lambda>j. (fl_ticket j, fl_delay j)) (filter (\<lambda>j. \<not> fl_left j > 1) jobs)"
  by (induction jobs arbitrary: still s) (simp_all add: put_response_def resp_push_def split_def)

lemma accept_half_jobs:
  assumes "accept_half jobs s = Inr (jobs', s', ws)"
  shows "\<exists>new. jobs' = jobs @ new \<and> (\<forall>j \<in> set new. fl_left j = fl_delay j) \<and> map (job_entry now) new = map (Pair now) (handed s)"
  using assms by (auto simp: accept_half_def handed_def split: sum.splits prod.splits option.splits)

text \<open>The invariant: what is outstanding is what was taken in and is not due yet, in that order, with the
  ticks that are left; what was answered is the rest.\<close>

definition job_at :: "nat \<Rightarrow> nat \<times> nat \<times> nat \<Rightarrow> in_flight" where
  "job_at now = (\<lambda>(t, ticket, delay). \<lparr>fl_ticket = ticket, fl_delay = delay, fl_left = t + delay - now\<rparr>)"

definition ooo_inv :: "ooo_run \<Rightarrow> bool" where
  "ooo_inv r \<longleftrightarrow> oo_jobs r = map (job_at (oo_now r)) (filter (\<lambda>a. oo_now r \<le> due a) (oo_accepted r)) \<and>
     mset (oo_answered r) = image_mset answer_of (mset (filter (\<lambda>a. due a < oo_now r) (oo_accepted r))) \<and>
     (\<forall>a \<in> set (oo_accepted r). fst a < oo_now r) \<and> sorted (map fst (oo_answered r)) \<and> (\<forall>a \<in> set (oo_answered r). fst a < oo_now r)"

lemma ooo_inv_start: "ooo_inv (driver_new s)"
  by (simp add: ooo_inv_def driver_new_def)

lemma job_at_left:
  assumes "now \<le> due a" "fst a \<le> now"
  shows "fl_left (job_at now a) > 1 \<longleftrightarrow> Suc now \<le> due a"
    "(job_at now a)\<lparr>fl_left := fl_left (job_at now a) - 1\<rparr> = job_at (Suc now) a"
  using assms by (cases a; simp add: job_at_def due_def max_def split: if_splits; arith)+

lemma job_at_entry: "due a = now \<Longrightarrow> job_entry now (job_at now a) = answer_of a"
  by (cases a) (simp add: job_at_def answer_of_def)

lemma sorted_const: "\<forall>x \<in> set xs. x = (k :: nat) \<Longrightarrow> sorted xs"
  by (induction xs) auto

lemma driver_tick_inv:
  assumes "ooo_inv r" "driver_tick others r = Inr r'"
  shows "ooo_inv r'"
proof -
  let ?now = "oo_now r"
  obtain jobs s ws where acc: "accept_half (oo_jobs r) (fst others (oo_seqr r)) = Inr (jobs, s, ws)"
    using assms(2) by (cases "accept_half (oo_jobs r) (fst others (oo_seqr r))") (auto simp: driver_tick_def)
  from accept_half_jobs [OF acc] obtain new where new: "jobs = oo_jobs r @ new" "\<forall>j \<in> set new. fl_left j = fl_delay j"
    "map (job_entry ?now) new = map (Pair ?now) (handed (fst others (oo_seqr r)))" by blast
  define A where "A = oo_accepted r @ map (job_entry ?now) new"
  have le: "fst a \<le> ?now" if "a \<in> set A" for a
    using assms(1) that by (auto simp: A_def ooo_inv_def less_imp_le)
  have newdue: "?now \<le> due (job_entry ?now j)" for j by (simp add: due_def)
  have newjob: "map (job_at ?now) (map (job_entry ?now) new) = new"
    using new(2) by (auto simp: job_at_def intro!: map_idI)
  have jobs: "jobs = map (job_at ?now) (filter (\<lambda>a. ?now \<le> due a) A)"
    using assms(1) newjob newdue by (simp add: new(1) A_def ooo_inv_def filter_True)
  have kept: "map (\<lambda>j. j\<lparr>fl_left := fl_left j - 1\<rparr>) (filter (\<lambda>j. fl_left j > 1) jobs) =
      map (job_at (Suc ?now)) (filter (\<lambda>a. Suc ?now \<le> due a) A)"
    unfolding jobs filter_map comp_def filter_filter map_map
    using le job_at_left by (auto intro!: arg_cong2 [of _ _ _ _ map] filter_cong map_cong)
  have answers: "map (job_entry ?now) (filter (\<lambda>j. \<not> fl_left j > 1) jobs) = map answer_of (filter (\<lambda>a. due a = ?now) A)"
  proof -
    have "filter (\<lambda>a. ?now \<le> due a \<and> \<not> fl_left (job_at ?now a) > 1) A = filter (\<lambda>a. due a = ?now) A"
      using le job_at_left(1) [of ?now] by (intro filter_cong) fastforce+
    then show ?thesis unfolding jobs filter_map comp_def filter_filter map_map by (auto simp: job_at_entry)
  qed
  have filed: "map (Pair ?now) (filed (snd others s) (fst (snd (age_half jobs [] (snd others s))))) =
      map (job_entry ?now) (filter (\<lambda>j. \<not> fl_left j > 1) jobs)"
    by (simp add: filed_def age_half_eq(2))
  have r': "oo_now r' = Suc ?now" "oo_jobs r' = map (job_at (Suc ?now)) (filter (\<lambda>a. Suc ?now \<le> due a) A)" "oo_accepted r' = A"
    "oo_answered r' = oo_answered r @ map answer_of (filter (\<lambda>a. due a = ?now) A)"
    using assms(2) acc kept answers filed age_half_eq(1) [of jobs "[]" "snd others s"]
    by (auto simp: driver_tick_def new(1) A_def new(3) split: prod.splits)
  have early: "filter (\<lambda>a. due a < ?now) A = filter (\<lambda>a. due a < ?now) (oo_accepted r)"
    using newdue by (simp add: A_def filter_False not_less)
  have "filter_mset (\<lambda>a. due a < Suc ?now) (mset A) = filter_mset (\<lambda>a. due a < ?now) (mset A) + filter_mset (\<lambda>a. due a = ?now) (mset A)"
    by (induction A) (auto simp: less_Suc_eq)
  then have "mset (oo_answered r') = image_mset answer_of (mset (filter (\<lambda>a. due a < Suc ?now) A))"
    using assms(1) early by (simp add: r' ooo_inv_def flip: mset_filter mset_map)
  moreover have "\<forall>a \<in> set A. fst a < Suc ?now" using le by (simp add: less_Suc_eq_le)
  moreover have now: "\<forall>a \<in> set (map answer_of (filter (\<lambda>a. due a = ?now) A)). fst a = ?now" by (auto simp: answer_of_def)
  then have "sorted (map fst (map answer_of (filter (\<lambda>a. due a = ?now) A)))"
    by (intro sorted_const [of _ ?now]) auto
  with assms(1) now have "sorted (map fst (oo_answered r'))"
    unfolding r' map_append sorted_append by (fastforce simp: ooo_inv_def)
  moreover have "\<forall>a \<in> set (oo_answered r'). fst a < Suc ?now"
    using assms(1) now by (auto simp: r' ooo_inv_def less_SucI)
  ultimately show ?thesis by (simp add: ooo_inv_def r')
qed

lemma driver_ticks_inv: "ooo_inv r \<Longrightarrow> driver_ticks oss r = Inr r' \<Longrightarrow> ooo_inv r' \<and> oo_now r' = oo_now r + length oss"
proof (induction oss arbitrary: r)
  case (Cons os oss)
  from Cons.prems(2) obtain r1 where r1: "driver_tick os r = Inr r1" "driver_ticks oss r1 = Inr r'" by (auto split: sum.splits)
  have "oo_now r1 = Suc (oo_now r)" using r1(1) by (auto simp: driver_tick_def split: sum.splits prod.splits)
  with Cons.IH [OF driver_tick_inv [OF Cons.prems(1) r1(1)] r1(2)] show ?case by simp
qed simp

text \<open>The halves keep the sequencer free, so the driver never panics as long as nobody else takes items.\<close>

lemma age_half_current: "se_current (fst (snd (age_half jobs still s))) = se_current s"
  by (induction jobs arbitrary: still s) (simp_all add: put_response_def split_def)

lemma accept_half_total:
  assumes "se_current s = None"
  shows "\<exists>jobs' s' ws. accept_half jobs s = Inr (jobs', s', ws) \<and> se_current s' = None"
  using assms
  by (cases "q_buf (se_queue s)")
    (auto simp: accept_half_def try_next_item_def try_get_def set_granted_def item_done_def upd_slot_def Let_def split_def split: option.splits)

lemma driver_ticks_total:
  assumes "se_current (oo_seqr r) = None" "\<And>os s. os \<in> set oss \<Longrightarrow> se_current s = None \<Longrightarrow> se_current (fst os s) = None \<and> se_current (snd os s) = None"
  shows "\<exists>r'. driver_ticks oss r = Inr r'"
  using assms
proof (induction oss arbitrary: r)
  case (Cons os oss)
  have "se_current (fst os (oo_seqr r)) = None" using Cons.prems by simp
  from accept_half_total [OF this, of "oo_jobs r"] obtain jobs s ws where
    a: "accept_half (oo_jobs r) (fst os (oo_seqr r)) = Inr (jobs, s, ws)" "se_current s = None" by blast
  then obtain r1 where r1: "driver_tick os r = Inr r1" "oo_seqr r1 = fst (snd (age_half jobs [] (snd os s)))"
    by (auto simp: driver_tick_def split_def)
  have "se_current (oo_seqr r1) = None" using Cons.prems(2) [of os s] a(2) by (simp add: r1(2) age_half_current)
  from Cons.IH [OF this] Cons.prems(2) r1(1) show ?case by simp
qed simp

section \<open>Properties\<close>

text \<open>C38: The driver that answers out of order: whatever the sequences do to the sequencer between the halves of
  its ticks, as long as nobody else takes items, it never panics, and what it has answered by any moment is
  exactly what it had taken in and was due: each request once, under its own ticket, with its own delay,
  in the tick that completes the delay, and the answers go out in the order of those ticks.\<close>

theorem answers_when_due:
  assumes "se_current s = None" "\<And>os s. os \<in> set oss \<Longrightarrow> se_current s = None \<Longrightarrow> se_current (fst os s) = None \<and> se_current (snd os s) = None"
  shows "\<exists>r. driver_ticks oss (driver_new s) = Inr r \<and> sorted (map fst (oo_answered r)) \<and>
    mset (oo_answered r) = image_mset (\<lambda>(t, ticket, delay). (t + max 1 delay - 1, ticket, delay))
      {#(t, ticket, delay) \<in># mset (oo_accepted r). t + max 1 delay - 1 < length oss#}"
proof -
  from driver_ticks_total [of "driver_new s" oss] assms obtain r where r: "driver_ticks oss (driver_new s) = Inr r"
    by (auto simp: driver_new_def)
  have e: "answer_of = (\<lambda>(t, ticket, delay). (t + max 1 delay - 1, ticket, delay))" "due = (\<lambda>(t, ticket, delay). t + max 1 delay - 1)"
    by (auto simp: answer_of_def due_def)
  from driver_ticks_inv [OF ooo_inv_start r] have i: "ooo_inv r" "oo_now r = length oss" by (simp_all add: driver_new_def)
  with r show ?thesis unfolding ooo_inv_def e by (auto simp: case_prod_unfold)
qed

text \<open>A run in which a sequence asks for two ticks: its first turn queues for a grant, its second fills in the
  request, the third tick takes it and the fourth answers.\<close>

definition turn_of :: "seq_ctx \<times> (nat, nat, unit) thread \<Rightarrow> (nat, nat) seqr_inner \<Rightarrow> (nat, nat) seqr_inner" where
  "turn_of ct s = (case thread_turn 3 ct s of Inr (_, s') \<Rightarrow> s' | Inl _ \<Rightarrow> s)"

definition asking :: "seq_ctx \<times> (nat, nat, unit) thread" where
  "asking = (seq_ctx_new True ''Seq'' 1, Th_start Si_start (Tell 2 (Ret ())))"

definition granted :: "seq_ctx \<times> (nat, nat, unit) thread" where
  "granted = (case thread_turn 3 asking sequencer_new of Inr (ct, _) \<Rightarrow> ct | Inl _ \<Rightarrow> asking)"

lemma si_granted_current: "si_granted w n ctx s ws = Inr (ctx', (s', ws'), st, r) \<Longrightarrow> se_current s' = se_current s"
  by (auto simp: si_granted_def upd_slot_def split: prod.splits poll.splits)

lemma si_put_current: "si_put w n item ctx s = Inr (ctx', (s', ws'), st, r) \<Longrightarrow> se_current s' = se_current s"
  by (auto simp: si_put_def split: sum.splits prod.splits poll.splits dest: si_granted_current)

lemma fi_done_current: "fi_done w n ctx s ws = Inr (ctx', (s', ws'), st, r) \<Longrightarrow> se_current s' = se_current s"
  by (auto simp: fi_done_def upd_slot_def split: prod.splits poll.splits)

lemma thread_poll_current:
  "thread_poll w ct s = Inr (ctx, t, (s', ws), b) \<Longrightarrow> se_current s' = se_current s"
  by (auto simp: thread_poll_def item_start_poll_def item_finish_poll_def item_response_poll_def start_item_poll_def
      finish_item_poll_def ctx_get_response_poll_def Let_def
      split: thread.splits prog.splits sum.splits prod.splits poll.splits si.splits fi.splits option.splits if_splits
      dest: si_put_current si_granted_current fi_done_current)

lemma thread_turn_current: "thread_turn n ct s = Inr (ct', s') \<Longrightarrow> se_current s' = se_current s"
  by (induction n arbitrary: ct s) (auto split: sum.splits if_splits dest!: thread_poll_current)

lemma turn_of_current [simp]: "se_current (turn_of ct s) = se_current s"
  by (auto simp: turn_of_def split: sum.splits dest: thread_turn_current)

lemma asking_run:
  "map_sum id oo_accepted (driver_ticks [(id, turn_of asking), (id, turn_of granted), (id, id), (id, id)] (driver_new sequencer_new)) =
     Inr [(2, 1, 2)]"
  by code_simp

theorem answers_when_due_witness:
  "\<exists>r. driver_ticks [(id, turn_of asking), (id, turn_of granted), (id, id), (id, id)] (driver_new sequencer_new) = Inr r \<and>
     oo_accepted r = [(2, 1, 2)] \<and> oo_answered r = [(3, 1, 2)]"
proof -
  let ?oss = "[(id :: (nat, nat) seqr_inner \<Rightarrow> _, turn_of asking), (id, turn_of granted), (id, id), (id, id)]"
  have cur: "se_current (sequencer_new :: (nat, nat) seqr_inner) = None" by (simp add: sequencer_new_def)
  have keep: "se_current (fst os s) = None \<and> se_current (snd os s) = None" if "os \<in> set ?oss" "se_current s = None" for os s
    using that by auto
  have "\<exists>r. driver_ticks ?oss (driver_new sequencer_new) = Inr r \<and> sorted (map fst (oo_answered r)) \<and>
    mset (oo_answered r) = image_mset (\<lambda>(t, ticket, delay). (t + max 1 delay - 1, ticket, delay))
      {#(t, ticket, delay) \<in># mset (oo_accepted r). t + max 1 delay - 1 < length ?oss#}"
    by (rule answers_when_due [OF cur]) (rule keep)
  then obtain r where r: "driver_ticks ?oss (driver_new sequencer_new) = Inr r"
    "mset (oo_answered r) = image_mset (\<lambda>(t, ticket, delay). (t + max 1 delay - 1, ticket, delay))
      {#(t, ticket, delay) \<in># mset (oo_accepted r). t + max 1 delay - 1 < length ?oss#}" by blast
  from r(1) asking_run have a: "oo_accepted r = [(2, 1, 2)]" by (simp del: driver_ticks.simps)
  from r(2) have "mset (oo_answered r) = {#(3, 1, 2)#}" by (simp add: a)
  then have "oo_answered r = [(3, 1, 2)]" by simp
  with r(1) a show ?thesis by blast
qed

text \<open>The chapter's transcript: four requests with falling delays, collected in the reverse order, each
  under its own ticket, and then nothing is outstanding and nothing left over.\<close>

lemma reverse_order:
  "map_sum id (\<lambda>b. (be_got b, be_waiting b, be_jobs b, rq_items (se_responses (be_seqr b)))) (ooo_bench_ticks 12 ooo_bench_new) =
     Inr ([(4, 1), (3, 4), (2, 7), (1, 10)], [], [], [])"
  by code_simp

end
