(* ===== verification/Test_Race.thy ===== *)
theory Test_Race
  imports Runner_Model Objection_Model
begin

text \<open>
  How the runner waits for one test (\<open>rustdv-runner/src/rustdv_runner.rs\<close>, the middle of \<open>run_one\<close>): the
  future it spawns for the test, which is the body followed by the wait for the outstanding objections,
  the race of that task against the timer of the timeout, and the cancellation of what the test left
  running. \<open>Runner_Model\<close> has everything before and after; there the three together are the parameter
  that gives the raw result.
\<close>

section \<open>The test task\<close>

text \<open>The body may raise and drop objections in the registry, which is part of the world. \<open>Tf_drain\<close>: the
  body has returned and the task waits for the last guard.\<close>

datatype 'f test_fut = Tf_body 'f | Tf_drain "test_error + unit"

definition test_poll :: "('f, obj_inner \<times> 'x, test_error + unit) poller \<Rightarrow> ('f test_fut, obj_inner \<times> 'x, test_error + unit) poller" where
  "test_poll body f w s =
     (case f of
        Tf_body b \<Rightarrow>
          (case body b w s of
             (b', s', Pending) \<Rightarrow> (Tf_body b', s', Pending)
           | (b', s', Ready result) \<Rightarrow>
               if ob_raised_ever (fst s')
               then (case wait_all_dropped_start (fst s') w of
                       (r, _, Pending) \<Rightarrow> (Tf_drain result, (r, snd s'), Pending)
                     | (r, _, Ready _) \<Rightarrow> (Tf_drain result, (r, snd s'), Ready result))
               else (Tf_body b', s', Ready result))
      | Tf_drain result \<Rightarrow>
          (case wait_drained_poll (fst s) w of
             (r, Pending) \<Rightarrow> (f, (r, snd s), Pending)
           | (r, Ready _) \<Rightarrow> (f, (r, snd s), Ready result)))"

section \<open>The race\<close>

definition handle_fut :: "(task_id, ('f, 'v, 'w) exec, task_error + 'v) poller" where
  "handle_fut h w e = (case handle_poll w h e of (e', r) \<Rightarrow> (h, e', r))"

definition race_poll :: "timer option \<Rightarrow> task_id \<Rightarrow> waker \<Rightarrow> ('f, test_error + unit, 'w) exec
    \<Rightarrow> timer option \<times> ('f, test_error + unit, 'w) exec \<times> raw_result poll" where
  "race_poll tm h w e =
     (case tm of
        Some t \<Rightarrow>
          (case first2_poll handle_fut timer_fut (h, t) w e of
             ((_, t'), e', Pending) \<Rightarrow> (Some t', e', Pending)
           | ((_, t'), e', Ready (First r)) \<Rightarrow> (Some t', e', Ready (Some r))
           | ((_, t'), e', Ready (Second _)) \<Rightarrow> (Some t', e', Ready None))
      | None \<Rightarrow>
          (case handle_poll w h e of
             (e', Pending) \<Rightarrow> (None, e', Pending)
           | (e', Ready r) \<Rightarrow> (None, e', Ready (Some r))))"

text \<open>Spawning the test's task, with the watermark taken before.\<close>

definition spawn_test :: "'f \<Rightarrow> test_reg \<Rightarrow> ('f, 'v, 'w) exec \<Rightarrow> task_id \<times> task_id \<times> ('f, 'v, 'w) exec" where
  "spawn_test fut reg e = (let wm = watermark e; (e', h) = spawn_named fut (Some (tr_name reg)) e in (wm, h, e'))"

text \<open>One poll of the runner while it waits: when the race is over the survivors are cancelled and the raw
  result is turned into an outcome. \<open>keys\<close> is the order in which the task table is walked.\<close>

definition await_test :: "('f, 'w) destructor \<Rightarrow> task_id list \<Rightarrow> test_reg \<Rightarrow> task_id \<Rightarrow> task_id
    \<Rightarrow> timer option \<Rightarrow> waker \<Rightarrow> ('f, test_error + unit, 'w) exec
    \<Rightarrow> timer option \<times> ('f, test_error + unit, 'w) exec \<times> test_outcome may_panic poll" where
  "await_test dr keys reg wm h tm w e =
     (case race_poll tm h w e of
        (tm', e', Pending) \<Rightarrow> (tm', e', Pending)
      | (tm', e', Ready raw) \<Rightarrow> (tm', cancel_after dr keys wm e', Ready (raw_outcome (tr_timeout reg) raw)))"

section \<open>Lemmas\<close>

definition timer_fired :: "timer option \<Rightarrow> bool" where
  "timer_fired tm \<longleftrightarrow> (\<exists>t sg. tm = Some t \<and> tm_shared t = Some sg \<and> tg_fired sg)"

definition cell_result :: "'v task_shared \<Rightarrow> task_error + 'v" where
  "cell_result sh = (case sh_result sh of Some r \<Rightarrow> r | None \<Rightarrow> Inl TeInvalidState)"

text \<open>Whoever comes first wakes the runner.\<close>

definition armed :: "timer option \<Rightarrow> task_id \<Rightarrow> waker \<Rightarrow> ('f, 'v, 'w) exec \<Rightarrow> bool" where
  "armed tm h w e \<longleftrightarrow> (\<forall>t. tm = Some t \<longrightarrow> snd (timer_callback t) = [w] \<and> timer_fired (Some (fst (timer_callback t)))) \<and>
     (\<forall>r. w \<in> set (ex_woken (complete h r e)))"

lemma race_poll_cases:
  assumes "ex_shared e h = Some sh" "race_poll tm h w e = (tm', e', res)"
  shows "res = (if done_state (sh_state sh) then Ready (Some (cell_result sh))
      else if timer_fired tm then Ready None else Pending)"
    and "res = Pending \<Longrightarrow> armed tm' h w e'"
    and "e' = fst (handle_poll w h e)" "tm' = None \<longleftrightarrow> tm = None"
  using assms
  by (auto simp: race_poll_def handle_fut_def handle_poll_def handle_result_def first2_poll_def timer_fut_def timer_poll_def
      timer_fired_def cell_result_def armed_def timer_callback_def trig_fire_def trig_set_waker_def trig_new_def complete_def
      Let_def split: option.splits if_splits)

lemma tasks_handle_poll: "ex_tasks (fst (handle_poll w h e)) = ex_tasks e"
  and polling_handle_poll: "ex_polling (fst (handle_poll w h e)) = ex_polling e"
  by (auto simp: handle_poll_def handle_result_def split: option.split)

section \<open>Properties\<close>

text \<open>The result of a test is not reported while an objection stands: whatever the body does with the registry,
  a poll in which the test's task returns leaves no objection raised, and the value it returns is the
  one the body returned.\<close>

theorem test_waits_for_objections:
  assumes "test_poll body f w s = (f', s', Ready result)"
    and "obj_reachable (fst (case f of Tf_body b \<Rightarrow> fst (snd (body b w s)) | Tf_drain _ \<Rightarrow> s)) gs"
  shows "gs = [] \<and> (case f of Tf_body b \<Rightarrow> snd (snd (body b w s)) = Ready result | Tf_drain r \<Rightarrow> r = result)"
  using assms obj_reachable_inv [OF assms(2)]
  by (auto simp: test_poll_def obj_inv_def wait_all_dropped_start_def wait_drained_poll_def event_poll_def
      split: test_fut.splits prod.splits poll.splits if_splits)

text \<open>C25: A timeout ends its test: once the timer has fired, the next poll of the runner ends the test, however long
  its body would still run and whatever its tasks have done. A poll of the runner at any state of the executor gives the result of the test's task if the task is
  done; else, if the callback of the timer has fired, the timeout as the failure; and only otherwise it
  stays pending, and then both are armed: the callback of the timer and the completion of the task each wake
  the runner. When the poll ends the test, every task spawned since the watermark is gone from the
  executor, those that were still running (the test's own after a timeout) report Cancelled to their
  handles, and the tasks from before the test are untouched.\<close>

theorem timeout_ends_test:
  assumes "exec_inv e" "ex_shared e h = Some sh" "ex_polling e = Some me" "me < wm" "set keys = dom (ex_tasks e)"
    and "tr_timeout reg = Some (n, unit)"
    and "await_test dr keys reg wm h (Some t) w e = (tm', e', res)"
  shows "res = (if done_state (sh_state sh) then Ready (raw_outcome (tr_timeout reg) (Some (cell_result sh)))
      else if timer_fired (Some t) then Ready (Inr (fail (''timeout after '' @ dec_string (unat n) @ unit))) else Pending) \<and>
    (res = Pending \<longrightarrow> armed tm' h w e' \<and> ex_tasks e' = ex_tasks e) \<and>
    (res \<noteq> Pending \<longrightarrow> exec_inv e' \<and> (\<forall>i. ex_tasks e' i = (if i < wm then ex_tasks e i else None)) \<and>
      (\<forall>i. i \<in> dom (ex_tasks e) \<and> wm \<le> i \<longrightarrow> cancelled_cell e' i))"
proof -
  obtain tm1 e1 raw where r: "race_poll (Some t) h w e = (tm1, e1, raw)" by (cases "race_poll (Some t) h w e")
  note c = race_poll_cases [OF assms(2) r]
  have inv: "exec_inv e1" and tasks: "ex_tasks e1 = ex_tasks e" and "ex_polling e1 = Some me"
    using exec_inv_handle_poll [OF assms(1)] assms(3) by (simp_all add: c(3) tasks_handle_poll polling_handle_poll)
  then have "ex_polling e1 = Some i \<Longrightarrow> i < wm" for i using assms(4) by simp
  note ends = cancel_after_ends [OF inv this, unfolded tasks, OF _ assms(5), simplified]
  have "raw_outcome (tr_timeout reg) None = Inr (fail (''timeout after '' @ dec_string (unat n) @ unit))"
    by (simp add: raw_outcome_def assms(6))
  then show ?thesis
    using assms(7) c(1,2) ends tasks
    by (cases raw) (auto simp: await_test_def r intro: ends(3) domI split: if_splits)
qed

section \<open>An example\<close>

text \<open>The runner is task 1, in the middle of a poll; its test spawned as task 2 never returns.\<close>

definition stuck_reg :: test_reg where
  "stuck_reg = (demo_reg ''stuck'' 1)\<lparr>tr_timeout := Some (5, ''ns'')\<rparr>"

definition stuck_exec :: "(nat, test_error + unit, unit) exec" where
  "stuck_exec = snd (snd (spawn_test 9 stuck_reg
     (start_poll 1 \<lparr>te_fut = Some 0, te_name = ''regression'', te_state = TsScheduled\<rparr>
       ((fst (spawn_named 0 (Some ''regression'') (exec_init ())))\<lparr>ex_run_queue := []\<rparr>))))"

definition rung_timer :: timer where
  "rung_timer = fst (timer_callback (fst (timer_poll \<lparr>tm_steps = 5, tm_shared = None, tm_cb = False\<rparr> 1)))"

lemma stuck_exec_eq:
  "ex_tasks stuck_exec = [1 \<mapsto> \<lparr>te_fut = None, te_name = ''regression'', te_state = TsRunning\<rparr>,
     2 \<mapsto> \<lparr>te_fut = Some 9, te_name = ''stuck'', te_state = TsScheduled\<rparr>]"
  "ex_shared stuck_exec = [1 \<mapsto> \<lparr>sh_state = TsRunning, sh_result = None, sh_joiners = []\<rparr>,
     2 \<mapsto> \<lparr>sh_state = TsScheduled, sh_result = None, sh_joiners = []\<rparr>]"
  "ex_polling stuck_exec = Some 1" "ex_run_queue stuck_exec = [2]" "ex_next_id stuck_exec = 3" "ex_cancel_pending stuck_exec = []"
  by (simp_all add: stuck_exec_def spawn_test_def spawn_named_def start_poll_def cell_defs exec_init_def stuck_reg_def
      demo_reg_def fun_eq_iff)

lemma stuck_inv: "exec_inv stuck_exec"
  by (auto simp: exec_inv_def inv_at_def stuck_exec_eq split: option.splits if_splits)

theorem timeout_ends_test_witness:
  "\<exists>tm e. await_test no_drop [2, 1] stuck_reg 2 2 (Some rung_timer) 1 stuck_exec = (tm, e, Ready (Inr (fail ''timeout after 5ns''))) \<and>
     ex_tasks e 2 = None \<and> cancelled_cell e 2"
proof -
  obtain tm e res where r: "await_test no_drop [2, 1] stuck_reg 2 2 (Some rung_timer) 1 stuck_exec = (tm, e, res)"
    by (cases "await_test no_drop [2, 1] stuck_reg 2 2 (Some rung_timer) 1 stuck_exec")
  have k: "set [2, 1] = dom (ex_tasks stuck_exec)" by (auto simp: stuck_exec_eq split: if_splits)
  have sh: "ex_shared stuck_exec 2 = Some \<lparr>sh_state = TsScheduled, sh_result = None, sh_joiners = []\<rparr>" by (simp add: stuck_exec_eq)
  have f: "timer_fired (Some rung_timer)"
    by (simp add: timer_fired_def rung_timer_def timer_callback_def timer_poll_def trig_fire_def trig_set_waker_def trig_new_def Let_def)
  have n: "dec_string 5 = ''5''" by (simp add: dec_string.simps digit_char_def)
  have "2 \<in> dom (ex_tasks stuck_exec)" by (simp add: stuck_exec_eq)
  with timeout_ends_test [OF stuck_inv sh stuck_exec_eq(3) _ k _ r, of 5 "''ns''"] f n r show ?thesis
    by (simp add: stuck_reg_def done_state_def)
qed

definition guard_world :: "obj_inner \<times> unit" where
  "guard_world = (raise registry_new ''late'', ())"

theorem test_waits_for_objections_witness:
  "snd (snd (test_poll (\<lambda>b w s. (b, (fst (objection_drop (fst s) ''late''), ()), Ready (Inr ()))) (Tf_body ()) 0 guard_world)) =
     Ready (Inr ()) \<and> ob_active (fst (objection_drop (raise registry_new ''late'') ''late'')) = []"
proof -
  let ?b = "\<lambda>(b :: unit) (w :: waker) s. (b, (fst (objection_drop (fst s) ''late''), ()), Ready (Inr ()))"
  have "obj_reachable (fst (objection_drop (raise registry_new ''late'') ''late'')) (remove1 ''late'' ([] @ [''late'']))"
    by (intro obj_reachable.intros) simp
  moreover have r: "\<exists>f' s'. test_poll ?b (Tf_body ()) 0 guard_world = (f', s', Ready (Inr ()))"
    by (simp add: test_poll_def guard_world_def objection_drop_def raise_def registry_new_def event_new_def event_clear_def
        event_set_def wait_all_dropped_start_def Let_def)
  then obtain f' s' where "test_poll ?b (Tf_body ()) 0 guard_world = (f', s', Ready (Inr ()))" by blast
  ultimately show ?thesis using test_waits_for_objections [of ?b "Tf_body ()" 0 guard_world f' s' "Inr ()"]
    by (auto simp: guard_world_def objection_drop_def raise_def registry_new_def Let_def)
qed

end
