(* ===== verification/Spec2Isabelle.thy ===== *)
theory Spec2Isabelle
  imports Executor_Model Component_Model Channel_Model Objection_Model Tlm_Model Seq_Slot Handle_Model Runner_Model Ctx_Model Stream_Model Tinyalu_Tb Testing_Model Trace_Model Macro_Model Error_Model Run_Phase Shared_Model Book_Bfm Book_Out_Of_Order Test_Race
begin

text \<open>
  A verification library for rustdv, a hardware verification framework in Rust: simulator
  coroutines over the VPI, and on top of them a testbench methodology in the style of the UVM.

  The program and its theories, bottom up. Every theory opens with what it holds; operations keep
  their Rust names where a name is free. A panic is a value (\<open>may_panic\<close>), an error the left side of a
  sum, waking a task the list of wakers an operation returns, in order.

  \<^item> Executor (\<open>rustdv-sim/src/executor.rs\<close>): \<open>Executor_Model\<close>. Task table, run and woken queues,
    deferred cancellation, handles. A user future is a parameter: what one poll of it does. Shown:
    the bookkeeping invariant, that a drain returns and ends quiescent, that a terminal state is
    final, what cancelling everything after a watermark kills. \<open>Testing_Model\<close> is the unit-test
    harness over it (\<open>testing.rs\<close>).
  \<^item> Synchronisation (\<open>queue.rs\<close>, \<open>sync.rs\<close>, \<open>triggers.rs\<close>, \<open>combinators.rs\<close>, and \<open>channel.rs\<close>, \<open>objection.rs\<close>
    of the methodology): \<open>Queue_Model\<close>, \<open>Sync_Model\<close>, \<open>Trigger_Model\<close>, \<open>Channel_Model\<close>, \<open>Objection_Model\<close>. One
    definition per poll, a step relation over all the ways tasks can touch the object, and by rule
    induction that no task is parked on a condition that holds, mutual exclusion, fairness and
    FIFO order. \<open>Fifo_Spec\<close> is the abstract bounded FIFO as a locale; the queue, the tapped FIFO and
    the channel interpret it, and the first theorem below puts the three refinements together.
  \<^item> Simulation phases and writes (\<open>phase.rs\<close>): \<open>Phase_Model\<close>. The hub with its three callbacks, the write
    buffer and the phase futures; an executor run inside a callback is any interleaving of further
    operations. Time and clocks (\<open>time.rs\<close>, \<open>clock.rs\<close>): \<open>Time_Model\<close>, with 64-bit arithmetic checked or
    wrapping. Random numbers (\<open>rng.rs\<close>): \<open>Rng_Model\<close>, on words.
  \<^item> The simulator interface (\<open>rustdv-gpi\<close> and \<open>rustdv-sim/src/handle*\<close>): \<open>Logic_Value\<close> (four-state vectors),
    \<open>Gpi_Signal\<close> (typed reads and writes through vector words), \<open>Gpi_Callback\<close> (life of a registered
    callback with its reference count), \<open>Gpi_Handle\<close> and \<open>Handle_Model\<close> (object handles). The VPI
    functions are a record of functions, the big-integer crate a record of operations with the
    laws the code uses as a locale. \<open>Trace_Model\<close> is waveform capture (\<open>simulator_trace.rs\<close>).
  \<^item> Methodology (\<open>rustdv-methodology\<close>): paths and logging (\<open>Path_Model\<close>, \<open>Log_Model\<close>), the configuration
    database with globs and precedences over a sorted map (\<open>Btree_Map\<close>, \<open>Config_Db\<close>), the factory
    (\<open>Factory_Model\<close>), ports, FIFO and analysis bus (\<open>Tlm_Model\<close>), sequencer and sequences
    (\<open>Sequence_Model\<close> for the handshake, \<open>Seq_Slot\<close> for how a sequence is named, chosen and started,
    \<open>Seq_Machine\<close>, \<open>Seq_System\<close> and \<open>Seq_Wakeups\<close> for any number of sequences and a driver at work as tasks of the
    executor: the futures refine a machine without events and wakers, every sequence comes to the
    value of its body, every item reaches the driver once and in order, no wake-up is lost, and every
    run of the executor ends with everything done; \<open>Progress_Spec\<close> is the argument as a locale),
    the component tree with its phase walks (\<open>Component_Model\<close>), the run phase as the futures it is, with every interleaving of the bodies shown to come to an outcome of
    \<open>Component_Model\<close> (\<open>Run_Phase\<close>), the test context (\<open>Ctx_Model\<close>), error conversions (\<open>Error_Model\<close>), shared
    cells with their run-time borrow check (\<open>Shared_Model\<close>). What a component does in a phase, and in
    one poll of its run body, is a parameter.
  \<^item> Macros (\<open>rustdv-macros\<close>): \<open>Macro_Model\<close>, from the parsed syntax to the registration of a test and to
    the children and ports of a component; the visitors are in \<open>Component_Model\<close>.
  \<^item> Runner (\<open>rustdv-runner\<close>): \<open>Runner_Model\<close>. Registry, selection, seeds, one test, the regression, the
    summary and the report. The environment and the bodies of tests are a record. \<open>Test_Race\<close> has the
    wait in the middle of one test: the body with its objections, the race against the timeout on the
    executor of \<open>Executor_Model\<close>, and the cancellation of what is left.
  \<^item> Cycle models (\<open>rustdv-cycle\<close>, \<open>rustdv/src/cycle_vpi.rs\<close>): \<open>Cycle_Model\<close>, with the C interface as a store of
    boxed contexts. \<open>Stream_Model\<close> is the stream benchmark of \<open>rustdv/benchmarks\<close> with its checker, run
    against the design it checks.
  \<^item> The worked example (\<open>rustdv/tinyalu_tb\<close>): \<open>Tinyalu_Bfm\<close> and \<open>Tinyalu_Tb\<close>, the bus functional model, the
    scoreboard and the sequences together with the device \<open>sim/hdl/tinyalu.sv\<close>, from reset to verdict.

  \<^item> The book's sequence testbenches (\<open>output/examples\<close>, chapters 36 to 39 and the shared crate):
    \<open>Book_Sequences\<close>, the stimulus patterns, the Fibonacci sequence and program, the virtual sequences, the
    scoreboard and the watcher, on the sequencer of \<open>Seq_Machine\<close>, with the device as an argument;
    \<open>Book_Bfm\<close>, their bus functional model, seen to carry the same traffic as the worked example's, and the
    testbenches run with the TinyALU itself as the device;
    \<open>Book_Out_Of_Order\<close>, the driver that answers late.

  \<open>Rustdv_Prelude\<close> has the shared vocabulary and the generic lemmas.

  Loops and bounds. Loops over data are structural or have a termination measure. The drain of the
  executor may not end: it is a partial function, and it returns whenever the tasks have a rank
  that decreases with every poll. A phase walk whose hooks may create children carries a depth,
  and a depth of the height of the tree the hooks build gives a result; the same holds of a poll of
  the run phase, whose futures nest as deep as the tree. The VPI adapter, the stream
  benchmark and the wait for a quiet bus run for a given number of clock edges; for the last, six
  edges per command and seven more are proved to be enough. A turn of the book's driver has fuel for eight
  periods, a fair schedule of the sequencer one round for every unit of its work, and both are proved to be enough.

  Machine arithmetic is on words of the source's width where it matters: times, random numbers,
  vector words, checksums, results. Task and transaction numbers only count up and are naturals.

  Assumptions about user code and the standard library. Subscribers of a tapped FIFO own their state,
  where a statement says so. A run body changes its component's own fields and the shared world, not the
  children left in place. Reading the configuration sorts the matching globs with the insertion sort
  the standard library uses for up to twenty elements.

  Not modelled: floating-point rendering of times, writing report files, the registration of the
  start-of-simulation hook, the declarations of the C interface, the stubs for unit tests, the
  run-time borrow check of the framework's own cells, and the figures of the book other than those named.
\<close>

section \<open>Properties that span components\<close>

text \<open>C4: The queue, the tapped FIFO and the bounded channel implement one abstract machine, the bounded
  FIFO: any sequence of put and take attempts gives the same answers on them as on the pair of
  their bound and their items, whatever tasks are parked, and leaves the implementation at the state
  the abstract machine ends in. For the tapped FIFO this is with any subscribers that change only
  their own state when they are written to; one that comes back to the FIFO can take the place the
  item was let in for.\<close>

theorem buffers_refine_fifo:
  "fifo_run spec_push spec_pop (q_cap q, q_buf q) ops =
     (case fifo_run queue_put_now queue_take_now q ops of (q', a, d) \<Rightarrow> ((q_cap q', q_buf q'), a, d)) \<and>
   fifo_run spec_push spec_pop (q_cap (fi_q f), q_buf (fi_q f)) ops =
     (case fifo_run (fifo_push wr) (fifo_pop wr) f ops of (f', a, d) \<Rightarrow> ((q_cap (fi_q f'), q_buf (fi_q f')), a, d)) \<and>
   fifo_run spec_push spec_pop (Some (max cap 1), []) ops =
     (case fifo_run chan_push chan_pop (channel cap) ops of (c', a, d) \<Rightarrow> ((Some (ch_cap c'), ch_buf c'), a, d))"
proof -
  have c: "ch_receivers (channel cap) > 0" "ch_cap (channel cap) = max cap 1" "ch_buf (channel cap) = []"
    by (simp_all add: channel_def)
  show ?thesis
    using qnow.run_refines [OF TrueI, of q ops] tf.run_refines [OF TrueI, of wr f ops] ch.run_refines [OF c(1), of ops, unfolded c]
    by (simp split: prod.split)
qed

text \<open>C26: A test whose attribute expects a missing configuration value passes by reading one with the question
  mark operator, whatever the tests before it left in the configuration database and even when a
  background task failed: the attribute becomes the expectation of the registration, the runner
  starts from an empty database, the error keeps its cause through the conversion, and the scoring
  compares it.\<close>

theorem expected_config_error:
  assumes "top_module (en_vpi E) (en_top E) = Inr (Inr dut)"
    and "\<And>reg dut tm st. en_body E reg seed dut tm st =
      (st, Some (Inr (map_sum id (\<lambda>_. ()) (question_config (fst (config_get (bn_config st) T ctx offset field))))))"
  shows "\<exists>reg st'. expand_test bad modul file line (attribute_tokens trailing [(''expect_error'', Some (ELit (LitStr ''config_not_found'')))]) (ItemFn n) =
      Inr (Function, reg) \<and> run_one_test E reg seed st = Inr (st', Pass)"
proof -
  obtain reg where reg: "expand_test bad modul file line (attribute_tokens trailing [(''expect_error'', Some (ELit (LitStr ''config_not_found'')))]) (ItemFn n) =
      Inr (Function, reg)" and r: "tr_expect_error reg = Some ''config_not_found''" "tr_timeout reg = None"
    by (simp add: expand_test_def parse_test_opts_def parse_attribute set_test_option_def string_value_def literal_def item_form_def opts_default_def
      del: attribute_tokens.simps)
  have t: "timeout_timer (en_checked E) (en_precision E) (tr_timeout reg) = Inr None" by (simp add: r timeout_timer_def)
  let ?e = "from_config_error (config_error.NotFound (resolve ctx offset) field)"
  have b: "en_body E reg seed dut None (fresh_bench E st) = (fresh_bench E st, Some (Inr (Inl ?e)))"
    by (simp add: assms(2) fresh_bench_def config_get_cleared question_config_def Let_def)
  from run_one_test_eq [OF assms(1) t b] reg show ?thesis
    by (simp add: raw_outcome_def r background_def expectation_def from_config_kind split: option.split)
qed

definition config_env :: "(nat, unit, nat, nat) env" where
  "config_env = demo_env\<lparr>en_body := \<lambda>reg seed dut tm st.
     (st, Some (Inr (map_sum id (\<lambda>_. ()) (question_config (fst (config_get (bn_config st) \<lparr>ty_id = 0, ty_name = ''u32''\<rparr> None ''top'' ''WIDTH''))))))\<rparr>"

theorem expected_config_error_witness:
  "\<exists>reg st'. expand_test '''' ''m'' ''f'' 1 (attribute_tokens True [(''expect_error'', Some (ELit (LitStr ''config_not_found'')))]) (ItemFn ''t'') =
      Inr (Function, reg) \<and> run_one_test config_env reg 3 demo_bench = Inr (st', Pass)"
  by (rule expected_config_error [where dut = 7]) (use demo_top in \<open>simp_all add: config_env_def\<close>)

end
